(* ===== verification/Prelude.thy ===== *)
theory Prelude
  imports Main "HOL-Library.Word"
begin

text \<open>
  What every component of the development shares.

  \<^item> \<open>u64\<close> is Rust's \<open>u64\<close> (and \<open>usize\<close>, on the 64-bit targets the repository builds for).
    Its operators panic on overflow: \<open>deploy/maroon/Dockerfile\<close> ships the debug binary and the
    Makefile's default profile is debug, so overflow checks are on. \<open>u64_add\<close>, \<open>u64_sub\<close> and
    \<open>u64_mul\<close> are these checked operators.
  \<^item> A panic is a value: a fallible computation has the type \<open>panic + 'a\<close>, \<open>Inl\<close> being the panic.
    \<open>rbind\<close> sequences two of them.
  \<^item> A \<open>HashMap\<close> is a finite map \<open>'k \<rightharpoonup> 'v\<close>. The order in which it is iterated is unspecified by
    the standard library, so every function that iterates one takes the order as an argument: a
    list of keys \<open>ks\<close> with \<open>key_order m ks\<close>, from which \<open>entries m ks\<close> is the sequence the
    iterator yields. Theorems quantify over every such order.
\<close>

named_theorems res_simps \<open>elimination of results: when a checked operation returns, and what\<close>
named_theorems unat_simps \<open>machine constants and operations read as natural numbers\<close>

declare word_le_nat_alt [unat_simps] word_less_nat_alt [unat_simps]

section \<open>Panics and results\<close>

datatype panic =
    AddOverflow          \<comment> \<open>attempt to add with overflow\<close>
  | SubOverflow          \<comment> \<open>attempt to subtract with overflow\<close>
  | MulOverflow          \<comment> \<open>attempt to multiply with overflow\<close>
  | NeverDoIt            \<comment> \<open>\<open>U64BlobIdClosedInterval::new\<close> with its ends swapped\<close>
  | IntervalTooLarge     \<comment> \<open>\<open>ids_count\<close> of the full \<open>u64\<close> interval\<close>
  | IndexTooBig          \<comment> \<open>\<open>full_interval_for_range\<close> above the last block\<close>
  | OutOfRange           \<comment> \<open>\<open>range_from_unique_blob_id\<close> above the last block\<close>
  | IndexOutOfBounds     \<comment> \<open>a slice index\<close>
  | NoSelfPeer           \<comment> \<open>\<open>recalculate_order\<close> without the node itself\<close>
  | ChannelDropped       \<comment> \<open>\<open>expect\<close> on a send to a dropped receiver\<close>
  | PolledAgain          \<comment> \<open>polling a future that has been ready before\<close>
  | CalledTwice          \<comment> \<open>\<open>start_in_background\<close> on a gateway already started\<close>
  | Unfinished           \<comment> \<open>\<open>todo!\<close>\<close>
  | UnwrapFailed         \<comment> \<open>\<open>unwrap\<close> on an error\<close>

definition rbind :: "'e + 'a \<Rightarrow> ('a \<Rightarrow> 'e + 'b) \<Rightarrow> 'e + 'b" where
  "rbind r f = (case r of Inl e \<Rightarrow> Inl e | Inr x \<Rightarrow> f x)"

lemma rbind_simps [simp]:
  "rbind (Inl e) f = Inl e"
  "rbind (Inr x) f = f x"
  by (simp_all add: rbind_def)

lemma rbind_eq_Inr [res_simps]: "rbind r f = Inr y \<longleftrightarrow> (\<exists>x. r = Inr x \<and> f x = Inr y)"
  by (cases r) simp_all

lemma rbind_cong [fundef_cong]:
  "r = r' \<Longrightarrow> (\<And>x. r' = Inr x \<Longrightarrow> f x = f' x) \<Longrightarrow> rbind r f = rbind r' f'"
  by (cases r') simp_all

lemma rbind_assoc: "rbind (rbind r f) g = rbind r (\<lambda>x. rbind (f x) g)"
  by (cases r) simp_all

lemma if_eq_Inr [res_simps]:
  "(if b then Inl e else r) = Inr y \<longleftrightarrow> \<not> b \<and> r = Inr y"
  "(if b then r else Inl e) = Inr y \<longleftrightarrow> b \<and> r = Inr y"
  by simp_all

section \<open>Checked machine arithmetic\<close>

type_synonym u64 = "64 word"
type_synonym u8 = "8 word"

definition u64_add :: "u64 \<Rightarrow> u64 \<Rightarrow> panic + u64" where
  "u64_add a b = (if unat a + unat b < 2 ^ 64 then Inr (a + b) else Inl AddOverflow)"

definition u64_sub :: "u64 \<Rightarrow> u64 \<Rightarrow> panic + u64" where
  "u64_sub a b = (if b \<le> a then Inr (a - b) else Inl SubOverflow)"

definition u64_mul :: "u64 \<Rightarrow> u64 \<Rightarrow> panic + u64" where
  "u64_mul a b = (if unat a * unat b < 2 ^ 64 then Inr (a * b) else Inl MulOverflow)"

lemma unat_less_u64: "unat (a :: u64) < 18446744073709551616"
  using unsigned_less [of a] by simp

lemma u64_eqI: "unat a = unat b \<Longrightarrow> a = (b :: u64)"
  by (simp add: word_unat_eq_iff)

lemma u64_add_eq_Inr [res_simps]: "u64_add a b = Inr c \<longleftrightarrow> unat c = unat a + unat b"
proof -
  have "unat (a + b) = unat a + unat b" if "unat a + unat b < 2 ^ 64"
    using that by (simp add: unat_word_ariths)
  moreover have "unat c < 2 ^ 64"
    using unat_less_u64 [of c] by simp
  ultimately show ?thesis
    by (auto simp: u64_add_def intro: u64_eqI)
qed

lemma u64_mul_eq_Inr [res_simps]: "u64_mul a b = Inr c \<longleftrightarrow> unat c = unat a * unat b"
proof -
  have "unat (a * b) = unat a * unat b" if "unat a * unat b < 2 ^ 64"
    using that by (simp add: unat_word_ariths)
  moreover have "unat c < 2 ^ 64"
    using unat_less_u64 [of c] by simp
  ultimately show ?thesis
    by (auto simp: u64_mul_def intro: u64_eqI)
qed

lemma u64_sub_eq_Inr [res_simps]: "u64_sub a b = Inr c \<longleftrightarrow> unat b \<le> unat a \<and> unat c = unat a - unat b"
  by (auto simp: u64_sub_def word_le_nat_alt unat_sub intro: u64_eqI)

lemma u64_add_Inl: "u64_add a b = Inl p \<longleftrightarrow> 2 ^ 64 \<le> unat a + unat b \<and> p = AddOverflow"
  by (auto simp: u64_add_def)

text \<open>The measure of a loop that steps a \<open>u64\<close> up by one.\<close>

lemma u64_step_decreases:
  "u64_add a 1 = Inr b \<Longrightarrow> 18446744073709551616 - unat b < 18446744073709551616 - unat a"
  using unat_less_u64 [of a] by (simp add: u64_add_eq_Inr)

text \<open>Induction hypotheses over a \<open>u64\<close> range are stated over natural numbers and read back here.\<close>

definition u64 :: "nat \<Rightarrow> u64" where
  "u64 n = word_of_nat n"

lemma unat_u64 [simp]: "n < 18446744073709551616 \<Longrightarrow> unat (u64 n) = n"
  by (simp add: u64_def unat_of_nat take_bit_nat_eq_self)

lemma u64_unat [simp]: "u64 (unat a) = a"
  by (simp add: u64_def)

lemma u64_numeral [simp]: "u64 0 = 0" "u64 1 = 1" "u64 (Suc 0) = 1" "u64 (numeral n) = numeral n"
  by (simp_all add: u64_def)

lemma unat_u64_le: "n \<le> unat (a :: u64) \<Longrightarrow> unat (u64 n) = n"
  using unat_less_u64 [of a] by simp

lemma u64_inj: "m < 18446744073709551616 \<Longrightarrow> n < 18446744073709551616 \<Longrightarrow> u64 m = u64 n \<longleftrightarrow> m = n"
  by (metis unat_u64)

lemma u64_eq_iff: "n < 18446744073709551616 \<Longrightarrow> a = u64 n \<longleftrightarrow> unat a = n"
  by (metis unat_u64 u64_unat)

section \<open>Hash maps and the order they are iterated in\<close>

definition key_order :: "('k \<rightharpoonup> 'v) \<Rightarrow> 'k list \<Rightarrow> bool" where
  "key_order m ks \<longleftrightarrow> distinct ks \<and> set ks = dom m"

definition entries :: "('k \<rightharpoonup> 'v) \<Rightarrow> 'k list \<Rightarrow> ('k \<times> 'v) list" where
  "entries m ks = List.map_filter (\<lambda>k. map_option (Pair k) (m k)) ks"

lemma entries_simps [simp]:
  "entries m [] = []"
  "entries m (k # ks) = (case m k of None \<Rightarrow> entries m ks | Some v \<Rightarrow> (k, v) # entries m ks)"
  by (simp_all add: entries_def List.map_filter_def split: option.split)

lemma set_entries: "set (entries m ks) = {(k, v). k \<in> set ks \<and> m k = Some v}"
  by (induction ks) (auto split: option.splits)

lemma map_fst_entries: "set ks \<subseteq> dom m \<Longrightarrow> map fst (entries m ks) = ks"
  by (induction ks) auto

lemma key_orderD:
  assumes "key_order m ks"
  shows "distinct ks" "set ks = dom m" "map fst (entries m ks) = ks"
    "distinct (map fst (entries m ks))" "finite (dom m)"
  using assms map_fst_entries [of ks m] by (auto simp: key_order_def) (metis List.finite_set)

lemma map_of_entries: "key_order m ks \<Longrightarrow> map_of (entries m ks) = m"
proof
  fix k assume ord: "key_order m ks"
  show "map_of (entries m ks) k = m k"
  proof (cases "m k")
    case None
    then have "k \<notin> fst ` set (entries m ks)" by (auto simp: set_entries)
    with None show ?thesis by (simp add: map_of_eq_None_iff)
  next
    case (Some v)
    then have "(k, v) \<in> set (entries m ks)"
      using ord by (auto simp: set_entries key_order_def)
    with Some key_orderD(4) [OF ord] show ?thesis by simp
  qed
qed

lemma length_entries: "key_order m ks \<Longrightarrow> length (entries m ks) = card (dom m)"
  using key_orderD [of m ks] by (metis distinct_card length_map)

lemma key_order_exists: "finite (dom m) \<Longrightarrow> \<exists>ks. key_order m ks"
  using finite_distinct_list [of "dom m"] by (auto simp: key_order_def)

lemma key_order_empty [simp]: "key_order (\<lambda>_. None) ks \<longleftrightarrow> ks = []"
  by (auto simp: key_order_def)

end
