(* ===== verification/Range_Key.thy ===== *)
theory Range_Key
  imports Prelude
begin

text \<open>
  \<open>common/src/range_key.rs\<close>: the 64-bit transaction ids, their split into a block (\<open>KeyRange\<close>,
  34 bits) and an offset in the block (\<open>KeyOffset\<close>, 30 bits), and closed intervals of ids.
  The three newtypes over \<open>u64\<close> derive every operation from the field, so they are synonyms of
  \<open>u64\<close>; the interval derives \<open>Ord\<close>, the lexicographic order on its fields, which is its
  \<open>linorder\<close> instance here.
\<close>

section \<open>Ids, ranges, offsets\<close>

type_synonym KeyRange = u64
type_synonym KeyOffset = u64
type_synonym UniqueU64BlobId = u64

definition SINGLE_BLOB_SIZE :: u64 where
  "SINGLE_BLOB_SIZE = push_bit 30 1"

definition MAX_BLOCK_INDEX :: u64 where
  "MAX_BLOCK_INDEX = push_bit (64 - 30) 1 - 1"

lemma SINGLE_BLOB_SIZE_eval: "SINGLE_BLOB_SIZE = 1073741824"
  by (simp add: SINGLE_BLOB_SIZE_def)

lemma MAX_BLOCK_INDEX_eval: "MAX_BLOCK_INDEX = 17179869183"
  by (simp add: MAX_BLOCK_INDEX_def)

lemma unat_consts [unat_simps]:
  "unat SINGLE_BLOB_SIZE = 1073741824"
  "unat MAX_BLOCK_INDEX = 17179869183"
  by (simp_all add: SINGLE_BLOB_SIZE_eval MAX_BLOCK_INDEX_eval)

definition range_from_unique_blob_id :: "UniqueU64BlobId \<Rightarrow> panic + KeyRange" where
  "range_from_unique_blob_id global_key =
     rbind (u64_mul MAX_BLOCK_INDEX SINGLE_BLOB_SIZE) (\<lambda>limit.
       if limit < global_key then Inl OutOfRange
       else Inr (global_key div SINGLE_BLOB_SIZE))"

definition range_offset_from_unique_blob_id ::
    "UniqueU64BlobId \<Rightarrow> panic + (KeyRange \<times> KeyOffset)" where
  "range_offset_from_unique_blob_id global_key =
     rbind (range_from_unique_blob_id global_key) (\<lambda>key_range.
       Inr (key_range, global_key mod SINGLE_BLOB_SIZE))"

definition unique_blob_id_from_range_and_offset ::
    "KeyRange \<Rightarrow> KeyOffset \<Rightarrow> panic + UniqueU64BlobId" where
  "unique_blob_id_from_range_and_offset key_range offset =
     rbind (u64_mul key_range SINGLE_BLOB_SIZE) (\<lambda>base. u64_add base offset)"

text \<open>When they return, and what, over the natural numbers.\<close>

lemma block_limit: "u64_mul MAX_BLOCK_INDEX SINGLE_BLOB_SIZE = Inr 18446744072635809792"
  by (simp add: u64_mul_eq_Inr unat_consts)

lemma range_from_eq_Inr [res_simps]:
  "range_from_unique_blob_id k = Inr r \<longleftrightarrow>
     unat k \<le> 18446744072635809792 \<and> unat r = unat k div 1073741824"
  by (auto simp: range_from_unique_blob_id_def block_limit unat_simps unat_div
      not_less intro: u64_eqI)

lemma range_offset_from_eq_Inr [res_simps]:
  "range_offset_from_unique_blob_id k = Inr (r, i) \<longleftrightarrow>
     unat k \<le> 18446744072635809792 \<and> unat r = unat k div 1073741824 \<and>
     unat i = unat k mod 1073741824"
  by (auto simp: range_offset_from_unique_blob_id_def res_simps unat_mod unat_simps
      intro: u64_eqI)

lemma unique_blob_id_eq_Inr [res_simps]:
  "unique_blob_id_from_range_and_offset r i = Inr k \<longleftrightarrow>
     unat k = unat r * 1073741824 + unat i"
proof -
  have "\<exists>base :: u64. unat base = unat r * 1073741824" if "unat k = unat r * 1073741824 + unat i"
    using that unat_less_u64 [of k] by (intro exI [of _ "u64 (unat r * 1073741824)"]) simp
  then show ?thesis
    by (auto simp: unique_blob_id_from_range_and_offset_def res_simps unat_simps) metis
qed

text \<open>
  The ids a node accepts: those \<open>range_from_unique_blob_id\<close> returns on. A valid pair of a range
  and an offset is one that is the decoding of such an id.
\<close>

definition valid_id :: "UniqueU64BlobId \<Rightarrow> bool" where
  "valid_id k \<longleftrightarrow> unat k \<le> 18446744072635809792"

definition valid_pos :: "KeyRange \<Rightarrow> KeyOffset \<Rightarrow> bool" where
  "valid_pos r i \<longleftrightarrow> unat i < 1073741824 \<and> unat r * 1073741824 + unat i \<le> 18446744072635809792"

lemma valid_pos_decode:
  "range_offset_from_unique_blob_id k = Inr (r, i) \<Longrightarrow> valid_pos r i"
  by (auto simp: res_simps valid_pos_def)

lemma valid_pos_mono: "valid_pos r i \<Longrightarrow> unat j \<le> unat i \<Longrightarrow> valid_pos r j"
  by (auto simp: valid_pos_def)

lemma div_mod_blob:
  fixes r i :: nat
  assumes "i < 1073741824"
  shows "(r * 1073741824 + i) div 1073741824 = r" "(r * 1073741824 + i) mod 1073741824 = i"
  using assms by simp_all

lemma encode_valid:
  assumes "valid_pos r i"
  shows "unique_blob_id_from_range_and_offset r i = Inr (u64 (unat r * 1073741824 + unat i))"
  using assms by (simp add: res_simps valid_pos_def)

lemma decode_encode:
  assumes "valid_pos r i" and "unique_blob_id_from_range_and_offset r i = Inr k"
  shows "range_offset_from_unique_blob_id k = Inr (r, i)"
  using assms by (simp add: res_simps valid_pos_def div_mod_blob)

lemma encode_decode:
  assumes "range_offset_from_unique_blob_id k = Inr (r, i)"
  shows "unique_blob_id_from_range_and_offset r i = Inr k"
  using assms by (simp add: res_simps)

section \<open>Closed intervals of ids\<close>

datatype U64BlobIdClosedInterval = ClosedInterval (left: UniqueU64BlobId) (right: UniqueU64BlobId)

text \<open>The derived \<open>PartialOrd\<close> and \<open>Ord\<close> compare the fields in declaration order.\<close>

definition interval_le :: "U64BlobIdClosedInterval \<Rightarrow> U64BlobIdClosedInterval \<Rightarrow> bool" where
  "interval_le a b \<longleftrightarrow> left a < left b \<or> left a = left b \<and> right a \<le> right b"

definition interval_less :: "U64BlobIdClosedInterval \<Rightarrow> U64BlobIdClosedInterval \<Rightarrow> bool" where
  "interval_less a b \<longleftrightarrow> left a < left b \<or> left a = left b \<and> right a < right b"

instantiation U64BlobIdClosedInterval :: linorder
begin

definition less_eq_U64BlobIdClosedInterval where
  "less_eq_U64BlobIdClosedInterval = interval_le"

definition less_U64BlobIdClosedInterval where
  "less_U64BlobIdClosedInterval = interval_less"

instance
  by standard
    (auto simp: less_eq_U64BlobIdClosedInterval_def less_U64BlobIdClosedInterval_def
      interval_le_def interval_less_def intro: U64BlobIdClosedInterval.expand)

end

lemmas interval_order = less_eq_U64BlobIdClosedInterval_def interval_le_def

definition interval_new :: "u64 \<Rightarrow> u64 \<Rightarrow> panic + U64BlobIdClosedInterval" where
  "interval_new l r = (if r < l then Inl NeverDoIt else Inr (ClosedInterval l r))"

definition new_from_range_and_offsets ::
    "KeyRange \<Rightarrow> KeyOffset \<Rightarrow> KeyOffset \<Rightarrow> panic + U64BlobIdClosedInterval" where
  "new_from_range_and_offsets key_range l r =
     rbind (unique_blob_id_from_range_and_offset key_range l) (\<lambda>l'.
     rbind (unique_blob_id_from_range_and_offset key_range r) (\<lambda>r'.
       interval_new l' r'))"

text \<open>\<open>checked_add(1)\<close> is \<open>None\<close> exactly when \<open>u64_add\<close> would panic.\<close>

text \<open>The accessors \<open>start\<close> and \<open>end\<close>.\<close>

definition interval_start :: "U64BlobIdClosedInterval \<Rightarrow> UniqueU64BlobId" where
  [simp]: "interval_start i = left i"

definition interval_end :: "U64BlobIdClosedInterval \<Rightarrow> UniqueU64BlobId" where
  [simp]: "interval_end i = right i"

definition ids_count :: "U64BlobIdClosedInterval \<Rightarrow> panic + u64" where
  "ids_count i =
     rbind (u64_sub (right i) (left i)) (\<lambda>diff.
       case u64_add diff 1 of Inr count \<Rightarrow> Inr count | Inl _ \<Rightarrow> Inl IntervalTooLarge)"

text \<open>
  The iterator: the closure steps \<open>current\<close> before it yields the old value, so the step past a
  right end of \<open>u64::MAX\<close> panics. \<open>interval_iter\<close> is the sequence a \<open>for\<close> loop sees.
\<close>

function iter_from :: "u64 \<Rightarrow> u64 \<Rightarrow> panic + UniqueU64BlobId list" where
  "iter_from current right_end =
     (if current \<le> right_end then
        rbind (u64_add current 1) (\<lambda>next_current.
        rbind (iter_from next_current right_end) (\<lambda>rest.
          Inr (current # rest)))
      else Inr [])"
  by pat_completeness auto
termination
  by (relation "measure (\<lambda>(current, _). 18446744073709551616 - unat current)")
    (simp_all add: u64_step_decreases)

declare iter_from.simps [simp del]

definition interval_iter :: "U64BlobIdClosedInterval \<Rightarrow> panic + UniqueU64BlobId list" where
  "interval_iter i = iter_from (left i) (right i)"

definition full_interval_for_range :: "KeyRange \<Rightarrow> panic + U64BlobIdClosedInterval" where
  "full_interval_for_range key_range =
     (if MAX_BLOCK_INDEX < key_range then Inl IndexTooBig
      else
        rbind (u64_mul key_range SINGLE_BLOB_SIZE) (\<lambda>l.
        rbind (u64_mul key_range SINGLE_BLOB_SIZE) (\<lambda>base.
        rbind (u64_add base SINGLE_BLOB_SIZE) (\<lambda>top.
        rbind (u64_sub top 1) (\<lambda>r.
          interval_new l r)))))"

subsection \<open>The ids of an interval\<close>

definition ids_between :: "u64 \<Rightarrow> u64 \<Rightarrow> UniqueU64BlobId list" where
  "ids_between l r = map u64 [unat l ..< Suc (unat r)]"

definition interval_ids :: "U64BlobIdClosedInterval \<Rightarrow> UniqueU64BlobId list" where
  "interval_ids i = ids_between (left i) (right i)"

lemma ids_between_simps:
  "r < l \<Longrightarrow> ids_between l r = []"
  "l \<le> r \<Longrightarrow> u64_add l 1 = Inr n \<Longrightarrow> ids_between l r = l # ids_between n r"
  by (simp_all add: ids_between_def unat_simps res_simps upt_conv_Cons del: upt_Suc)

lemma set_ids_between: "set (ids_between l r) = {l..r}"
proof
  show "set (ids_between l r) \<subseteq> {l..r}"
    by (auto simp: ids_between_def unat_simps unat_u64_le [of _ r])
  show "{l..r} \<subseteq> set (ids_between l r)"
  proof
    fix k assume "k \<in> {l..r}"
    then have "unat k \<in> {unat l ..< Suc (unat r)}" by (auto simp: unat_simps)
    then have "u64 (unat k) \<in> set (ids_between l r)" unfolding ids_between_def by (simp only: set_map set_upt imageI)
    then show "k \<in> set (ids_between l r)" by simp
  qed
qed

lemma distinct_ids_between: "distinct (ids_between l r)"
proof -
  have "inj_on u64 {unat l..<Suc (unat r)}"
    using unat_less_u64 [of r] by (intro inj_onI) (simp add: u64_inj)
  then show ?thesis by (simp add: ids_between_def distinct_map del: upt_Suc)
qed

lemma sorted_ids_between: "sorted_wrt (<) (ids_between l r)"
proof -
  have "sorted_wrt (<) (map u64 [unat l ..< Suc (unat r)])"
    unfolding sorted_wrt_map
    using unat_less_u64 [of r]
    by (intro sorted_wrt_mono_rel [OF _ sorted_wrt_upt]) (auto simp: word_less_nat_alt)
  then show ?thesis by (simp add: ids_between_def)
qed

lemma length_ids_between: "length (ids_between l r) = Suc (unat r) - unat l"
  by (simp add: ids_between_def del: upt_Suc)

lemma ids_between_append:
  assumes "unat l \<le> Suc (unat m)" and "unat n = Suc (unat m)" and "unat m \<le> unat r"
  shows "ids_between l m @ ids_between n r = ids_between l r"
proof -
  have "[unat l ..< Suc (unat m)] @ [Suc (unat m) ..< Suc (unat r)] = [unat l ..< Suc (unat r)]"
    using assms upt_add_eq_append [of "unat l" "Suc (unat m)" "unat r - unat m"] by simp
  then show ?thesis
    unfolding ids_between_def assms(2) map_append [symmetric] by simp
qed

lemma iter_from_eq: "unat r < 18446744073709551615 \<Longrightarrow> iter_from l r = Inr (ids_between l r)"
proof (induction l r rule: iter_from.induct)
  case (1 l r)
  show ?case
  proof (cases "l \<le> r")
    case True
    then obtain n where n: "u64_add l 1 = Inr n"
      using 1(2) by (cases "u64_add l 1") (auto simp: u64_add_Inl unat_simps)
    with 1 True show ?thesis
      by (subst iter_from.simps) (simp add: ids_between_simps)
  next
    case False
    then show ?thesis by (subst iter_from.simps) (simp add: ids_between_simps)
  qed
qed

lemma iter_from_max: "unat r = 18446744073709551615 \<Longrightarrow> iter_from l r = Inl AddOverflow"
proof (induction l r rule: iter_from.induct)
  case (1 l r)
  have le: "l \<le> r" using 1(2) unat_less_u64 [of l] by (simp add: unat_simps)
  show ?case
  proof (cases "u64_add l 1")
    case (Inl p)
    then have "p = AddOverflow" by (simp add: u64_add_Inl)
    with Inl le show ?thesis by (subst iter_from.simps) simp
  next
    case (Inr n)
    with 1 le show ?thesis by (subst iter_from.simps) simp
  qed
qed

lemma interval_new_eq_Inr [res_simps]:
  "interval_new l r = Inr i \<longleftrightarrow> unat l \<le> unat r \<and> i = ClosedInterval l r"
  by (auto simp: interval_new_def unat_simps)

lemma new_from_range_and_offsets_eq_Inr [res_simps]:
  "new_from_range_and_offsets g l r = Inr i \<longleftrightarrow>
     unat l \<le> unat r \<and> unat (left i) = unat g * 1073741824 + unat l \<and>
     unat (right i) = unat g * 1073741824 + unat r"
  by (cases i) (auto simp: new_from_range_and_offsets_def res_simps)

lemma ids_count_eq_Inr [res_simps]:
  "ids_count i = Inr n \<longleftrightarrow>
     unat (left i) \<le> unat (right i) \<and> unat n = Suc (unat (right i)) - unat (left i)"
proof -
  have count: "(case u64_add d 1 of Inr count \<Rightarrow> Inr count | Inl _ \<Rightarrow> Inl IntervalTooLarge) = Inr n
      \<longleftrightarrow> u64_add d 1 = Inr n" for d
    by (cases "u64_add d 1") simp_all
  show ?thesis
    unfolding ids_count_def rbind_eq_Inr count u64_sub_eq_Inr u64_add_eq_Inr
    by (auto simp: Suc_diff_le intro!: exI [of _ "u64 (unat (right i) - unat (left i))"]
        unat_u64_le [of _ "right i", symmetric] unat_u64_le [of _ "right i"])
qed

lemma interval_iter_eq:
  "unat (right i) < 18446744073709551615 \<Longrightarrow> interval_iter i = Inr (interval_ids i)"
  by (simp add: interval_iter_def interval_ids_def iter_from_eq)

lemma interval_iter_eq_Inr [res_simps]:
  "interval_iter i = Inr ks \<longleftrightarrow>
     unat (right i) < 18446744073709551615 \<and> ks = interval_ids i"
proof (cases "unat (right i) < 18446744073709551615")
  case True
  then show ?thesis by (auto simp: interval_iter_eq)
next
  case False
  then have "unat (right i) = 18446744073709551615" using unat_less_u64 [of "right i"] by simp
  then show ?thesis by (simp add: interval_iter_def iter_from_max)
qed

lemma set_interval_ids: "set (interval_ids i) = {left i..right i}"
  by (simp add: interval_ids_def set_ids_between)

section \<open>Properties\<close>

text \<open>
  C26: decoding an id and encoding a pair are inverse on exactly the accepted ids and the
  offsets of one block: decoding \<open>k\<close> returns \<open>(r, i)\<close> if and only if \<open>k\<close> is at most the first id of
  the last block, \<open>i\<close> is below the block size, and encoding \<open>(r, i)\<close> gives \<open>k\<close>.
\<close>

theorem range_offset_codec:
  "range_offset_from_unique_blob_id k = Inr (r, i) \<longleftrightarrow>
     unat k \<le> unat MAX_BLOCK_INDEX * unat SINGLE_BLOB_SIZE \<and> i < SINGLE_BLOB_SIZE \<and>
     unique_blob_id_from_range_and_offset r i = Inr k"
  by (auto simp: res_simps unat_consts unat_simps div_mod_blob)

text \<open>
  Of the block \<open>MAX_BLOCK_INDEX\<close> every offset of the block encodes to an id, but decoding
  refuses each of these ids but the first: the limit of \<open>range_from_unique_blob_id\<close> is the first id of
  the last block where the last id of it would be right.
\<close>

lemma last_block_refused:
  assumes "0 < i" and "i < SINGLE_BLOB_SIZE"
  shows "\<exists>k. unique_blob_id_from_range_and_offset MAX_BLOCK_INDEX i = Inr k \<and>
    range_offset_from_unique_blob_id k = Inl OutOfRange"
proof -
  have i: "0 < unat i" "unat i < 1073741824" using assms by (simp_all add: unat_simps unat_consts)
  let ?k = "u64 (18446744072635809792 + unat i)"
  have "unique_blob_id_from_range_and_offset MAX_BLOCK_INDEX i = Inr ?k"
    using i by (simp add: res_simps unat_consts)
  moreover have "range_offset_from_unique_blob_id ?k = Inl OutOfRange"
    using i by (simp add: range_offset_from_unique_blob_id_def range_from_unique_blob_id_def
        block_limit word_less_nat_alt)
  ultimately show ?thesis by blast
qed

lemma last_block_refused_witness:
  "\<exists>k. unique_blob_id_from_range_and_offset MAX_BLOCK_INDEX 1 = Inr k \<and>
     range_offset_from_unique_blob_id k = Inl OutOfRange"
  by (rule last_block_refused) (simp_all add: SINGLE_BLOB_SIZE_eval)

text \<open>
  \<open>full_interval_for_range\<close> returns the first and the last id of a block for every block
  but the last one, which its own check lets through: there the addition overflows. Above it the
  check panics.
\<close>

lemma full_interval_cases:
  "full_interval_for_range r =
     (if r < MAX_BLOCK_INDEX
      then Inr (ClosedInterval (r * SINGLE_BLOB_SIZE) (r * SINGLE_BLOB_SIZE + (SINGLE_BLOB_SIZE - 1)))
      else if r = MAX_BLOCK_INDEX then Inl AddOverflow else Inl IndexTooBig)"
proof (cases "r < MAX_BLOCK_INDEX")
  case True
  then have r: "unat r < 17179869183" by (simp add: unat_simps unat_consts)
  have mul: "u64_mul r SINGLE_BLOB_SIZE = Inr (r * SINGLE_BLOB_SIZE)"
    using r by (simp add: u64_mul_def unat_consts)
  then have base: "unat (r * SINGLE_BLOB_SIZE) = unat r * 1073741824"
    by (simp add: res_simps unat_consts)
  then have add: "u64_add (r * SINGLE_BLOB_SIZE) SINGLE_BLOB_SIZE = Inr (r * SINGLE_BLOB_SIZE + SINGLE_BLOB_SIZE)"
    using r by (simp add: u64_add_def unat_consts)
  then have top: "unat (r * SINGLE_BLOB_SIZE + SINGLE_BLOB_SIZE) = unat r * 1073741824 + 1073741824"
    by (simp add: res_simps base unat_consts)
  then have sub: "u64_sub (r * SINGLE_BLOB_SIZE + SINGLE_BLOB_SIZE) 1 =
      Inr (r * SINGLE_BLOB_SIZE + (SINGLE_BLOB_SIZE - 1))"
    by (simp add: u64_sub_def word_le_nat_alt algebra_simps)
  then have "unat (r * SINGLE_BLOB_SIZE + (SINGLE_BLOB_SIZE - 1)) = unat r * 1073741824 + 1073741823"
    by (simp add: res_simps top)
  then show ?thesis
    using True by (simp add: full_interval_for_range_def mul add sub interval_new_def base word_less_nat_alt)
next
  case False
  then show ?thesis
    by (auto simp: full_interval_for_range_def block_limit u64_add_def unat_consts not_less)
qed

text \<open>
  C27: where \<open>ids_count\<close> and the iterator of an interval both return, the iterator yields, in
  ascending order and once each, exactly the ids between the two ends, as many as \<open>ids_count\<close> says.
\<close>

theorem interval_iter_counts:
  assumes "interval_iter i = Inr ks" and "ids_count i = Inr n"
  shows "sorted_wrt (<) ks \<and> set ks = {left i..right i} \<and> length ks = unat n"
proof -
  have "ks = ids_between (left i) (right i)"
    using assms(1) by (simp add: res_simps interval_ids_def)
  then show ?thesis
    using assms(2) by (simp add: res_simps sorted_ids_between set_ids_between length_ids_between)
qed

theorem interval_iter_counts_witness:
  "sorted_wrt (<) [3, 4, 5 :: u64] \<and> set [3, 4, 5] = {3..5 :: u64} \<and> length [3, 4, 5 :: u64] = unat (3 :: u64)"
proof -
  have "interval_iter (ClosedInterval 3 5) = Inr [3, 4, 5]"
    by (simp add: interval_iter_eq interval_ids_def ids_between_def upt_rec)
  moreover have "ids_count (ClosedInterval 3 5) = Inr 3" by (simp add: ids_count_eq_Inr)
  ultimately show ?thesis using interval_iter_counts [of "ClosedInterval 3 5" "[3, 4, 5]" 3] by simp
qed

end
