(* ===== verification/Transactions.thy ===== *)
theory Transactions
  imports Range_Key
begin

text \<open>
  \<open>common/src/transaction.rs\<close>: a transaction and its status. The status is carried, never read,
  by the code of the repository.
\<close>

datatype TxStatus = Created | Pending | Confirmed | Finished | Rejected

datatype Transaction = Transaction (tx_id: UniqueU64BlobId) (tx_status: TxStatus)

text \<open>The transaction store of a node, \<open>HashMap<UniqueU64BlobId, Transaction>\<close>.\<close>

type_synonym tx_map = "UniqueU64BlobId \<rightharpoonup> Transaction"

definition has_tx :: "tx_map \<Rightarrow> UniqueU64BlobId \<Rightarrow> bool" where
  "has_tx txs k \<longleftrightarrow> txs k \<noteq> None"

text \<open>Every stored transaction is stored under its own id, and its id is one a node accepts.\<close>

definition tx_map_wf :: "tx_map \<Rightarrow> bool" where
  "tx_map_wf txs \<longleftrightarrow> finite (dom txs) \<and> (\<forall>k t. txs k = Some t \<longrightarrow> tx_id t = k \<and> valid_id k)"

text \<open>
  \<open>holds_upto txs r i\<close>: the store has every transaction of the range \<open>r\<close> up to the offset \<open>i\<close>.
  This is what a node's offset for a range, and everything computed from offsets, promises.
\<close>

definition holds_upto :: "tx_map \<Rightarrow> KeyRange \<Rightarrow> KeyOffset \<Rightarrow> bool" where
  "holds_upto txs r i \<longleftrightarrow> (\<forall>j \<le> unat i. has_tx txs (u64 (unat r * 1073741824 + j)))"

lemma has_tx_mono: "has_tx txs k \<Longrightarrow> dom txs \<subseteq> dom txs' \<Longrightarrow> has_tx txs' k"
  unfolding has_tx_def by blast

lemma holds_upto_mono:
  "holds_upto txs r i \<Longrightarrow> dom txs \<subseteq> dom txs' \<Longrightarrow> holds_upto txs' r i"
  unfolding holds_upto_def by (blast intro: has_tx_mono)

lemma holds_upto_le:
  "holds_upto txs r i \<Longrightarrow> unat j \<le> unat i \<Longrightarrow> holds_upto txs r j"
  by (auto simp: holds_upto_def)

lemma holds_uptoD:
  assumes "holds_upto txs r i" and "unat k = unat r * 1073741824 + j" and "j \<le> unat i"
  shows "has_tx txs k"
proof -
  have "u64 (unat r * 1073741824 + j) = k" by (metis assms(2) u64_unat)
  then show ?thesis using assms(1,3) by (auto simp: holds_upto_def)
qed

text \<open>
  \<open>contiguous txs r v\<close>: the stored transactions of \<open>r\<close> run from offset 0 to \<open>v\<close> without a gap and
  stop there. A block is full when it has no gap at all.
\<close>

definition contiguous :: "tx_map \<Rightarrow> KeyRange \<Rightarrow> KeyOffset \<Rightarrow> bool" where
  "contiguous txs r v \<longleftrightarrow> valid_pos r v \<and> holds_upto txs r v \<and>
     \<not> has_tx txs (u64 (unat r * 1073741824 + Suc (unat v)))"

definition block_full :: "tx_map \<Rightarrow> KeyRange \<Rightarrow> bool" where
  "block_full txs r \<longleftrightarrow> (\<forall>j < 1073741824. has_tx txs (u64 (unat r * 1073741824 + j)))"

lemma not_block_full:
  "\<not> block_full txs r \<longleftrightarrow> (\<exists>j < 1073741824. txs (u64 (unat r * 1073741824 + j)) = None)"
  by (auto simp: block_full_def has_tx_def)

lemma contiguous_unique: "contiguous txs r v \<Longrightarrow> contiguous txs r w \<Longrightarrow> v = w"
proof (rule ccontr)
  assume v: "contiguous txs r v" and w: "contiguous txs r w" and "v \<noteq> w"
  then consider "Suc (unat v) \<le> unat w" | "Suc (unat w) \<le> unat v"
    by (metis not_less_eq_eq le_antisym u64_eqI)
  then show False
    using v w unfolding contiguous_def holds_upto_def by cases blast+
qed

lemma contiguous_exists:
  assumes "has_tx txs (u64 (unat r * 1073741824))" and "\<not> block_full txs r"
    and "tx_map_wf txs" and "unat r * 1073741824 \<le> 18446744072635809792"
  shows "\<exists>v. contiguous txs r v"
proof -
  let ?gap = "\<lambda>j. \<not> has_tx txs (u64 (unat r * 1073741824 + j))"
  define g where "g = (LEAST j. ?gap j)"
  obtain j where j: "j < 1073741824" "?gap j" using assms(2) by (auto simp: block_full_def)
  have gap: "?gap g" unfolding g_def using j(2) by (rule LeastI)
  have "g \<le> j" unfolding g_def using j(2) by (rule Least_le)
  have before: "has_tx txs (u64 (unat r * 1073741824 + i))" if "i < g" for i
    using that not_less_Least [of i ?gap] unfolding g_def by blast
  have "g \<noteq> 0" using gap assms(1) by (metis add_0_right)
  then obtain v where v: "g = Suc v" by (cases g) auto
  with \<open>g \<le> j\<close> j(1) have "v < 1073741824" by simp
  moreover have "valid_id (u64 (unat r * 1073741824 + v))"
    using before [of v] v assms(3) by (auto simp: has_tx_def tx_map_wf_def)
  ultimately have "contiguous txs r (u64 v)"
    using gap before v assms(4)
    by (simp add: contiguous_def valid_pos_def valid_id_def holds_upto_def)
  then show ?thesis ..
qed

lemma contiguous_dom: "dom txs = dom txs' \<Longrightarrow> contiguous txs r v \<longleftrightarrow> contiguous txs' r v"
proof -
  assume "dom txs = dom txs'"
  then have "has_tx txs = has_tx txs'" by (auto simp: has_tx_def fun_eq_iff dom_def)
  then show ?thesis by (simp add: contiguous_def holds_upto_def)
qed

end
