(* ===== verification/Epochs.thy ===== *)
theory Epochs
  imports Range_Key
begin

text \<open>
  \<open>maroon/src/epoch.rs\<close>: an epoch is the list of id intervals it commits and a SHA-256 hash that
  chains it to the epoch before. SHA-256 is the crate \<open>sha2\<close>: the digest of a byte string is the
  parameter \<open>sha256\<close>, and a hasher is the bytes it was fed so far, since feeding two strings one
  after the other is documented to be the same as feeding their concatenation.
\<close>

record Epoch =
  increments :: "U64BlobIdClosedInterval list"
  hash :: "u8 list"

definition to_le_bytes :: "u64 \<Rightarrow> u8 list" where
  "to_le_bytes a = map (\<lambda>n. ucast (drop_bit (8 * n) a)) [0..<8]"

fun feed_intervals :: "u8 list \<Rightarrow> U64BlobIdClosedInterval list \<Rightarrow> u8 list" where
  "feed_intervals hasher [] = hasher"
| "feed_intervals hasher (interval # is) =
     feed_intervals ((hasher @ to_le_bytes (interval_start interval)) @ to_le_bytes (interval_end interval)) is"

definition Epoch_new ::
    "(u8 list \<Rightarrow> u8 list) \<Rightarrow> U64BlobIdClosedInterval list \<Rightarrow> u8 list option \<Rightarrow> Epoch" where
  "Epoch_new sha256 incs prev_hash =
     (let hasher = [];
          hasher = (case prev_hash of Some prev \<Rightarrow> hasher @ prev | None \<Rightarrow> hasher);
          hasher = feed_intervals hasher incs
      in \<lparr>increments = incs, hash = sha256 hasher\<rparr>)"

section \<open>What is hashed\<close>

definition interval_bytes :: "U64BlobIdClosedInterval \<Rightarrow> u8 list" where
  "interval_bytes i = to_le_bytes (left i) @ to_le_bytes (right i)"

lemma feed_intervals_eq: "feed_intervals h is = h @ concat (map interval_bytes is)"
  by (induction h "is" rule: feed_intervals.induct) (simp_all add: interval_bytes_def)

lemma Epoch_new_simps [simp]:
  "increments (Epoch_new sha256 incs prev) = incs"
  "hash (Epoch_new sha256 incs prev) =
     sha256 (case_option [] id prev @ concat (map interval_bytes incs))"
  by (simp_all add: Epoch_new_def feed_intervals_eq split: option.split)

lemma length_to_le_bytes [simp]: "length (to_le_bytes a) = 8"
  by (simp add: to_le_bytes_def)

lemma nth_to_le_bytes: "n < 8 \<Longrightarrow> to_le_bytes a ! n = ucast (drop_bit (8 * n) a)"
  by (simp add: to_le_bytes_def)

lemma bit_to_le_bytes:
  "m < 64 \<Longrightarrow> bit (to_le_bytes a ! (m div 8)) (m mod 8) = bit a m"
  by (simp add: nth_to_le_bytes bit_ucast_iff bit_drop_bit_eq)

lemma to_le_bytes_inj: "to_le_bytes a = to_le_bytes b \<longleftrightarrow> a = b"
proof
  assume eq: "to_le_bytes a = to_le_bytes b"
  show "a = b"
  proof (rule bit_word_eqI)
    fix m assume "m < LENGTH(64)"
    then show "bit a m = bit b m"
      using bit_to_le_bytes [of m a] bit_to_le_bytes [of m b] eq by simp
  qed
qed simp

lemma length_interval_bytes [simp]: "length (interval_bytes i) = 16"
  by (simp add: interval_bytes_def)

lemma interval_bytes_ne [simp]: "interval_bytes i \<noteq> []" "[] \<noteq> interval_bytes i"
  by (metis length_interval_bytes list.size(3) zero_neq_numeral)+

lemma interval_bytes_inj: "interval_bytes i = interval_bytes j \<longleftrightarrow> i = j"
  by (auto simp: interval_bytes_def to_le_bytes_inj intro: U64BlobIdClosedInterval.expand)

lemma length_bytes_of_intervals: "length (concat (map interval_bytes is)) = 16 * length is"
  by (induction "is") simp_all

lemma bytes_of_intervals_inj:
  "concat (map interval_bytes is) = concat (map interval_bytes js) \<Longrightarrow> is = js"
proof (induction "is" arbitrary: js)
  case Nil
  then show ?case by (cases js) simp_all
next
  case (Cons i "is")
  then show ?case by (cases js) (auto simp: interval_bytes_inj length_bytes_of_intervals dest: arg_cong [of _ _ length])
qed

section \<open>The chain of epochs\<close>

text \<open>
  Every epoch is hashed over the hash of the epoch before it, the first over none.
\<close>

fun chained :: "(u8 list \<Rightarrow> u8 list) \<Rightarrow> u8 list option \<Rightarrow> Epoch list \<Rightarrow> bool" where
  "chained sha256 prev [] \<longleftrightarrow> True"
| "chained sha256 prev (e # es) \<longleftrightarrow>
     e = Epoch_new sha256 (increments e) prev \<and> chained sha256 (Some (hash e)) es"

definition last_hash :: "u8 list option \<Rightarrow> Epoch list \<Rightarrow> u8 list option" where
  "last_hash prev es = (if es = [] then prev else Some (hash (last es)))"

lemma last_hash_simps [simp]:
  "last_hash prev [] = prev"
  "last_hash prev (e # es) = last_hash (Some (hash e)) es"
  by (simp_all add: last_hash_def)

lemma chained_append:
  "chained sha256 prev (es @ [e]) \<longleftrightarrow>
     chained sha256 prev es \<and> e = Epoch_new sha256 (increments e) (last_hash prev es)"
  by (induction es arbitrary: prev) simp_all

lemma length_chained:
  "chained sha256 prev es \<Longrightarrow> \<forall>x. length (sha256 x) = 32 \<Longrightarrow> es \<noteq> [] \<Longrightarrow> length (hash (last es)) = 32"
proof (induction es rule: rev_induct)
  case (snoc e es)
  then have "e = Epoch_new sha256 (increments e) (last_hash prev es)" by (simp add: chained_append)
  then have "hash e = sha256 (case_option [] id (last_hash prev es) @ concat (map interval_bytes (increments e)))"
    using Epoch_new_simps(2) by metis
  with snoc.prems show ?case by simp
qed simp

text \<open>The byte strings a chain hashes.\<close>

definition preimage :: "u8 list option \<Rightarrow> Epoch \<Rightarrow> u8 list" where
  "preimage prev e = case_option [] id prev @ concat (map interval_bytes (increments e))"

fun hashed :: "u8 list option \<Rightarrow> Epoch list \<Rightarrow> u8 list list" where
  "hashed prev [] = []"
| "hashed prev (e # es) = preimage prev e # hashed (Some (hash e)) es"

lemma hashed_append: "hashed prev (es @ [e]) = hashed prev es @ [preimage (last_hash prev es) e]"
  by (induction es arbitrary: prev) simp_all

lemma chained_unique:
  assumes "\<forall>x. length (sha256 x) = 32"
  shows "inj_on sha256 (set (hashed None es) \<union> set (hashed None es')) \<Longrightarrow>
    chained sha256 None es \<Longrightarrow> chained sha256 None es' \<Longrightarrow> length es = length es' \<Longrightarrow>
    last_hash None es = last_hash None es' \<Longrightarrow> es = es'"
proof (induction es arbitrary: es' rule: rev_induct)
  case Nil
  then show ?case by simp
next
  case (snoc e es)
  then obtain d ds where es': "es' = ds @ [d]" by (cases es' rule: rev_cases) auto
  have e: "e = Epoch_new sha256 (increments e) (last_hash None es)"
    "d = Epoch_new sha256 (increments d) (last_hash None ds)"
    using snoc.prems(2,3) by (simp_all add: es' chained_append)
  let ?pre = "\<lambda>es. case_option [] id (last_hash None es) :: u8 list"
  have "hash e = hash d" using snoc.prems(5) by (simp add: es' last_hash_def)
  then have "sha256 (preimage (last_hash None es) e) = sha256 (preimage (last_hash None ds) d)"
    using e Epoch_new_simps(2) unfolding preimage_def by metis
  then have bytes: "preimage (last_hash None es) e = preimage (last_hash None ds) d"
    by (rule inj_onD [OF snoc.prems(1)]) (simp_all add: es' hashed_append)
  have "length (?pre es) = length (?pre ds)"
    using snoc.prems(2-4) length_chained [OF _ assms]
    by (auto simp: es' chained_append last_hash_def)
  with bytes have pre: "?pre es = ?pre ds" and incs: "increments e = increments d"
    unfolding preimage_def by (auto dest: bytes_of_intervals_inj)
  then have last: "last_hash None es = last_hash None ds"
    using snoc.prems(4) by (auto simp: es' last_hash_def split: if_splits)
  moreover have "inj_on sha256 (set (hashed None es) \<union> set (hashed None ds))"
    by (rule inj_on_subset [OF snoc.prems(1)]) (auto simp: es' hashed_append)
  ultimately have "es = ds"
    using snoc.IH snoc.prems(2-4) by (simp add: es' chained_append)
  moreover have "e = d" using e incs last by metis
  ultimately show ?case by (simp add: es')
qed

section \<open>Properties\<close>

text \<open>
  C23: the last hash stands for the whole history. Where no two of the byte strings that two
  equally long chains of epochs hash collide, the chains end in the same hash if and only if they
  are the same epochs.
\<close>

theorem last_hash_fixes_history:
  assumes "\<forall>x. length (sha256 x) = 32"
    and "inj_on sha256 (set (hashed None es) \<union> set (hashed None es'))"
    and "chained sha256 None es" and "chained sha256 None es'" and "length es = length es'"
  shows "last_hash None es = last_hash None es' \<longleftrightarrow> es = es'"
  using chained_unique [OF assms] by blast

definition toy_hash :: "u8 list \<Rightarrow> u8 list" where
  "toy_hash x = take 32 (x @ replicate 32 0)"

definition toy_chain :: "u64 \<Rightarrow> Epoch list" where
  "toy_chain n = [Epoch_new toy_hash [ClosedInterval 0 n] None]"

theorem last_hash_fixes_history_witness:
  "last_hash None (toy_chain 1) \<noteq> last_hash None (toy_chain 2)"
proof -
  have "\<forall>x. length (toy_hash x) = 32" by (simp add: toy_hash_def min_def)
  moreover have "inj_on toy_hash (set (hashed None (toy_chain 1)) \<union> set (hashed None (toy_chain 2)))"
    unfolding inj_on_def toy_chain_def by code_simp
  moreover have "chained toy_hash None (toy_chain 1)" "chained toy_hash None (toy_chain 2)"
    by (simp_all add: toy_chain_def Epoch_new_def)
  moreover have "length (toy_chain 1) = length (toy_chain 2)" by (simp add: toy_chain_def)
  moreover have "toy_chain 1 \<noteq> toy_chain 2" by (simp add: toy_chain_def Epoch_new_def)
  ultimately show ?thesis using last_hash_fixes_history by blast
qed

text \<open>
  What an epoch hashes tells the list of its increments, their order included: with one
  previous hash, two epochs hash the same bytes if and only if their increments are the same list.
  So two nodes that commit the same ids in another order get other hashes.
\<close>

lemma preimage_fixes_increments:
  "preimage prev (Epoch_new sha256 is prev) = preimage prev (Epoch_new sha256 js prev) \<longleftrightarrow> is = js"
  by (auto simp: preimage_def dest: bytes_of_intervals_inj)

end
