(* ===== verification/Linearizers.thy ===== *)
theory Linearizers
  imports Epochs "HOL-Library.Multiset"
begin

text \<open>
  \<open>maroon/src/linearizer.rs\<close>: the trait \<open>Linearizer\<close>, to which a node hands every epoch, and its
  implementation \<open>LogLineriazer\<close>, which appends the ids of the epoch, interval by interval in the
  order of the sorted intervals, to one sequence. The reservation of memory is not modelled.
\<close>

record LogLineriazer =
  sequence :: "UniqueU64BlobId list"

definition LogLineriazer_new :: LogLineriazer where
  "LogLineriazer_new = \<lparr>sequence = []\<rparr>"

text \<open>\<open>iter().map(|i| i.ids_count()).sum()\<close>: a fold of the checked addition.\<close>

fun sum_ids_count :: "u64 \<Rightarrow> U64BlobIdClosedInterval list \<Rightarrow> panic + u64" where
  "sum_ids_count acc [] = Inr acc"
| "sum_ids_count acc (i # is) =
     rbind (ids_count i) (\<lambda>count. rbind (u64_add acc count) (\<lambda>acc'. sum_ids_count acc' is))"

fun push_intervals ::
    "UniqueU64BlobId list \<Rightarrow> U64BlobIdClosedInterval list \<Rightarrow> panic + UniqueU64BlobId list" where
  "push_intervals s [] = Inr s"
| "push_intervals s (interval # is) =
     rbind (interval_iter interval) (\<lambda>ids. push_intervals (s @ ids) is)"

definition LogLineriazer_new_epoch :: "LogLineriazer \<Rightarrow> Epoch \<Rightarrow> panic + LogLineriazer" where
  "LogLineriazer_new_epoch self epoch =
     (let sorted_increments = sort (increments epoch) in
      rbind (sum_ids_count 0 sorted_increments) (\<lambda>new_elements_count.
      rbind (push_intervals (sequence self) sorted_increments) (\<lambda>s.
        Inr (self\<lparr>sequence := s\<rparr>))))"

section \<open>Functional behaviour\<close>

definition ids_of :: "U64BlobIdClosedInterval list \<Rightarrow> UniqueU64BlobId list" where
  "ids_of is = concat (map interval_ids is)"

lemma ids_of_simps [simp]:
  "ids_of [] = []"
  "ids_of (i # is) = interval_ids i @ ids_of is"
  "ids_of (is @ js) = ids_of is @ ids_of js"
  by (simp_all add: ids_of_def)

lemma set_ids_of: "set (ids_of is) = (\<Union>i \<in> set is. {left i..right i})"
  by (simp add: ids_of_def set_interval_ids)

lemma mset_ids_of: "mset is = mset js \<Longrightarrow> mset (ids_of is) = mset (ids_of js)"
  by (simp add: ids_of_def mset_concat) (metis mset_map sum_mset_sum_list)

lemma push_intervals_eq:
  "push_intervals s is = Inr s' \<Longrightarrow> s' = s @ ids_of is"
  by (induction s "is" rule: push_intervals.induct) (auto simp: res_simps)

text \<open>
  Intervals a node can commit: not inverted, of valid ids, and no id twice. On these the
  linearizer returns; in particular the count of ids does not overflow.
\<close>

definition committable :: "U64BlobIdClosedInterval list \<Rightarrow> bool" where
  "committable is \<longleftrightarrow>
     (\<forall>i \<in> set is. left i \<le> right i \<and> valid_id (right i)) \<and> distinct (ids_of is)"

lemma committable_mset: "mset is = mset js \<Longrightarrow> committable is = committable js"
  by (metis committable_def mset_ids_of mset_eq_imp_distinct_iff set_mset_mset)

lemma length_interval_ids: "length (interval_ids i) = Suc (unat (right i)) - unat (left i)"
  by (simp add: interval_ids_def length_ids_between)

lemma committable_few_ids:
  assumes "committable is"
  shows "length (ids_of is) \<le> 18446744072635809793"
proof -
  have "set (ids_of is) \<subseteq> {k. valid_id k}"
    using assms by (fastforce simp: committable_def set_ids_of valid_id_def unat_simps)
  moreover have "{k. valid_id k} \<subseteq> u64 ` {..18446744072635809792}"
    by (auto simp: valid_id_def image_iff) (metis atMost_iff u64_unat)
  ultimately have "card (set (ids_of is)) \<le> card {..18446744072635809792 :: nat}"
    by (meson card_image_le card_mono finite_atMost finite_imageI order_trans subset_trans)
  with assms show ?thesis by (simp add: committable_def distinct_card)
qed

lemma sum_ids_count_returns:
  assumes "\<forall>i \<in> set is. left i \<le> right i"
    and "unat acc + length (ids_of is) < 18446744073709551616"
  shows "\<exists>n. sum_ids_count acc is = Inr n \<and> unat n = unat acc + length (ids_of is)"
  using assms
proof (induction acc "is" rule: sum_ids_count.induct)
  case (1 acc)
  then show ?case by simp
next
  case (2 acc i "is")
  have le: "left i \<le> right i" using "2.prems"(1) by simp
  have few: "unat acc + length (interval_ids i) + length (ids_of is) < 18446744073709551616"
    using "2.prems"(2) by (simp add: ac_simps)
  then have count: "ids_count i = Inr (u64 (length (interval_ids i)))"
    using le by (simp add: res_simps length_interval_ids unat_simps)
  have add: "u64_add acc (u64 (length (interval_ids i))) =
      Inr (u64 (unat acc + length (interval_ids i)))"
    using few by (simp add: res_simps)
  show ?case
    using "2.IH" [OF count add] "2.prems"(1) few by (simp add: count add ac_simps)
qed

lemma push_intervals_returns:
  "\<forall>i \<in> set is. valid_id (right i) \<Longrightarrow> push_intervals s is = Inr (s @ ids_of is)"
  by (induction s "is" rule: push_intervals.induct) (simp_all add: interval_iter_eq valid_id_def)

lemma LogLineriazer_new_epoch_eq:
  "LogLineriazer_new_epoch self e = Inr self' \<Longrightarrow>
     sequence self' = sequence self @ ids_of (sort (increments e))"
  by (auto simp: LogLineriazer_new_epoch_def Let_def res_simps dest: push_intervals_eq)

lemma LogLineriazer_new_epoch_returns:
  assumes "committable (increments e)"
  shows "\<exists>self'. LogLineriazer_new_epoch self e = Inr self'"
proof -
  let ?is = "sort (increments e)"
  have c: "committable ?is" using assms by (simp add: committable_mset [of ?is "increments e"])
  then obtain n where "sum_ids_count 0 ?is = Inr n"
    using sum_ids_count_returns [of ?is 0] committable_few_ids [OF c]
    by (auto simp: committable_def)
  moreover have "push_intervals (sequence self) ?is = Inr (sequence self @ ids_of ?is)"
    using c by (intro push_intervals_returns) (simp add: committable_def)
  ultimately show ?thesis by (simp add: LogLineriazer_new_epoch_def Let_def)
qed

section \<open>The trait as an interface\<close>

text \<open>
  What a node relies on, whichever linearizer it runs with: on committable increments
  \<open>new_epoch\<close> returns, and when it returns it has appended the ids of the epoch's intervals,
  each interval in ascending order and the intervals in some order.
\<close>

locale linearizer_trait =
  fixes new_epoch :: "'l \<Rightarrow> Epoch \<Rightarrow> panic + 'l"
    and log_of :: "'l \<Rightarrow> UniqueU64BlobId list"
  assumes new_epoch_returns:
      "committable (increments e) \<Longrightarrow> \<exists>l'. new_epoch l e = Inr l'"
    and new_epoch_appends:
      "new_epoch l e = Inr l' \<Longrightarrow>
        \<exists>is. mset is = mset (increments e) \<and> log_of l' = log_of l @ ids_of is"

interpretation log_lin: linearizer_trait LogLineriazer_new_epoch sequence
  by unfold_locales
    (auto intro: LogLineriazer_new_epoch_returns dest!: LogLineriazer_new_epoch_eq
      intro!: exI [of _ "sort (increments _)"])

section \<open>Properties\<close>

lemma sorted_ids_of:
  assumes "sorted is" and "distinct (ids_of is)" and "\<forall>i \<in> set is. left i \<le> right i"
  shows "sorted_wrt (<) (ids_of is)"
  using assms
proof (induction "is")
  case (Cons i "is")
  have "x < y" if x: "x \<in> set (interval_ids i)" and y: "y \<in> set (ids_of is)" for x y
  proof -
    obtain j where j: "j \<in> set is" "left j \<le> y" using y by (auto simp: set_ids_of)
    then have "left j \<in> set (ids_of is)" using Cons.prems(3) by (auto simp: set_ids_of)
    then have "left j \<notin> {left i..right i}" using Cons.prems(2) by (auto simp: set_interval_ids)
    moreover have "left i \<le> left j"
      using Cons.prems(1) j(1) by (auto simp: interval_order)
    ultimately have "right i < left j" by (simp add: not_le)
    then show ?thesis using x j(2) by (auto simp: set_interval_ids)
  qed
  then show ?case
    using Cons by (simp add: sorted_wrt_append interval_ids_def sorted_ids_between)
qed simp

text \<open>
  C20: on increments that are not inverted, have ids a node accepts and share no id,
  \<open>new_epoch\<close> returns, and it appends exactly the ids of the increments, each once, in ascending
  order, whatever the order of the increments in the epoch.
\<close>

theorem new_epoch_appends_sorted:
  assumes "committable (increments e)"
  shows "\<exists>self' new. LogLineriazer_new_epoch self e = Inr self' \<and> sequence self' = sequence self @ new \<and>
    sorted_wrt (<) new \<and> set new = (\<Union>i \<in> set (increments e). {left i..right i})"
proof -
  obtain self' where self': "LogLineriazer_new_epoch self e = Inr self'"
    using LogLineriazer_new_epoch_returns [OF assms] by blast
  have "committable (sort (increments e))"
    using assms by (simp add: committable_mset [of "sort (increments e)" "increments e"])
  then have "sorted_wrt (<) (ids_of (sort (increments e)))"
    by (intro sorted_ids_of) (simp_all add: committable_def)
  then show ?thesis
    using self' LogLineriazer_new_epoch_eq [OF self'] by (auto simp: set_ids_of)
qed

theorem new_epoch_appends_sorted_witness:
  "\<exists>self' new. LogLineriazer_new_epoch LogLineriazer_new
       \<lparr>increments = [ClosedInterval 5 6, ClosedInterval 0 2], hash = []\<rparr> = Inr self' \<and>
     sequence self' = sequence LogLineriazer_new @ new \<and> sorted_wrt (<) new \<and>
     set new = (\<Union>i \<in> {ClosedInterval 5 6, ClosedInterval 0 2}. {left i..right i})"
proof -
  have "committable (increments \<lparr>increments = [ClosedInterval 5 6, ClosedInterval 0 2], hash = []\<rparr>)"
    by (simp add: committable_def valid_id_def interval_ids_def ids_between_def upt_rec u64_def)
  from new_epoch_appends_sorted [OF this, of LogLineriazer_new] show ?thesis by simp
qed

end
