(* ===== verification/Consensus.thy ===== *)
theory Consensus
  imports Transactions Linearizers
begin

text \<open>
  The pure functions of \<open>maroon/src/app/app.rs\<close> from offsets to epochs: \<open>consensus_maximum\<close>
  (the offset that enough nodes have reached), \<open>calculate_epoch_increments\<close> (what the next
  epoch commits) and \<open>move_offset_pointer\<close>. A function that only iterates a map takes the sequence
  of entries the iterator yields; \<open>n_consensus\<close>, a \<open>NonZeroUsize\<close>, is a natural number,
  and the facts about it assume that it is positive.
\<close>

section \<open>The functions\<close>

definition consensus_maximum :: "('p \<times> KeyOffset) list \<Rightarrow> nat \<Rightarrow> KeyOffset option" where
  "consensus_maximum kvs n_consensus =
     (if length kvs < n_consensus then None
      else (let refs = rev (sort (map snd kvs)) in Some (refs ! (n_consensus - 1))))"

fun calculate_epoch_increments ::
    "(KeyRange \<times> KeyOffset) list \<Rightarrow> (KeyRange \<rightharpoonup> KeyOffset) \<Rightarrow> panic + U64BlobIdClosedInterval list"
where
  "calculate_epoch_increments [] commited_offsets = Inr []"
| "calculate_epoch_increments ((key_range, offset) # consensus_offset) commited_offsets =
     rbind (case commited_offsets key_range of Some prev \<Rightarrow> u64_add prev 1 | None \<Rightarrow> Inr 0) (\<lambda>start.
       if offset \<le> start then calculate_epoch_increments consensus_offset commited_offsets
       else
         rbind (new_from_range_and_offsets key_range start offset) (\<lambda>interval.
         rbind (calculate_epoch_increments consensus_offset commited_offsets) (\<lambda>increments.
           Inr (interval # increments))))"

text \<open>The loop at the end of \<open>commit_epoch_if_needed\<close> that records the committed offsets.\<close>

fun record_commits ::
    "(KeyRange \<rightharpoonup> KeyOffset) \<Rightarrow> U64BlobIdClosedInterval list \<Rightarrow> panic + (KeyRange \<rightharpoonup> KeyOffset)"
where
  "record_commits commited_offsets [] = Inr commited_offsets"
| "record_commits commited_offsets (interval # incs) =
     rbind (range_offset_from_unique_blob_id (interval_end interval)) (\<lambda>(key_range, new_offset).
       record_commits (commited_offsets(key_range \<mapsto> new_offset)) incs)"

text \<open>\<open>offsets\<close>: for every range, what is known of the offset of every node.\<close>

type_synonym 'p offset_table = "KeyRange \<rightharpoonup> ('p \<rightharpoonup> KeyOffset)"

definition move_offset_pointer ::
    "'p offset_table \<Rightarrow> 'p \<Rightarrow> KeyRange \<Rightarrow> KeyOffset \<Rightarrow> 'p offset_table" where
  "move_offset_pointer offsets peer_id new_range new_offset =
     (case offsets new_range of
        None \<Rightarrow> offsets(new_range \<mapsto> [peer_id \<mapsto> new_offset])
      | Some mut_range \<Rightarrow> offsets(new_range \<mapsto> mut_range(peer_id \<mapsto> new_offset)))"

text \<open>The offset of a node for a range, as the table knows it.\<close>

definition offset_of :: "'p offset_table \<Rightarrow> KeyRange \<Rightarrow> 'p \<Rightarrow> KeyOffset option" where
  "offset_of offsets r p = Option.bind (offsets r) (\<lambda>nodes. nodes p)"

lemma offset_of_move [simp]:
  "offset_of (move_offset_pointer offsets q r' v) r p =
     (if r = r' \<and> p = q then Some v else offset_of offsets r p)"
  by (auto simp: offset_of_def move_offset_pointer_def split: option.splits)

section \<open>The consensus maximum\<close>

lemma nth_le_iff_count:
  fixes ys :: "'a :: linorder list"
  assumes "sorted (rev ys)" and "0 < n" and "n \<le> length ys"
  shows "w \<le> ys ! (n - 1) \<longleftrightarrow> n \<le> length (filter (\<lambda>x. w \<le> x) ys)"
proof -
  let ?S = "{i. i < length ys \<and> w \<le> ys ! i}"
  have count: "length (filter (\<lambda>x. w \<le> x) ys) = card ?S"
    by (simp add: length_filter_conv_card)
  have desc: "ys ! j \<le> ys ! i" if "i \<le> j" "j < length ys" for i j
    using assms(1) that by (rule sorted_rev_nth_mono)
  show ?thesis
  proof
    assume w: "w \<le> ys ! (n - 1)"
    have "w \<le> ys ! i" if "i < n" for i
      using order_trans [OF w desc [of i "n - 1"]] that assms(2,3) by simp
    then have "{..<n} \<subseteq> ?S" using assms(3) by auto
    then have "card {..<n} \<le> card ?S" by (intro card_mono) auto
    then show "n \<le> length (filter (\<lambda>x. w \<le> x) ys)" by (simp add: count)
  next
    assume n: "n \<le> length (filter (\<lambda>x. w \<le> x) ys)"
    show "w \<le> ys ! (n - 1)"
    proof (rule ccontr)
      assume neg: "\<not> w \<le> ys ! (n - 1)"
      have "i < n - 1" if "i < length ys" "w \<le> ys ! i" for i
        using desc [of "n - 1" i] that neg by (meson leI order_trans)
      then have "?S \<subseteq> {..<n - 1}" by auto
      then have "card ?S \<le> card {..<n - 1}" by (intro card_mono) auto
      with n count assms(2) show False by simp
    qed
  qed
qed

lemma length_filter_sort: "length (filter P (rev (sort xs))) = length (filter P xs)"
  by (metis mset_filter mset_rev mset_sort size_mset)

lemma consensus_maximum_eq_None: "consensus_maximum kvs n = None \<longleftrightarrow> length kvs < n"
  by (simp add: consensus_maximum_def)

lemma consensus_maximum_galois:
  assumes "consensus_maximum kvs n = Some v" and "0 < n"
  shows "w \<le> v \<longleftrightarrow> n \<le> length (filter (\<lambda>x. w \<le> x) (map snd kvs))"
proof -
  have "n \<le> length kvs" and v: "v = rev (sort (map snd kvs)) ! (n - 1)"
    using assms(1) by (auto simp: consensus_maximum_def Let_def split: if_splits)
  then show ?thesis
    using nth_le_iff_count [of "rev (sort (map snd kvs))" n w] assms(2)
    by (simp add: length_filter_sort)
qed

text \<open>The nodes whose offset is at least \<open>w\<close>.\<close>

definition supporters :: "('p \<rightharpoonup> KeyOffset) \<Rightarrow> KeyOffset \<Rightarrow> 'p set" where
  "supporters nodes w = {p. \<exists>x. nodes p = Some x \<and> w \<le> x}"

lemma card_supporters:
  assumes "key_order nodes ps"
  shows "card (supporters nodes w) = length (filter (\<lambda>x. w \<le> x) (map snd (entries nodes ps)))"
proof -
  let ?kvs = "filter (\<lambda>kv. w \<le> snd kv) (entries nodes ps)"
  have "distinct (map fst ?kvs)"
    using key_orderD(4) [OF assms] by (simp add: distinct_map_filter)
  then have "card (fst ` set ?kvs) = length ?kvs"
    using distinct_card [of "map fst ?kvs"] by simp
  moreover have "set ?kvs = {(p, x). nodes p = Some x \<and> w \<le> x}"
    using key_orderD(2) [OF assms] by (auto simp: set_entries)
  then have "fst ` set ?kvs = supporters nodes w"
    by (auto simp: supporters_def image_iff)
  ultimately show ?thesis by (simp add: filter_map comp_def)
qed

lemma consensus_maximum_supported:
  assumes "key_order nodes ps" and "0 < n"
    and "consensus_maximum (entries nodes ps) n = Some v"
  shows "w \<le> v \<longleftrightarrow> n \<le> card (supporters nodes w)"
  using consensus_maximum_galois [OF assms(3,2)] card_supporters [OF assms(1)] by simp

lemma consensus_maximum_mem:
  assumes "consensus_maximum kvs n = Some v" and "0 < n"
  shows "v \<in> set (map snd kvs)"
proof -
  have "n - 1 < length (rev (sort (map snd kvs)))" and "v = rev (sort (map snd kvs)) ! (n - 1)"
    using assms by (auto simp: consensus_maximum_def Let_def split: if_splits)
  then show ?thesis by (metis nth_mem set_rev set_sort)
qed

section \<open>The increments of an epoch\<close>

text \<open>
  The increments over the natural numbers: a range whose consensus offset is beyond the next
  uncommitted offset contributes the ids from that one up to the consensus offset.
\<close>

definition next_start :: "(KeyRange \<rightharpoonup> KeyOffset) \<Rightarrow> KeyRange \<Rightarrow> nat" where
  "next_start commited r = (case commited r of None \<Rightarrow> 0 | Some p \<Rightarrow> Suc (unat p))"

definition increment_of :: "(KeyRange \<rightharpoonup> KeyOffset) \<Rightarrow> KeyRange \<times> KeyOffset \<Rightarrow> U64BlobIdClosedInterval" where
  "increment_of commited = (\<lambda>(r, v). ClosedInterval
     (u64 (unat r * 1073741824 + next_start commited r)) (u64 (unat r * 1073741824 + unat v)))"

definition progressed :: "(KeyRange \<rightharpoonup> KeyOffset) \<Rightarrow> KeyRange \<times> KeyOffset \<Rightarrow> bool" where
  "progressed commited = (\<lambda>(r, v). next_start commited r < unat v)"

definition valid_offsets :: "(KeyRange \<rightharpoonup> KeyOffset) \<Rightarrow> bool" where
  "valid_offsets m \<longleftrightarrow> (\<forall>r v. m r = Some v \<longrightarrow> valid_pos r v)"

lemma valid_offsetsD: "valid_offsets m \<Longrightarrow> m r = Some v \<Longrightarrow> valid_pos r v"
  by (simp add: valid_offsets_def)

lemma valid_offsets_upd: "valid_offsets m \<Longrightarrow> valid_pos r v \<Longrightarrow> valid_offsets (m(r \<mapsto> v))"
  by (simp add: valid_offsets_def)

lemma next_start_checked:
  assumes "valid_offsets commited"
  shows "(case commited r of Some prev \<Rightarrow> u64_add prev 1 | None \<Rightarrow> Inr 0) =
    Inr (u64 (next_start commited r))"
proof (cases "commited r")
  case (Some p)
  then have "unat p < 1073741824" using assms by (auto simp: valid_offsets_def valid_pos_def)
  then show ?thesis by (simp add: Some next_start_def res_simps)
next
  case None
  then show ?thesis by (simp add: next_start_def u64_def)
qed

lemma next_start_bound: "valid_offsets commited \<Longrightarrow> next_start commited r \<le> 1073741824"
  by (auto simp: next_start_def valid_offsets_def valid_pos_def Suc_le_eq split: option.split)

lemma unat_next_start: "valid_offsets commited \<Longrightarrow> unat (u64 (next_start commited r)) = next_start commited r"
  using next_start_bound [of commited r] by simp

lemma increment_of_sel:
  assumes "valid_pos r v" and "progressed commited (r, v)"
  shows "unat (left (increment_of commited (r, v))) = unat r * 1073741824 + next_start commited r"
    and "unat (right (increment_of commited (r, v))) = unat r * 1073741824 + unat v"
  using assms by (simp_all add: increment_of_def progressed_def valid_pos_def)

lemma calculate_epoch_increments_eq:
  assumes "valid_offsets commited" and "\<forall>(r, v) \<in> set kvs. valid_pos r v"
  shows "calculate_epoch_increments kvs commited =
    Inr (map (increment_of commited) (filter (progressed commited) kvs))"
  using assms(2)
proof (induction kvs)
  case Nil
  then show ?case by simp
next
  case (Cons kv kvs)
  obtain r v where kv: "kv = (r, v)" by (cases kv)
  have valid: "valid_pos r v" using Cons.prems kv by simp
  note start = next_start_checked [OF assms(1), of r] unat_next_start [OF assms(1), of r]
  show ?case
  proof (cases "progressed commited (r, v)")
    case True
    then have "new_from_range_and_offsets r (u64 (next_start commited r)) v =
        Inr (increment_of commited (r, v))"
      using increment_of_sel [OF valid True]
      by (simp add: res_simps start progressed_def)
    moreover have "\<not> v \<le> u64 (next_start commited r)"
      using True by (simp add: start progressed_def unat_simps)
    ultimately show ?thesis using Cons True by (simp add: kv start)
  next
    case False
    then have "v \<le> u64 (next_start commited r)"
      by (simp add: start progressed_def unat_simps)
    with False Cons show ?thesis by (simp add: kv start)
  qed
qed

section \<open>Blocks of a log\<close>

definition in_block :: "KeyRange \<Rightarrow> UniqueU64BlobId \<Rightarrow> bool" where
  "in_block r k \<longleftrightarrow> unat k div 1073741824 = unat r"

definition block_of :: "UniqueU64BlobId \<Rightarrow> KeyRange" where
  "block_of k = u64 (unat k div 1073741824)"

lemma in_block_block_of: "in_block (block_of k) k"
  using unat_less_u64 [of k] by (simp add: in_block_def block_of_def)

lemma in_block_iff: "in_block r k \<longleftrightarrow> r = block_of k"
  using in_block_block_of [of k] by (auto simp: in_block_def intro: u64_eqI)

lemma in_block_range_from: "valid_id k \<Longrightarrow> range_from_unique_blob_id k = Inr r \<longleftrightarrow> in_block r k"
  by (auto simp: res_simps valid_id_def in_block_def)

lemma distinct_by_blocks: "(\<And>r. distinct (filter (in_block r) ks)) \<Longrightarrow> distinct ks"
proof (induction ks)
  case (Cons k ks)
  have "distinct (filter (in_block r) ks)" for r
    using Cons.prems [of r] by (simp split: if_splits)
  moreover have "k \<notin> set ks"
    using Cons.prems [of "block_of k"] in_block_block_of [of k] by simp
  ultimately show ?case using Cons.IH by simp
qed simp

text \<open>A permutation of lists of which at most one is not empty has the same concatenation.\<close>

lemma concat_at_most_one:
  assumes "mset ls = mset ls'" and "length (filter (\<lambda>l. l \<noteq> []) ls) \<le> 1"
  shows "concat ls = concat ls'"
proof -
  let ?f = "filter (\<lambda>l. l \<noteq> [])"
  have "mset (?f ls) = mset (?f ls')" using assms(1) by (simp add: mset_filter)
  then have "?f ls = ?f ls'"
    using assms(2) mset_eq_length [of "?f ls" "?f ls'"]
    by (cases "?f ls"; cases "?f ls'") (auto simp: Suc_le_eq)
  moreover have "concat l = concat (?f l)" for l :: "'a list list"
    by (induction l) auto
  ultimately show ?thesis by metis
qed

lemma filter_block_interval:
  assumes "unat (left i) div 1073741824 = unat g" and "unat (right i) div 1073741824 = unat g"
  shows "filter (in_block r) (interval_ids i) = (if r = g then interval_ids i else [])"
proof -
  have "in_block g k" if "k \<in> set (interval_ids i)" for k
  proof -
    have "unat (left i) \<le> unat k" "unat k \<le> unat (right i)"
      using that by (auto simp: set_interval_ids unat_simps)
    then have "unat g \<le> unat k div 1073741824" "unat k div 1073741824 \<le> unat g"
      using assms div_le_mono by metis+
    then show ?thesis by (simp add: in_block_def)
  qed
  then have all: "\<forall>k \<in> set (interval_ids i). in_block g k" by blast
  show ?thesis
  proof (cases "r = g")
    case True
    with all show ?thesis by (simp add: filter_id_conv)
  next
    case False
    with all have "\<forall>k \<in> set (interval_ids i). \<not> in_block r k" by (auto simp: in_block_iff)
    with False show ?thesis by (simp add: filter_empty_conv)
  qed
qed

lemma filter_ids_of: "filter P (ids_of is) = concat (map (\<lambda>i. filter P (interval_ids i)) is)"
  by (simp add: ids_of_def filter_concat comp_def)

section \<open>A log that matches the committed offsets\<close>

text \<open>
  The contract between the committed offsets and the log: restricted to any range, the log is
  exactly the ids of the range from offset 0 to the committed offset, in ascending order.
\<close>

definition log_matches :: "(KeyRange \<rightharpoonup> KeyOffset) \<Rightarrow> UniqueU64BlobId list \<Rightarrow> bool" where
  "log_matches commited log \<longleftrightarrow> (\<forall>r. filter (in_block r) log =
     (case commited r of None \<Rightarrow> []
      | Some v \<Rightarrow> ids_between (u64 (unat r * 1073741824)) (u64 (unat r * 1073741824 + unat v))))"

lemma log_matches_distinct: "log_matches commited log \<Longrightarrow> distinct log"
  by (rule distinct_by_blocks) (auto simp: log_matches_def distinct_ids_between split: option.split)

lemma log_matches_mem:
  assumes "log_matches commited log" and "valid_offsets commited"
  shows "k \<in> set log \<longleftrightarrow>
    (\<exists>r v. commited r = Some v \<and> in_block r k \<and> unat k mod 1073741824 \<le> unat v)"
proof -
  let ?r = "block_of k"
  have "k \<in> set log \<longleftrightarrow> k \<in> set (filter (in_block ?r) log)"
    by (simp add: in_block_block_of)
  also have "\<dots> \<longleftrightarrow> (\<exists>v. commited ?r = Some v \<and>
      k \<in> {u64 (unat ?r * 1073741824) .. u64 (unat ?r * 1073741824 + unat v)})"
    using assms(1) [unfolded log_matches_def, rule_format, of ?r]
    by (cases "commited ?r") (simp_all add: set_ids_between)
  also have "\<dots> \<longleftrightarrow> (\<exists>v. commited ?r = Some v \<and> unat k mod 1073741824 \<le> unat v)"
  proof -
    let ?b = "unat ?r * 1073741824"
    have "unat ?r = unat k div 1073741824"
      using in_block_block_of [of k] by (simp only: in_block_def)
    then have dec: "unat k = ?b + unat k mod 1073741824"
      by (simp only: div_mult_mod_eq)
    have "k \<in> {u64 ?b .. u64 (?b + unat v)} \<longleftrightarrow> unat k mod 1073741824 \<le> unat v"
      if "commited ?r = Some v" for v
    proof -
      have "?b + unat v < 18446744073709551616"
        using valid_offsetsD [OF assms(2) that] by (simp add: valid_pos_def)
      then have "unat (u64 ?b) = ?b" "unat (u64 (?b + unat v)) = ?b + unat v" by simp_all
      with dec show ?thesis unfolding atLeastAtMost_iff word_le_nat_alt by linarith
    qed
    then show ?thesis by blast
  qed
  finally show ?thesis by (auto simp: in_block_iff)
qed

definition commit_result ::
    "(KeyRange \<rightharpoonup> KeyOffset) \<Rightarrow> (KeyRange \<times> KeyOffset) list \<Rightarrow> (KeyRange \<rightharpoonup> KeyOffset)" where
  "commit_result commited kvs = commited ++ map_of (filter (progressed commited) kvs)"

lemma map_of_filter_distinct:
  "distinct (map fst kvs) \<Longrightarrow> map_of (filter P kvs) r =
     (case map_of kvs r of Some v \<Rightarrow> if P (r, v) then Some v else None | None \<Rightarrow> None)"
  by (induction kvs) (auto simp: map_of_eq_None_iff split: option.split)

lemma increment_of_blocks:
  assumes "valid_offsets commited" and "valid_pos r v" and "progressed commited (r, v)"
  shows "unat (left (increment_of commited (r, v))) div 1073741824 = unat r"
    and "unat (right (increment_of commited (r, v))) div 1073741824 = unat r"
    and "valid_id (right (increment_of commited (r, v)))"
    and "left (increment_of commited (r, v)) \<le> right (increment_of commited (r, v))"
  using assms(2,3)
  by (simp_all add: increment_of_sel [OF assms(2,3)] progressed_def valid_pos_def valid_id_def
      unat_simps)

lemma filter_block_increment:
  assumes "valid_offsets commited" and "valid_pos g v" and "progressed commited (g, v)"
  shows "filter (in_block r) (interval_ids (increment_of commited (g, v))) =
    (if r = g then interval_ids (increment_of commited (g, v)) else [])"
  using filter_block_interval increment_of_blocks [OF assms] by blast

text \<open>The ids of one range among the increments, whatever the order of the increments.\<close>

lemma filter_block_increments:
  assumes "valid_offsets commited" and "distinct (map fst kvs)"
    and "\<forall>(r, v) \<in> set kvs. valid_pos r v \<and> progressed commited (r, v)"
    and perm: "mset is = mset (map (increment_of commited) kvs)"
  shows "filter (in_block r) (ids_of is) =
    (case map_of kvs r of None \<Rightarrow> [] | Some v \<Rightarrow> interval_ids (increment_of commited (r, v)))"
proof -
  let ?f = "\<lambda>i. filter (in_block r) (interval_ids i)"
  let ?ls = "map ?f (map (increment_of commited) kvs)"
  have "length (filter (\<lambda>l. l \<noteq> []) ?ls) \<le> 1 \<and> concat ?ls =
      (case map_of kvs r of None \<Rightarrow> [] | Some v \<Rightarrow> interval_ids (increment_of commited (r, v)))"
    using assms(2,3)
  proof (induction kvs)
    case (Cons kv kvs)
    obtain g v where kv: "kv = (g, v)" by (cases kv)
    have head: "?f (increment_of commited (g, v)) =
        (if r = g then interval_ids (increment_of commited (g, v)) else [])"
      using Cons.prems(2) kv by (intro filter_block_increment assms(1)) auto
    show ?case
    proof (cases "r = g")
      case True
      then have "r \<notin> fst ` set kvs" using Cons.prems(1) kv by simp
      then have none: "map_of kvs r = None" by (simp add: map_of_eq_None_iff)
      have "filter (\<lambda>l. l \<noteq> []) (map ?f (map (increment_of commited) kvs)) = []"
        using Cons.IH Cons.prems none by (auto simp: filter_empty_conv)
      with Cons.IH Cons.prems none head True show ?thesis by (simp add: kv)
    next
      case False
      with Cons.IH Cons.prems head show ?thesis by (simp add: kv)
    qed
  qed simp
  moreover have "mset ?ls = mset (map ?f is)" using perm by (simp only: mset_map)
  ultimately show ?thesis
    using concat_at_most_one [of ?ls "map ?f is"] by (simp add: filter_ids_of)
qed

lemma committable_increments:
  assumes "valid_offsets commited" and "distinct (map fst kvs)"
    and "\<forall>(r, v) \<in> set kvs. valid_pos r v \<and> progressed commited (r, v)"
  shows "committable (map (increment_of commited) kvs)"
proof -
  let ?is = "map (increment_of commited) kvs"
  have "distinct (filter (in_block r) (ids_of ?is))" for r
    unfolding filter_block_increments [OF assms refl, of r]
    by (simp add: interval_ids_def distinct_ids_between split: option.split)
  then have "distinct (ids_of ?is)" by (rule distinct_by_blocks)
  moreover have "left i \<le> right i \<and> valid_id (right i)" if "i \<in> set ?is" for i
    using that assms(3) increment_of_blocks(3,4) [OF assms(1)] by fastforce
  ultimately show ?thesis by (simp add: committable_def)
qed

lemma record_commits_eq:
  assumes "valid_offsets commited" and "distinct (map fst kvs)"
    and "\<forall>(r, v) \<in> set kvs. valid_pos r v \<and> progressed commited (r, v)"
  shows "record_commits m (map (increment_of commited) kvs) = Inr (m ++ map_of kvs)"
  using assms(2,3)
proof (induction kvs arbitrary: m)
  case (Cons kv kvs)
  obtain r v where kv: "kv = (r, v)" by (cases kv)
  have pos: "valid_pos r v" "progressed commited (r, v)" using Cons.prems kv by auto
  have "range_offset_from_unique_blob_id (right (increment_of commited (r, v))) = Inr (r, v)"
    using pos(1) by (simp add: res_simps increment_of_sel [OF pos] valid_pos_def div_mod_blob)
  then have "record_commits m (map (increment_of commited) (kv # kvs)) =
      record_commits (m(r \<mapsto> v)) (map (increment_of commited) kvs)"
    by (simp add: kv)
  also have "\<dots> = Inr (m(r \<mapsto> v) ++ map_of kvs)"
    using Cons by simp
  also have "m(r \<mapsto> v) ++ map_of kvs = m ++ map_of (kv # kvs)"
    using Cons.prems(1) by (simp add: kv map_add_upd_left dom_map_of_conv_image_fst)
  finally show ?case .
qed simp

text \<open>Committing the increments, in any order, keeps the contract.\<close>

lemma log_matches_commit:
  assumes "valid_offsets commited" and "distinct (map fst kvs)"
    and "\<forall>(r, v) \<in> set kvs. valid_pos r v \<and> progressed commited (r, v)"
    and perm: "mset is = mset (map (increment_of commited) kvs)"
    and log: "log_matches commited log"
  shows "log_matches (commited ++ map_of kvs) (log @ ids_of is)"
  unfolding log_matches_def
proof
  fix r :: KeyRange
  let ?base = "unat r * 1073741824"
  have old: "filter (in_block r) log = (case commited r of None \<Rightarrow> []
      | Some v \<Rightarrow> ids_between (u64 ?base) (u64 (?base + unat v)))"
    using log by (simp add: log_matches_def)
  note new = filter_block_increments [OF assms(1-4), of r]
  show "filter (in_block r) (log @ ids_of is) = (case (commited ++ map_of kvs) r of None \<Rightarrow> []
      | Some v \<Rightarrow> ids_between (u64 ?base) (u64 (?base + unat v)))"
  proof (cases "map_of kvs r")
    case None
    with old new show ?thesis by (simp add: map_add_def)
  next
    case (Some v)
    then have "(r, v) \<in> set kvs" by (rule map_of_SomeD)
    then have pos: "valid_pos r v" "progressed commited (r, v)" using assms(3) by auto
    have bound: "?base + unat v < 18446744073709551616" using pos(1) by (simp add: valid_pos_def)
    have ids: "interval_ids (increment_of commited (r, v)) =
        ids_between (u64 (?base + next_start commited r)) (u64 (?base + unat v))"
      by (simp add: interval_ids_def increment_of_def)
    show ?thesis
    proof (cases "commited r")
      case None
      with Some old new ids show ?thesis by (simp add: next_start_def)
    next
      case (Some p)
      then have "next_start commited r = Suc (unat p)" by (simp add: next_start_def)
      moreover from this pos(2) have "Suc (unat p) < unat v" by (simp add: progressed_def)
      ultimately have "ids_between (u64 ?base) (u64 (?base + unat p)) @
          ids_between (u64 (?base + next_start commited r)) (u64 (?base + unat v)) =
          ids_between (u64 ?base) (u64 (?base + unat v))"
        using bound by (intro ids_between_append) simp_all
      with Some \<open>map_of kvs r = Some v\<close> old new ids show ?thesis by simp
    qed
  qed
qed

section \<open>Properties\<close>

text \<open>
  C17: \<open>consensus_maximum\<close> of what the nodes have is the largest offset that at least \<open>n\<close> nodes
  have reached, whatever the order in which the map of the nodes is iterated; where no offset is
  reached by \<open>n\<close> nodes it is \<open>None\<close>.
\<close>

theorem consensus_maximum_largest_supported:
  assumes "key_order nodes ps" and "0 < n"
  shows "consensus_maximum (entries nodes ps) n = Some v \<longleftrightarrow>
    n \<le> card (supporters nodes v) \<and> (\<forall>w. n \<le> card (supporters nodes w) \<longrightarrow> w \<le> v)"
proof
  assume "consensus_maximum (entries nodes ps) n = Some v"
  from consensus_maximum_supported [OF assms this]
  show "n \<le> card (supporters nodes v) \<and> (\<forall>w. n \<le> card (supporters nodes w) \<longrightarrow> w \<le> v)" by blast
next
  assume v: "n \<le> card (supporters nodes v) \<and> (\<forall>w. n \<le> card (supporters nodes w) \<longrightarrow> w \<le> v)"
  then have "n \<le> length (entries nodes ps)"
    by (metis card_supporters [OF assms(1)] length_filter_le length_map order.trans)
  then obtain v' where v': "consensus_maximum (entries nodes ps) n = Some v'"
    using consensus_maximum_eq_None [of "entries nodes ps" n] by fastforce
  from consensus_maximum_supported [OF assms v'] v have "v = v'" by (meson order.antisym order.refl)
  with v' show "consensus_maximum (entries nodes ps) n = Some v" by simp
qed

theorem consensus_maximum_largest_supported_witness:
  "2 \<le> card (supporters [0 :: nat \<mapsto> 7, 1 \<mapsto> 3, 2 \<mapsto> 5] 5) \<and>
   card (supporters [0 :: nat \<mapsto> 7, 1 \<mapsto> 3, 2 \<mapsto> 5] 6) < 2"
proof -
  let ?nodes = "[0 :: nat \<mapsto> 7, 1 \<mapsto> 3, 2 \<mapsto> 5] :: nat \<rightharpoonup> KeyOffset"
  have "key_order ?nodes [2, 0, 1]" by (auto simp: key_order_def)
  moreover have "consensus_maximum (entries ?nodes [2, 0, 1]) 2 = Some 5" by code_simp
  ultimately have max: "2 \<le> card (supporters ?nodes 5)" "\<And>w. 2 \<le> card (supporters ?nodes w) \<Longrightarrow> w \<le> 5"
    using consensus_maximum_largest_supported [of ?nodes "[2, 0, 1]" 2 5] by simp_all
  have "\<not> (6 :: u64) \<le> 5" by simp
  with max show ?thesis by (meson not_le)
qed

text \<open>
  C19: where the offsets are positions of accepted ids, \<open>calculate_epoch_increments\<close>
  returns increments a linearizer takes, and their ids are exactly those after the committed offset
  and up to the consensus offset, in the ranges where at least two ids are new.
\<close>

theorem increments_are_the_new_ids:
  assumes "valid_offsets commited" and "distinct (map fst kvs)" and "valid_offsets (map_of kvs)"
  shows "\<exists>is. calculate_epoch_increments kvs commited = Inr is \<and> committable is \<and>
    (\<forall>k. k \<in> set (ids_of is) \<longleftrightarrow>
       (\<exists>v. map_of kvs (block_of k) = Some v \<and> next_start commited (block_of k) < unat v \<and>
          next_start commited (block_of k) \<le> unat k mod 1073741824 \<and> unat k mod 1073741824 \<le> unat v))"
proof -
  let ?new = "filter (progressed commited) kvs"
  let ?is = "map (increment_of commited) ?new"
  have pos: "\<forall>(r, v) \<in> set kvs. valid_pos r v"
    using assms(2,3) by (auto simp: valid_offsets_def)
  have new: "\<forall>(r, v) \<in> set ?new. valid_pos r v \<and> progressed commited (r, v)" using pos by auto
  have dist: "distinct (map fst ?new)" using assms(2) by (rule distinct_map_filter)
  have "k \<in> set (ids_of ?is) \<longleftrightarrow>
       (\<exists>v. map_of kvs (block_of k) = Some v \<and> next_start commited (block_of k) < unat v \<and>
          next_start commited (block_of k) \<le> unat k mod 1073741824 \<and> unat k mod 1073741824 \<le> unat v)" for k
  proof -
    let ?r = "block_of k"
    have k: "unat k = unat ?r * 1073741824 + unat k mod 1073741824"
      using in_block_block_of [of k, unfolded in_block_def] div_mult_mod_eq [of "unat k" 1073741824]
      by linarith
    have "k \<in> set (ids_of ?is) \<longleftrightarrow> k \<in> set (filter (in_block ?r) (ids_of ?is))"
      by (simp add: in_block_block_of)
    also have "\<dots> \<longleftrightarrow> (\<exists>v. map_of ?new ?r = Some v \<and> k \<in> set (interval_ids (increment_of commited (?r, v))))"
      unfolding filter_block_increments [OF assms(1) dist new refl]
      by (cases "map_of ?new ?r") simp_all
    also have "\<dots> \<longleftrightarrow> (\<exists>v. map_of kvs ?r = Some v \<and> progressed commited (?r, v) \<and>
        k \<in> set (interval_ids (increment_of commited (?r, v))))"
      using map_of_filter_distinct [OF assms(2)] by (auto split: option.splits if_splits)
    also have "\<dots> \<longleftrightarrow> (\<exists>v. map_of kvs ?r = Some v \<and> progressed commited (?r, v) \<and>
        next_start commited ?r \<le> unat k mod 1073741824 \<and> unat k mod 1073741824 \<le> unat v)"
    proof -
      have "k \<in> set (interval_ids (increment_of commited (?r, v))) \<longleftrightarrow>
          next_start commited ?r \<le> unat k mod 1073741824 \<and> unat k mod 1073741824 \<le> unat v"
        if "map_of kvs ?r = Some v" "progressed commited (?r, v)" for v
      proof -
        have "valid_pos ?r v" using that(1) assms(3) by (simp add: valid_offsets_def)
        then show ?thesis
          using increment_of_sel [OF _ that(2)] k by (auto simp: set_interval_ids word_le_nat_alt)
      qed
      then show ?thesis by blast
    qed
    finally show ?thesis by (simp add: progressed_def)
  qed
  then show ?thesis
    using calculate_epoch_increments_eq [OF assms(1) pos] committable_increments [OF assms(1) dist new]
    by blast
qed

theorem increments_are_the_new_ids_witness:
  "\<exists>is. calculate_epoch_increments [(0, 10), (1, 2), (2, 6)] [0 \<mapsto> 6, 1 \<mapsto> 2, 2 \<mapsto> 8] = Inr is \<and> committable is \<and>
    (\<forall>k. k \<in> set (ids_of is) \<longleftrightarrow>
       (\<exists>v. map_of [(0, 10 :: u64), (1, 2), (2, 6)] (block_of k) = Some v \<and>
          next_start [0 \<mapsto> 6, 1 \<mapsto> 2, 2 \<mapsto> 8] (block_of k) < unat v \<and>
          next_start [0 \<mapsto> 6, 1 \<mapsto> 2, 2 \<mapsto> 8] (block_of k) \<le> unat k mod 1073741824 \<and>
          unat k mod 1073741824 \<le> unat v))"
  by (rule increments_are_the_new_ids) (auto simp: valid_offsets_def valid_pos_def split: if_splits)

text \<open>
  One new id alone is never committed. When the consensus offset is just one past the
  committed one, or is 0 where nothing is committed, the range contributes no increment, because
  the guard compares with \<open>>=\<close> the first uncommitted offset and the last one to commit, which are
  then equal.
\<close>

lemma single_new_id_waits:
  "calculate_epoch_increments [(r, v)]
     (if v = 0 then Map.empty else [r \<mapsto> v - 1]) = Inr []"
proof (cases "v = 0")
  case False
  then have "unat v \<noteq> 0" by (simp add: unat_eq_0)
  then have "unat (v - 1) = unat v - 1" using False by (simp add: unat_sub word_le_nat_alt)
  then have "u64_add (v - 1) 1 = Inr v" using \<open>unat v \<noteq> 0\<close> by (simp add: u64_add_eq_Inr)
  then show ?thesis using False by simp
qed simp

end
