(* ===== verification/Self_Offsets.thy ===== *)
theory Self_Offsets
  imports Consensus
begin

text \<open>
  How a node's own offsets follow the transactions it stores (\<open>maroon/src/app/app.rs\<close>:
  \<open>txs_to_range_tx_map\<close>, \<open>update_self_offsets\<close>, \<open>update_self_offset\<close>). The offset of a range is
  meant to be the end of the contiguous run of stored transactions that starts at offset 0.
\<close>

section \<open>The functions\<close>

fun group_by_range ::
    "(KeyRange \<rightharpoonup> Transaction list) \<Rightarrow> Transaction list \<Rightarrow> panic + (KeyRange \<rightharpoonup> Transaction list)"
where
  "group_by_range range_map [] = Inr range_map"
| "group_by_range range_map (tx # txs) =
     rbind (range_from_unique_blob_id (tx_id tx)) (\<lambda>key_range.
       case range_map key_range of
         Some bucket \<Rightarrow> group_by_range (range_map(key_range \<mapsto> bucket @ [tx])) txs
       | None \<Rightarrow> group_by_range (range_map(key_range \<mapsto> [tx])) txs)"

definition txs_to_range_tx_map ::
    "Transaction list \<Rightarrow> panic + (KeyRange \<rightharpoonup> Transaction list)" where
  "txs_to_range_tx_map txs = group_by_range Map.empty txs"

text \<open>The first inner loop: store the transactions, and note whether one has offset 0.\<close>

fun insert_txs :: "tx_map \<Rightarrow> bool \<Rightarrow> Transaction list \<Rightarrow> panic + (tx_map \<times> bool)" where
  "insert_txs transactions has_0_tx [] = Inr (transactions, has_0_tx)"
| "insert_txs transactions has_0_tx (tx # txs) =
     rbind (range_offset_from_unique_blob_id (tx_id tx)) (\<lambda>(_, offset).
       insert_txs (transactions(tx_id tx \<mapsto> tx)) (if offset = 0 then True else has_0_tx) txs)"

text \<open>The second inner loop: \<open>while transactions.contains_key(&(key + 1)) { key += 1 }\<close>.\<close>

function advance_key :: "tx_map \<Rightarrow> u64 \<Rightarrow> panic + u64" where
  "advance_key transactions key =
     rbind (u64_add key 1) (\<lambda>next_key.
       if has_tx transactions next_key then advance_key transactions next_key else Inr key)"
  by pat_completeness auto
termination
  by (relation "measure (\<lambda>(_, key). 18446744073709551616 - unat key)")
    (simp_all add: u64_step_decreases)

declare advance_key.simps [simp del]

text \<open>One round of the outer loop; the third component is the update it pushes, if it does.\<close>

definition update_range ::
    "(KeyRange \<rightharpoonup> KeyOffset) \<Rightarrow> tx_map \<Rightarrow> KeyRange \<Rightarrow> Transaction list \<Rightarrow>
      panic + ((KeyRange \<rightharpoonup> KeyOffset) \<times> tx_map \<times> (KeyRange \<times> KeyOffset) option)"
where
  "update_range self_offsets transactions key_range txs =
     rbind (insert_txs transactions False txs) (\<lambda>(transactions, has_0_tx).
       case (case self_offsets key_range of
               Some existing_offset \<Rightarrow> Some (self_offsets, existing_offset)
             | None \<Rightarrow> if has_0_tx then Some (self_offsets(key_range \<mapsto> 0), 0) else None) of
         None \<Rightarrow> Inr (self_offsets, transactions, None)
       | Some (self_offsets, start) \<Rightarrow>
           rbind (unique_blob_id_from_range_and_offset key_range start) (\<lambda>key.
           rbind (advance_key transactions key) (\<lambda>key.
           rbind (range_offset_from_unique_blob_id key) (\<lambda>(_, new_offset).
             Inr (self_offsets(key_range \<mapsto> new_offset), transactions,
               Some (key_range, new_offset))))))"

fun update_self_offsets ::
    "(KeyRange \<rightharpoonup> KeyOffset) \<Rightarrow> tx_map \<Rightarrow> (KeyRange \<times> Transaction list) list \<Rightarrow>
      panic + ((KeyRange \<rightharpoonup> KeyOffset) \<times> tx_map \<times> (KeyRange \<times> KeyOffset) list)"
where
  "update_self_offsets self_offsets transactions [] = Inr (self_offsets, transactions, [])"
| "update_self_offsets self_offsets transactions ((key_range, txs) # range_transactions) =
     rbind (update_range self_offsets transactions key_range txs)
       (\<lambda>(self_offsets, transactions, update).
     rbind (update_self_offsets self_offsets transactions range_transactions)
       (\<lambda>(self_offsets, transactions, updates).
       Inr (self_offsets, transactions,
         (case update of None \<Rightarrow> updates | Some u \<Rightarrow> u # updates))))"

text \<open>\<open>ks\<close> is the order of the map that groups the one transaction.\<close>

definition update_self_offset ::
    "KeyRange list \<Rightarrow> (KeyRange \<rightharpoonup> KeyOffset) \<Rightarrow> tx_map \<Rightarrow> Transaction \<Rightarrow>
      panic + ((KeyRange \<rightharpoonup> KeyOffset) \<times> tx_map \<times> (KeyRange \<times> KeyOffset) option)"
where
  "update_self_offset ks self_offsets transactions tx =
     rbind (txs_to_range_tx_map [tx]) (\<lambda>range_transactions.
     rbind (update_self_offsets self_offsets transactions (entries range_transactions ks))
       (\<lambda>(self_offsets, transactions, updates).
       Inr (self_offsets, transactions, (if length updates = 0 then None else Some (last updates)))))"

section \<open>Grouping\<close>

definition bucket_of :: "Transaction list \<Rightarrow> KeyRange \<Rightarrow> Transaction list" where
  "bucket_of txs r = filter (\<lambda>t. in_block r (tx_id t)) txs"

definition buckets :: "Transaction list \<Rightarrow> (KeyRange \<rightharpoonup> Transaction list)" where
  "buckets txs = (\<lambda>r. if bucket_of txs r = [] then None else Some (bucket_of txs r))"

lemma range_from_valid: "valid_id k \<Longrightarrow> range_from_unique_blob_id k = Inr (block_of k)"
  by (simp add: in_block_range_from in_block_block_of)

lemma range_from_invalid: "\<not> valid_id k \<Longrightarrow> range_from_unique_blob_id k = Inl OutOfRange"
  by (simp add: range_from_unique_blob_id_def block_limit valid_id_def unat_simps)

lemma group_by_range_buckets:
  "\<forall>t \<in> set txs. valid_id (tx_id t) \<Longrightarrow> group_by_range (buckets ts) txs = Inr (buckets (ts @ txs))"
proof (induction txs arbitrary: ts)
  case (Cons tx txs)
  let ?r = "block_of (tx_id tx)"
  have upd: "buckets (ts @ [tx]) = (buckets ts)(?r \<mapsto> bucket_of ts ?r @ [tx])"
    by (auto simp: buckets_def bucket_of_def in_block_iff)
  have "group_by_range (buckets ts) (tx # txs) = group_by_range (buckets (ts @ [tx])) txs"
  proof (cases "bucket_of ts ?r = []")
    case True
    then have "buckets ts ?r = None" by (simp add: buckets_def)
    with True Cons.prems show ?thesis by (simp add: range_from_valid upd)
  next
    case False
    then have "buckets ts ?r = Some (bucket_of ts ?r)" by (simp add: buckets_def)
    with Cons.prems show ?thesis by (simp add: range_from_valid upd)
  qed
  with Cons show ?case by simp
qed simp

lemma txs_to_range_tx_map_eq:
  "\<forall>t \<in> set txs. valid_id (tx_id t) \<Longrightarrow> txs_to_range_tx_map txs = Inr (buckets txs)"
  using group_by_range_buckets [of txs "[]"]
  by (simp add: txs_to_range_tx_map_def buckets_def [of "[]"] bucket_of_def [of "[]"])

lemma group_by_range_invalid:
  "\<exists>t \<in> set txs. \<not> valid_id (tx_id t) \<Longrightarrow> group_by_range m txs = Inl OutOfRange"
proof (induction txs arbitrary: m)
  case (Cons tx txs)
  show ?case
  proof (cases "valid_id (tx_id tx)")
    case True
    with Cons.prems have "group_by_range m' txs = Inl OutOfRange" for m' by (intro Cons.IH) auto
    with True show ?thesis by (cases "m (block_of (tx_id tx))") (simp_all add: range_from_valid)
  next
    case False
    then show ?thesis by (simp add: range_from_invalid)
  qed
qed simp

section \<open>Storing\<close>

definition store_all :: "tx_map \<Rightarrow> Transaction list \<Rightarrow> tx_map" where
  "store_all m txs = fold (\<lambda>t m. m(tx_id t \<mapsto> t)) txs m"

lemma store_all_simps [simp]:
  "store_all m [] = m"
  "store_all m (t # ts) = store_all (m(tx_id t \<mapsto> t)) ts"
  by (simp_all add: store_all_def)

lemma dom_store_all: "dom (store_all m ts) = dom m \<union> tx_id ` set ts"
  by (induction ts arbitrary: m) auto

lemma ran_store_all: "ran (store_all m ts) \<subseteq> ran m \<union> set ts"
proof (induction ts arbitrary: m)
  case (Cons t ts)
  have "ran (m(tx_id t \<mapsto> t)) \<subseteq> insert t (ran m)" by (auto simp: ran_def)
  with Cons [of "m(tx_id t \<mapsto> t)"] show ?case by (simp del: fun_upd_apply) blast
qed simp

lemma has_tx_store_all: "has_tx (store_all m ts) k \<longleftrightarrow> has_tx m k \<or> k \<in> tx_id ` set ts"
  using dom_store_all [of m ts] unfolding has_tx_def dom_def by blast

lemma store_all_wf:
  "tx_map_wf m \<Longrightarrow> \<forall>t \<in> set ts. valid_id (tx_id t) \<Longrightarrow> tx_map_wf (store_all m ts)"
proof (induction ts arbitrary: m)
  case (Cons t ts)
  have "tx_map_wf (m(tx_id t \<mapsto> t))" using Cons.prems by (auto simp: tx_map_wf_def)
  with Cons show ?case by simp
qed simp

lemma range_offset_from_valid:
  assumes "valid_id k"
  shows "range_offset_from_unique_blob_id k = Inr (block_of k, u64 (unat k mod 1073741824))"
  using assms unat_less_u64 [of k] by (simp add: res_simps valid_id_def block_of_def)

definition starts_block :: "UniqueU64BlobId \<Rightarrow> bool" where
  "starts_block k \<longleftrightarrow> unat k mod 1073741824 = 0"

lemma insert_txs_eq:
  "\<forall>t \<in> set ts. valid_id (tx_id t) \<Longrightarrow>
     insert_txs m b ts = Inr (store_all m ts, b \<or> (\<exists>t \<in> set ts. starts_block (tx_id t)))"
proof (induction ts arbitrary: m b)
  case (Cons t ts)
  have "u64 (unat (tx_id t) mod 1073741824) = 0 \<longleftrightarrow> starts_block (tx_id t)"
    by (simp add: starts_block_def word_unat_eq_iff)
  with Cons show ?case by (auto simp add: range_offset_from_valid)
qed simp

section \<open>Advancing\<close>

lemma advance_key_run:
  assumes "advance_key txs key = Inr key'"
  shows "unat key \<le> unat key' \<and>
    (\<forall>k. unat key < unat k \<longrightarrow> unat k \<le> unat key' \<longrightarrow> has_tx txs k) \<and>
    (\<forall>k. unat k = Suc (unat key') \<longrightarrow> \<not> has_tx txs k)"
  using assms
proof (induction txs key rule: advance_key.induct)
  case (1 txs key)
  from 1(2) obtain n where n: "u64_add key 1 = Inr n"
    and step: "(if has_tx txs n then advance_key txs n else Inr key) = Inr key'"
    by (subst (asm) advance_key.simps) (auto simp: rbind_eq_Inr)
  have next_key: "unat n = Suc (unat key)" using n by (simp add: res_simps)
  show ?case
  proof (cases "has_tx txs n")
    case True
    with 1(1) [OF n] step have IH: "unat n \<le> unat key'"
        "\<forall>k. unat n < unat k \<longrightarrow> unat k \<le> unat key' \<longrightarrow> has_tx txs k"
        "\<forall>k. unat k = Suc (unat key') \<longrightarrow> \<not> has_tx txs k"
      by simp_all
    have "has_tx txs k" if "unat key < unat k" "unat k \<le> unat key'" for k
    proof (cases "unat k = unat n")
      case True
      then show ?thesis using \<open>has_tx txs n\<close> u64_eqI by metis
    next
      case False
      with that next_key IH(2) show ?thesis by simp
    qed
    with IH next_key show ?thesis by simp
  next
    case False
    with step have "key' = key" by simp
    moreover have "k = n" if "unat k = Suc (unat key)" for k
      using that next_key by (intro u64_eqI) simp
    ultimately show ?thesis using False by auto
  qed
qed

lemma advance_key_returns:
  assumes "tx_map_wf txs" and "unat key \<le> 18446744072635809792"
  shows "\<exists>key'. advance_key txs key = Inr key' \<and> unat key' \<le> 18446744072635809792"
  using assms
proof (induction txs key rule: advance_key.induct)
  case (1 txs key)
  from 1(3) obtain n where n: "u64_add key 1 = Inr n"
    by (cases "u64_add key 1") (auto simp: u64_add_Inl)
  show ?case
  proof (cases "has_tx txs n")
    case True
    then have "valid_id n" using 1(2) by (auto simp: tx_map_wf_def has_tx_def)
    with 1(1) [OF n True 1(2)] n True show ?thesis
      by (subst advance_key.simps) (simp add: valid_id_def)
  next
    case False
    with n 1(3) show ?thesis by (subst advance_key.simps) simp
  qed
qed

section \<open>One range\<close>

text \<open>The promise of a node's offsets: it stores every transaction up to the offset.\<close>

definition offsets_sound :: "(KeyRange \<rightharpoonup> KeyOffset) \<Rightarrow> tx_map \<Rightarrow> bool" where
  "offsets_sound so txs \<longleftrightarrow> (\<forall>r v. so r = Some v \<longrightarrow> valid_pos r v \<and> holds_upto txs r v)"

lemma offsets_soundD:
  "offsets_sound so txs \<Longrightarrow> so r = Some v \<Longrightarrow> valid_pos r v \<and> holds_upto txs r v"
  by (simp add: offsets_sound_def)

lemma offsets_sound_mono: "offsets_sound so txs \<Longrightarrow> dom txs \<subseteq> dom txs' \<Longrightarrow> offsets_sound so txs'"
  by (auto simp: offsets_sound_def intro: holds_upto_mono)

text \<open>
  Advancing from a position up to which everything is stored: the new offset is again one up to
  which everything is stored, even where the run leaves the block, and unless the block is full
  it is the end of the contiguous run.
\<close>

lemma advance_from:
  assumes wf: "tx_map_wf txs" and pos: "valid_pos r start" and holds: "holds_upto txs r start"
  obtains key key' v where
    "unique_blob_id_from_range_and_offset r start = Inr key"
    "advance_key txs key = Inr key'"
    "range_offset_from_unique_blob_id key' = Inr (block_of key', v)"
    "valid_pos r v" "holds_upto txs r v"
    "\<not> block_full txs r \<Longrightarrow> contiguous txs r v \<and> unat start \<le> unat v"
proof -
  let ?b = "unat r * 1073741824"
  define key where "key = u64 (?b + unat start)"
  have key: "unat key = ?b + unat start" "unat key \<le> 18446744072635809792"
    using pos by (simp_all add: key_def valid_pos_def)
  obtain key' where adv: "advance_key txs key = Inr key'" and lim: "unat key' \<le> 18446744072635809792"
    using advance_key_returns [OF wf key(2)] by blast
  note run = advance_key_run [OF adv]
  define v where "v = u64 (unat key' mod 1073741824)"
  have v: "unat v = unat key' mod 1073741824" by (simp add: v_def)
  have ge: "?b \<le> unat key'" using run key(1) by simp
  then have blk: "unat r \<le> unat key' div 1073741824" by (simp add: less_eq_div_iff_mult_less_eq)
  have le: "?b + unat v \<le> unat key'"
    using mult_le_mono1 [OF blk, of 1073741824] div_mult_mod_eq [of "unat key'" 1073741824] v
    by linarith
  have stored: "has_tx txs k" if "?b \<le> unat k" "unat k \<le> unat key'" for k
  proof (cases "unat k \<le> unat key")
    case True
    then show ?thesis
      using that(1) key(1) holds_uptoD [OF holds, of k "unat k - ?b"] by simp
  next
    case False
    then show ?thesis using run that(2) by simp
  qed
  have vpos: "valid_pos r v" using le lim v by (simp add: valid_pos_def)
  have vholds: "holds_upto txs r v"
    unfolding holds_upto_def using stored le lim by simp
  have exact: "contiguous txs r v \<and> unat start \<le> unat v" if "\<not> block_full txs r"
  proof -
    have "unat key' < ?b + 1073741824"
    proof (rule ccontr)
      assume "\<not> unat key' < ?b + 1073741824"
      then have "block_full txs r"
        unfolding block_full_def using stored lim by simp
      with that show False ..
    qed
    then have key': "unat key' = ?b + unat v" using ge v blk
      by (metis add_less_cancel_left div_mod_blob(2) le_add_diff_inverse)
    then have "\<not> has_tx txs (u64 (?b + Suc (unat v)))"
      using run lim by simp
    with vpos vholds run key(1) key' show ?thesis by (simp add: contiguous_def)
  qed
  show thesis
  proof (rule that [of key key' v])
    show "unique_blob_id_from_range_and_offset r start = Inr key"
      using key(1) by (simp add: res_simps)
    show "range_offset_from_unique_blob_id key' = Inr (block_of key', v)"
      using lim by (simp add: range_offset_from_valid valid_id_def v_def)
  qed (use adv vpos vholds exact in auto)
qed

text \<open>The transactions a round works on: accepted ids of the one range.\<close>

definition round_input :: "KeyRange \<Rightarrow> Transaction list \<Rightarrow> bool" where
  "round_input r ts \<longleftrightarrow> (\<forall>t \<in> set ts. valid_id (tx_id t) \<and> in_block r (tx_id t))"

lemma round_input_base:
  assumes "round_input r ts" and "t \<in> set ts" and "starts_block (tx_id t)"
  shows "tx_id t = u64 (unat r * 1073741824)" and "valid_pos r 0"
proof -
  have "unat (tx_id t) div 1073741824 = unat r" "unat (tx_id t) mod 1073741824 = 0"
      "valid_id (tx_id t)"
    using assms by (auto simp: round_input_def in_block_def starts_block_def)
  then have t: "unat (tx_id t) = unat r * 1073741824"
    using div_mult_mod_eq [of "unat (tx_id t)" 1073741824] by simp
  then show "tx_id t = u64 (unat r * 1073741824)" by (metis u64_unat)
  show "valid_pos r 0" using t \<open>valid_id (tx_id t)\<close> by (simp add: valid_pos_def valid_id_def)
qed

text \<open>
  A round either skips the range (it has no offset yet and offset 0 did not arrive) or gives it
  an offset up to which everything is stored.
\<close>

lemma update_range_cases:
  assumes wf: "tx_map_wf txs" and sound: "offsets_sound so txs" and ri: "round_input r ts"
  obtains
    (skip) "so r = None" "\<not> (\<exists>t \<in> set ts. starts_block (tx_id t))"
      "update_range so txs r ts = Inr (so, store_all txs ts, None)"
  | (advance) v where
      "so r = None \<Longrightarrow> \<exists>t \<in> set ts. starts_block (tx_id t)"
      "update_range so txs r ts = Inr (so(r \<mapsto> v), store_all txs ts, Some (r, v))"
      "valid_pos r v" "holds_upto (store_all txs ts) r v"
      "\<not> block_full (store_all txs ts) r \<Longrightarrow> contiguous (store_all txs ts) r v"
      "\<not> block_full (store_all txs ts) r \<Longrightarrow> \<forall>u. so r = Some u \<longrightarrow> unat u \<le> unat v"
proof -
  let ?txs = "store_all txs ts"
  let ?has_0 = "\<exists>t \<in> set ts. starts_block (tx_id t)"
  have valid: "\<forall>t \<in> set ts. valid_id (tx_id t)" using ri by (simp add: round_input_def)
  have ins: "insert_txs txs False ts = Inr (?txs, ?has_0)" using insert_txs_eq [OF valid] by simp
  have wf': "tx_map_wf ?txs" using wf valid by (rule store_all_wf)
  show thesis
  proof (cases "so r")
    case None
    show thesis
    proof (cases ?has_0)
      case False
      with None ins skip show thesis by (simp add: update_range_def)
    next
      case True
      then obtain t where t: "t \<in> set ts" "starts_block (tx_id t)" by blast
      have "has_tx ?txs (u64 (unat r * 1073741824))"
        using t(1) round_input_base(1) [OF ri t] by (metis has_tx_store_all image_eqI)
      then have "holds_upto ?txs r 0" by (simp add: holds_upto_def)
      from advance_from [OF wf' round_input_base(2) [OF ri t] this] obtain key key' v where
        "unique_blob_id_from_range_and_offset r 0 = Inr key" "advance_key ?txs key = Inr key'"
        "range_offset_from_unique_blob_id key' = Inr (block_of key', v)"
        "valid_pos r v" "holds_upto ?txs r v" "\<not> block_full ?txs r \<Longrightarrow> contiguous ?txs r v"
        by metis
      with None ins True advance [of v] show thesis by (simp add: update_range_def)
    qed
  next
    case (Some u)
    have "valid_pos r u" "holds_upto ?txs r u"
      using offsets_soundD [OF sound Some] dom_store_all [of txs ts]
      by (auto intro: holds_upto_mono)
    from advance_from [OF wf' this] obtain key key' v where
      "unique_blob_id_from_range_and_offset r u = Inr key" "advance_key ?txs key = Inr key'"
      "range_offset_from_unique_blob_id key' = Inr (block_of key', v)"
      "valid_pos r v" "holds_upto ?txs r v"
      "\<not> block_full ?txs r \<Longrightarrow> contiguous ?txs r v \<and> unat u \<le> unat v"
      by metis
    with Some ins advance [of v] show thesis by (simp add: update_range_def)
  qed
qed

lemmas update_range_spec = update_range_cases [case_names skip advance]

section \<open>All ranges\<close>

definition rounds_input :: "(KeyRange \<times> Transaction list) list \<Rightarrow> bool" where
  "rounds_input rts \<longleftrightarrow> (\<forall>(r, ts) \<in> set rts. round_input r ts)"

definition txs_of_rounds :: "(KeyRange \<times> Transaction list) list \<Rightarrow> Transaction list" where
  "txs_of_rounds rts = concat (map snd rts)"

lemma store_all_append: "store_all txs (ts @ us) = store_all (store_all txs ts) us"
  by (simp add: store_all_def)

text \<open>
  On accepted ids the loop returns, stores every transaction, keeps the promise of the offsets,
  and reports exactly updates that are now the offsets of their ranges.
\<close>

lemma update_self_offsets_sound:
  assumes "tx_map_wf txs" and "offsets_sound so txs" and "rounds_input rts"
    and "distinct (map fst rts)"
  shows "\<exists>so' ups. update_self_offsets so txs rts = Inr (so', store_all txs (txs_of_rounds rts), ups) \<and>
    offsets_sound so' (store_all txs (txs_of_rounds rts)) \<and>
    so' = so ++ map_of ups \<and> set (map fst ups) \<subseteq> set (map fst rts) \<and> distinct (map fst ups)"
  using assms
proof (induction rts arbitrary: so txs)
  case Nil
  then show ?case by (simp add: txs_of_rounds_def)
next
  case (Cons rt rts)
  obtain r ts where rt: "rt = (r, ts)" by (cases rt)
  have ri: "round_input r ts" and rest: "rounds_input rts" "distinct (map fst rts)"
    and fresh: "r \<notin> set (map fst rts)"
    using Cons.prems(3,4) by (simp_all add: rt rounds_input_def)
  let ?txs = "store_all txs ts"
  have wf': "tx_map_wf ?txs"
    using Cons.prems(1) ri by (intro store_all_wf) (simp_all add: round_input_def)
  have sound': "offsets_sound so ?txs"
    using Cons.prems(2) by (rule offsets_sound_mono) (simp add: dom_store_all)
  have all: "store_all txs (txs_of_rounds (rt # rts)) = store_all ?txs (txs_of_rounds rts)"
    by (simp add: txs_of_rounds_def rt store_all_append)
  from Cons.prems(1,2) ri show ?case
  proof (cases rule: update_range_spec)
    case skip
    from Cons.IH [OF wf' sound' rest] obtain so' ups where
      "update_self_offsets so ?txs rts = Inr (so', store_all ?txs (txs_of_rounds rts), ups)"
      "offsets_sound so' (store_all ?txs (txs_of_rounds rts))"
      "so' = so ++ map_of ups" "set (map fst ups) \<subseteq> set (map fst rts)" "distinct (map fst ups)"
      by blast
    with skip show ?thesis
      unfolding all by (intro exI [of _ so'] exI [of _ ups]) (auto simp: rt)
  next
    case (advance v)
    have "offsets_sound (so(r \<mapsto> v)) ?txs"
      using sound' advance(3,4) by (simp add: offsets_sound_def)
    from Cons.IH [OF wf' this rest] obtain so' ups where IH:
      "update_self_offsets (so(r \<mapsto> v)) ?txs rts = Inr (so', store_all ?txs (txs_of_rounds rts), ups)"
      "offsets_sound so' (store_all ?txs (txs_of_rounds rts))"
      "so' = so(r \<mapsto> v) ++ map_of ups" "set (map fst ups) \<subseteq> set (map fst rts)"
      "distinct (map fst ups)"
      by blast
    have new: "r \<notin> set (map fst ups)" using fresh IH(4) by blast
    then have so': "so' = so ++ map_of ((r, v) # ups)"
      by (simp add: IH(3) map_add_upd_left dom_map_of_conv_image_fst)
    have "update_self_offsets so txs (rt # rts) =
        Inr (so', store_all ?txs (txs_of_rounds rts), (r, v) # ups)"
      by (simp add: rt advance(2) IH(1))
    moreover have "set (map fst ((r, v) # ups)) \<subseteq> set (map fst (rt # rts))"
        "distinct (map fst ((r, v) # ups))"
      using IH(4,5) new by (auto simp: rt)
    ultimately show ?thesis
      unfolding all using so' IH(2) by blast
  qed
qed

section \<open>Exactness\<close>

text \<open>
  While no block is full, the offsets are a function of the set of stored transactions: the
  offset of a range is the end of its contiguous run, and a range without offset 0 has none.
\<close>

definition offsets_exact :: "(KeyRange \<rightharpoonup> KeyOffset) \<Rightarrow> tx_map \<Rightarrow> bool" where
  "offsets_exact so txs \<longleftrightarrow> (\<forall>r v. so r = Some v \<longleftrightarrow> contiguous txs r v)"

lemma offsets_exact_sound: "offsets_exact so txs \<Longrightarrow> offsets_sound so txs"
  by (simp add: offsets_exact_def offsets_sound_def contiguous_def)

lemma block_full_mono: "dom txs \<subseteq> dom txs' \<Longrightarrow> block_full txs r \<Longrightarrow> block_full txs' r"
  unfolding block_full_def by (blast intro: has_tx_mono)

lemma contiguous_other_block:
  assumes "round_input r ts" and "r' \<noteq> r" and "\<not> block_full (store_all txs ts) r'"
  shows "contiguous (store_all txs ts) r' v \<longleftrightarrow> contiguous txs r' v"
proof -
  let ?b = "unat r' * 1073741824"
  let ?txs = "store_all txs ts"
  have same: "has_tx ?txs k \<longleftrightarrow> has_tx txs k" if "in_block r' k" for k
    using that assms(1,2) unfolding has_tx_store_all by (auto simp: round_input_def in_block_iff)
  show ?thesis
  proof (cases "valid_pos r' v")
    case True
    then have b: "unat v < 1073741824" "?b + unat v \<le> 18446744072635809792"
      by (simp_all add: valid_pos_def)
    have same': "has_tx ?txs (u64 (?b + j)) \<longleftrightarrow> has_tx txs (u64 (?b + j))"
      if "j < 1073741824" "?b + j \<le> 18446744072635809793" for j
      using that by (intro same) (simp add: in_block_def div_mod_blob)
    then have upto: "holds_upto ?txs r' v \<longleftrightarrow> holds_upto txs r' v"
      using b by (simp add: holds_upto_def)
    show ?thesis
    proof (cases "Suc (unat v) < 1073741824")
      case True
      then show ?thesis using b upto same' [of "Suc (unat v)"] by (simp add: contiguous_def)
    next
      case False
      have "\<not> holds_upto ?txs r' v"
      proof
        assume "holds_upto ?txs r' v"
        then have "block_full ?txs r'" using False by (simp add: holds_upto_def block_full_def)
        with assms(3) show False ..
      qed
      then show ?thesis using upto by (simp add: contiguous_def)
    qed
  qed (simp add: contiguous_def)
qed

lemma update_range_exact:
  assumes wf: "tx_map_wf txs" and exact: "offsets_exact so txs" and ri: "round_input r ts"
    and gap: "\<forall>r'. \<not> block_full (store_all txs ts) r'"
    and upd: "update_range so txs r ts = Inr (so', txs', u)"
  shows "offsets_exact so' (store_all txs ts)"
  using wf offsets_exact_sound [OF exact] ri
proof (cases rule: update_range_spec)
  case skip
  have "\<not> contiguous (store_all txs ts) r v" for v
  proof
    assume v: "contiguous (store_all txs ts) r v"
    then have b: "unat r * 1073741824 \<le> 18446744072635809792"
      and base: "has_tx (store_all txs ts) (u64 (unat r * 1073741824))"
      by (auto simp: contiguous_def valid_pos_def holds_upto_def dest: spec [of _ 0])
    have "\<not> block_full txs r"
      using gap block_full_mono [of txs "store_all txs ts" r] by (auto simp: dom_store_all)
    then have "\<not> has_tx txs (u64 (unat r * 1073741824))"
      using contiguous_exists [OF _ _ wf b] skip(1) exact
      unfolding offsets_exact_def by (metis option.distinct(1))
    with base obtain t where "t \<in> set ts" "tx_id t = u64 (unat r * 1073741824)"
      unfolding has_tx_store_all by auto
    with skip(2) b show False by (auto simp: starts_block_def)
  qed
  moreover have "so' = so" using skip(3) upd by simp
  ultimately show ?thesis
    using exact skip(1) contiguous_other_block [OF ri] gap
    unfolding offsets_exact_def by (metis option.distinct(1))
next
  case (advance v)
  have "so' = so(r \<mapsto> v)" using advance(2) upd by simp
  moreover have "contiguous (store_all txs ts) r v" using advance(5) gap by blast
  ultimately show ?thesis
    using exact contiguous_other_block [OF ri] gap contiguous_unique
    unfolding offsets_exact_def by (metis fun_upd_apply option.inject)
qed

lemma update_self_offsets_exact:
  assumes "tx_map_wf txs" and "offsets_exact so txs" and "rounds_input rts"
    and "\<forall>r. \<not> block_full (store_all txs (txs_of_rounds rts)) r"
    and "update_self_offsets so txs rts = Inr (so', txs', ups)"
  shows "offsets_exact so' (store_all txs (txs_of_rounds rts))"
  using assms
proof (induction rts arbitrary: so txs so' ups)
  case Nil
  then show ?case by (simp add: txs_of_rounds_def)
next
  case (Cons rt rts)
  obtain r ts where rt: "rt = (r, ts)" by (cases rt)
  have ri: "round_input r ts" and rest: "rounds_input rts"
    using Cons.prems(3) by (simp_all add: rt rounds_input_def)
  have all: "store_all txs (txs_of_rounds (rt # rts)) = store_all (store_all txs ts) (txs_of_rounds rts)"
    by (simp add: txs_of_rounds_def rt store_all_append)
  have wf': "tx_map_wf (store_all txs ts)"
    using Cons.prems(1) ri by (intro store_all_wf) (simp_all add: round_input_def)
  have gap: "\<forall>r'. \<not> block_full (store_all txs ts) r'"
    using Cons.prems(4) block_full_mono unfolding all by (metis dom_store_all Un_upper1)
  obtain so1 txs1 u ups1 where one: "update_range so txs r ts = Inr (so1, txs1, u)"
    and more: "update_self_offsets so1 txs1 rts = Inr (so', txs', ups1)"
    using Cons.prems(5) by (auto simp: rt rbind_eq_Inr)
  have "txs1 = store_all txs ts"
    using Cons.prems(1) offsets_exact_sound [OF Cons.prems(2)] ri
    by (cases rule: update_range_spec) (use one in auto)
  moreover have "offsets_exact so1 (store_all txs ts)"
    using Cons.prems(1,2) ri gap one by (rule update_range_exact)
  ultimately show ?case
    using Cons.IH [OF wf' _ rest] more Cons.prems(4) unfolding all by blast
qed

section \<open>From a list of transactions\<close>

lemma rounds_of_buckets:
  assumes "\<forall>t \<in> set ts. valid_id (tx_id t)" and "key_order (buckets ts) ks"
  shows "rounds_input (entries (buckets ts) ks)"
    and "set (txs_of_rounds (entries (buckets ts) ks)) = set ts"
proof -
  have ent: "(r, b) \<in> set (entries (buckets ts) ks) \<longleftrightarrow> bucket_of ts r \<noteq> [] \<and> b = bucket_of ts r" for r b
    using key_orderD(2) [OF assms(2)] by (auto simp: set_entries buckets_def split: if_splits)
  have bucket: "t \<in> set (bucket_of ts r) \<longleftrightarrow> t \<in> set ts \<and> in_block r (tx_id t)" for t r
    by (simp add: bucket_of_def)
  show "rounds_input (entries (buckets ts) ks)"
    using assms(1) by (auto simp: rounds_input_def round_input_def ent bucket)
  show "set (txs_of_rounds (entries (buckets ts) ks)) = set ts"
  proof (rule equalityI; rule subsetI)
    fix t assume "t \<in> set (txs_of_rounds (entries (buckets ts) ks))"
    then obtain r b where "(r, b) \<in> set (entries (buckets ts) ks)" "t \<in> set b"
      by (auto simp: txs_of_rounds_def)
    then show "t \<in> set ts" by (simp add: ent bucket)
  next
    fix t assume "t \<in> set ts"
    then have t: "t \<in> set (bucket_of ts (block_of (tx_id t)))" by (simp add: bucket in_block_block_of)
    then have "(block_of (tx_id t), bucket_of ts (block_of (tx_id t))) \<in> set (entries (buckets ts) ks)"
      by (auto simp: ent)
    with t show "t \<in> set (txs_of_rounds (entries (buckets ts) ks))"
      by (force simp: txs_of_rounds_def)
  qed
qed

lemma update_buckets_exact:
  assumes "tx_map_wf txs" and "offsets_exact so txs" and "\<forall>t \<in> set ts. valid_id (tx_id t)"
    and "key_order (buckets ts) ks" and "\<forall>r. \<not> block_full (store_all txs ts) r"
  shows "\<exists>so' txs' ups. update_self_offsets so txs (entries (buckets ts) ks) = Inr (so', txs', ups) \<and>
    tx_map_wf txs' \<and> dom txs' = dom txs \<union> tx_id ` set ts \<and> offsets_exact so' txs'"
proof -
  let ?rts = "entries (buckets ts) ks"
  let ?txs = "store_all txs (txs_of_rounds ?rts)"
  note rounds = rounds_of_buckets [OF assms(3,4)]
  have "distinct (map fst ?rts)" using assms(4) by (simp add: key_orderD)
  from update_self_offsets_sound [OF assms(1) offsets_exact_sound [OF assms(2)] rounds(1) this]
  obtain so' ups where u: "update_self_offsets so txs ?rts = Inr (so', ?txs, ups)" by blast
  have dom: "dom ?txs = dom (store_all txs ts)" by (simp add: dom_store_all rounds(2))
  then have "\<forall>r. \<not> block_full ?txs r"
    using assms(5) block_full_mono [of ?txs "store_all txs ts"] by auto
  then have "offsets_exact so' ?txs"
    by (rule update_self_offsets_exact [OF assms(1,2) rounds(1) _ u])
  moreover have "tx_map_wf ?txs" using assms(1,3) rounds(2) by (intro store_all_wf) auto
  ultimately show ?thesis using u dom by (auto simp: dom_store_all)
qed

text \<open>A sequence of lists, as the handler of missing transactions takes them one after the other.\<close>

fun deliver ::
    "(Transaction list \<times> KeyRange list) list \<Rightarrow> (KeyRange \<rightharpoonup> KeyOffset) \<Rightarrow> tx_map \<Rightarrow>
      panic + ((KeyRange \<rightharpoonup> KeyOffset) \<times> tx_map)"
where
  "deliver [] so txs = Inr (so, txs)"
| "deliver ((ts, ks) # bs) so txs =
     rbind (txs_to_range_tx_map ts) (\<lambda>range_transactions.
     rbind (update_self_offsets so txs (entries range_transactions ks)) (\<lambda>(so, txs, _).
       deliver bs so txs))"

definition all_txs :: "(Transaction list \<times> KeyRange list) list \<Rightarrow> Transaction list" where
  "all_txs bs = concat (map fst bs)"

definition batches_ok :: "(Transaction list \<times> KeyRange list) list \<Rightarrow> bool" where
  "batches_ok bs \<longleftrightarrow> (\<forall>t \<in> set (all_txs bs). valid_id (tx_id t)) \<and>
     (\<forall>(ts, ks) \<in> set bs. key_order (buckets ts) ks)"

lemma deliver_exact:
  assumes "tx_map_wf txs" and "offsets_exact so txs" and "batches_ok bs"
    and "\<forall>r. \<not> block_full (store_all txs (all_txs bs)) r"
  shows "\<exists>so' txs'. deliver bs so txs = Inr (so', txs') \<and> offsets_exact so' txs' \<and>
    dom txs' = dom txs \<union> tx_id ` set (all_txs bs)"
  using assms
proof (induction bs arbitrary: so txs)
  case Nil
  then show ?case by (simp add: all_txs_def)
next
  case (Cons b bs)
  obtain ts ks where b: "b = (ts, ks)" by (cases b)
  have ok: "\<forall>t \<in> set ts. valid_id (tx_id t)" "key_order (buckets ts) ks" "batches_ok bs"
    using Cons.prems(3) by (auto simp: batches_ok_def all_txs_def b)
  have all: "store_all txs (all_txs (b # bs)) = store_all (store_all txs ts) (all_txs bs)"
    by (simp add: all_txs_def b store_all_append)
  have "\<forall>r. \<not> block_full (store_all txs ts) r"
    using Cons.prems(4) block_full_mono [of "store_all txs ts" "store_all txs (all_txs (b # bs))"]
    unfolding all by (auto simp: dom_store_all)
  from update_buckets_exact [OF Cons.prems(1,2) ok(1,2) this] obtain so1 txs1 ups where
    u: "update_self_offsets so txs (entries (buckets ts) ks) = Inr (so1, txs1, ups)"
      "tx_map_wf txs1" "dom txs1 = dom txs \<union> tx_id ` set ts" "offsets_exact so1 txs1" by blast
  have "\<forall>r. \<not> block_full (store_all txs1 (all_txs bs)) r"
    using Cons.prems(4) u(3)
      block_full_mono [of "store_all txs1 (all_txs bs)" "store_all txs (all_txs (b # bs))"]
    unfolding all by (auto simp: dom_store_all)
  from Cons.IH [OF u(2,4) ok(3) this] obtain so' txs' where
    "deliver bs so1 txs1 = Inr (so', txs')" "offsets_exact so' txs'"
    "dom txs' = dom txs1 \<union> tx_id ` set (all_txs bs)" by blast
  then show ?case
    using u(1,3) by (auto simp: b txs_to_range_tx_map_eq [OF ok(1)] all_txs_def)
qed

lemma offsets_exact_empty: "offsets_exact Map.empty Map.empty"
  by (auto simp: offsets_exact_def contiguous_def holds_upto_def has_tx_def)

lemma offsets_exact_unique:
  assumes "offsets_exact so txs" and "offsets_exact so' txs'" and "dom txs = dom txs'"
  shows "so = so'"
proof
  fix r
  have "so r = Some v \<longleftrightarrow> so' r = Some v" for v
    using assms contiguous_dom [OF assms(3)] by (simp add: offsets_exact_def)
  then show "so r = so' r" by (metis option.exhaust)
qed

lemma not_full: "finite A \<Longrightarrow> card A < 1073741824 \<Longrightarrow> dom txs \<subseteq> A \<Longrightarrow> \<not> block_full txs r"
proof
  assume A: "finite A" "card A < 1073741824" "dom txs \<subseteq> A" and full: "block_full txs r"
  have "inj_on (\<lambda>j. u64 (unat r * 1073741824 + j)) {..<1073741824}"
  proof (rule inj_onI)
    fix x y :: nat
    assume xy: "x \<in> {..<1073741824}" "y \<in> {..<1073741824}"
      and eq: "u64 (unat r * 1073741824 + x) = u64 (unat r * 1073741824 + y)"
    then have "u64 (unat r * 1073741824) + u64 x = u64 (unat r * 1073741824) + u64 y"
      by (simp add: u64_def)
    then have "u64 x = u64 y" by simp
    then show "x = y" using xy by (simp add: u64_inj)
  qed
  moreover have "(\<lambda>j. u64 (unat r * 1073741824 + j)) ` {..<1073741824} \<subseteq> A"
    using full A(3) by (auto simp: block_full_def has_tx_def)
  ultimately have "card {..<1073741824 :: nat} \<le> card A" using A(1) by (rule card_inj_on_le)
  then show False using A(2) by simp
qed

lemma dom_buckets: "dom (buckets ts) = (\<lambda>t. block_of (tx_id t)) ` set ts"
  by (auto simp: buckets_def bucket_of_def in_block_iff filter_empty_conv split: if_splits)

section \<open>Properties\<close>

text \<open>
  C15: the incremental computation of a node's own offsets agrees with their definition.
  As long as no block is full, grouping any list of transactions with accepted ids and running
  \<open>update_self_offsets\<close> over the groups, in any order of the hash map, returns with every transaction
  stored, and every offset is then the last offset before the first gap of its range; a range has
  none exactly when its first transaction is missing.
\<close>

theorem self_offsets_before_first_gap:
  assumes "tx_map_wf txs" and "\<forall>r v. so r = Some v \<longleftrightarrow> contiguous txs r v"
    and "\<forall>t \<in> set ts. valid_id (tx_id t)" and "key_order (buckets ts) ks"
    and "\<forall>r. \<not> block_full (store_all txs ts) r"
  shows "\<exists>so' txs' ups. txs_to_range_tx_map ts = Inr (buckets ts) \<and>
    update_self_offsets so txs (entries (buckets ts) ks) = Inr (so', txs', ups) \<and>
    dom txs' = dom txs \<union> tx_id ` set ts \<and> (\<forall>r v. so' r = Some v \<longleftrightarrow> contiguous txs' r v)"
  using update_buckets_exact [OF assms(1) _ assms(3-5), of so] assms(2) txs_to_range_tx_map_eq [OF assms(3)]
  by (auto simp: offsets_exact_def)

definition some_txs :: "Transaction list" where
  "some_txs = [Transaction 1 Created, Transaction 0 Created, Transaction 3 Created]"

theorem self_offsets_before_first_gap_witness:
  "\<exists>so' txs' ups. txs_to_range_tx_map some_txs = Inr (buckets some_txs) \<and>
    update_self_offsets Map.empty Map.empty (entries (buckets some_txs) [0]) = Inr (so', txs', ups) \<and>
    dom txs' = {1, 0, 3} \<and> (\<forall>r v. so' r = Some v \<longleftrightarrow> contiguous txs' r v)"
proof -
  have "tx_map_wf Map.empty" by (simp add: tx_map_wf_def)
  moreover have "\<forall>r v. Map.empty r = Some v \<longleftrightarrow> contiguous Map.empty r v"
    using offsets_exact_empty unfolding offsets_exact_def .
  moreover have "\<forall>t \<in> set some_txs. valid_id (tx_id t)" by (simp add: some_txs_def valid_id_def)
  moreover have "key_order (buckets some_txs) [0]"
    by (auto simp: some_txs_def key_order_def dom_buckets block_of_def)
  moreover have "\<forall>r. \<not> block_full (store_all Map.empty some_txs) r"
    by (intro allI not_full [of "{0, 1, 3}"]) (simp_all add: some_txs_def)
  ultimately have "\<exists>so' txs' ups. txs_to_range_tx_map some_txs = Inr (buckets some_txs) \<and>
    update_self_offsets Map.empty Map.empty (entries (buckets some_txs) [0]) = Inr (so', txs', ups) \<and>
    dom txs' = dom (Map.empty :: tx_map) \<union> tx_id ` set some_txs \<and>
    (\<forall>r v. so' r = Some v \<longleftrightarrow> contiguous txs' r v)"
    by (rule self_offsets_before_first_gap)
  then show ?thesis by (simp add: some_txs_def)
qed

text \<open>
  C22: a node's own offsets do not depend on how its transactions arrive. Two nodes that start
  empty and take the same ids, in any order, in lists cut in any way, with repetitions and with any
  iteration orders, end with the same offsets, as long as no block is full.
\<close>

theorem offsets_converge:
  assumes "batches_ok bs" and "batches_ok bs'"
    and "tx_id ` set (all_txs bs) = tx_id ` set (all_txs bs')"
    and "\<forall>r. \<not> block_full (store_all Map.empty (all_txs bs)) r"
  shows "\<exists>so txs txs'. deliver bs Map.empty Map.empty = Inr (so, txs) \<and>
    deliver bs' Map.empty Map.empty = Inr (so, txs') \<and> dom txs = dom txs'"
proof -
  have wf: "tx_map_wf Map.empty" by (simp add: tx_map_wf_def)
  have "dom (store_all Map.empty (all_txs bs')) \<subseteq> dom (store_all Map.empty (all_txs bs))"
    by (simp add: dom_store_all assms(3))
  then have "\<forall>r. \<not> block_full (store_all Map.empty (all_txs bs')) r"
    using assms(4) block_full_mono by blast
  from deliver_exact [OF wf offsets_exact_empty assms(2) this] obtain so' txs' where
    2: "deliver bs' Map.empty Map.empty = Inr (so', txs')" "offsets_exact so' txs'"
      "dom txs' = dom (Map.empty :: tx_map) \<union> tx_id ` set (all_txs bs')" by blast
  from deliver_exact [OF wf offsets_exact_empty assms(1,4)] obtain so txs where
    1: "deliver bs Map.empty Map.empty = Inr (so, txs)" "offsets_exact so txs"
      "dom txs = dom (Map.empty :: tx_map) \<union> tx_id ` set (all_txs bs)" by blast
  have dom: "dom txs = dom txs'" using 1(3) 2(3) assms(3) by simp
  have "so' = so" by (rule offsets_exact_unique [OF 2(2) 1(2) dom [symmetric]])
  then show ?thesis using 1(1) 2(1) dom by simp
qed

theorem offsets_converge_witness:
  "\<exists>so txs txs'.
     deliver [([Transaction 1 Created, Transaction 0 Pending], [0])] Map.empty Map.empty = Inr (so, txs) \<and>
     deliver [([Transaction 0 Created], [0]), ([Transaction 1 Created], [0])] Map.empty Map.empty =
       Inr (so, txs') \<and> dom txs = dom txs'"
proof (rule offsets_converge)
  show "\<forall>r. \<not> block_full (store_all Map.empty
      (all_txs [([Transaction 1 Created, Transaction 0 Pending], [0 :: KeyRange])])) r"
    by (intro allI not_full [of "{0, 1}"]) (simp_all add: all_txs_def)
qed (auto simp: batches_ok_def all_txs_def valid_id_def key_order_def dom_buckets block_of_def)

text \<open>
  C25: whatever blocks are full, \<open>update_self_offsets\<close> on accepted ids never panics, and every
  offset it leaves still promises only transactions that are stored.
\<close>

theorem self_offsets_hold_what_they_promise:
  assumes "tx_map_wf txs" and "offsets_sound so txs" and "\<forall>t \<in> set ts. valid_id (tx_id t)"
    and "key_order (buckets ts) ks"
  shows "\<exists>so' txs' ups. update_self_offsets so txs (entries (buckets ts) ks) = Inr (so', txs', ups) \<and>
    (\<forall>r v. so' r = Some v \<longrightarrow> valid_pos r v \<and> holds_upto txs' r v)"
proof -
  note rounds = rounds_of_buckets [OF assms(3,4)]
  have "distinct (map fst (entries (buckets ts) ks))" using assms(4) by (simp add: key_orderD)
  from update_self_offsets_sound [OF assms(1,2) rounds(1) this] show ?thesis
    unfolding offsets_sound_def by blast
qed

theorem self_offsets_hold_what_they_promise_witness:
  "\<exists>so' txs' ups. update_self_offsets Map.empty Map.empty
       (entries (buckets [Transaction 1073741824 Created, Transaction 0 Created]) [0, 1]) = Inr (so', txs', ups) \<and>
     offsets_sound so' txs'"
  unfolding offsets_sound_def
  by (rule self_offsets_hold_what_they_promise)
    (auto simp: tx_map_wf_def offsets_sound_def valid_id_def key_order_def dom_buckets block_of_def)

text \<open>
  C30: the loop that advances an offset does not stop at the end of the block. When the last
  transaction of block 0 fills it while block 1 has its first transaction but not its second, the
  offset of range 0 goes back from \<open>2\<^sup>30 - 2\<close> to 0, the offset in block 1 that the loop ran to.
\<close>

theorem full_block_resets_offset:
  assumes "so 0 = Some 1073741822" and "has_tx txs 1073741824" and "\<not> has_tx txs 1073741825"
  shows "\<exists>txs'. update_range so txs 0 [Transaction 1073741823 st] = Inr (so(0 \<mapsto> 0), txs', Some (0, 0))"
proof -
  let ?t = "Transaction 1073741823 st"
  let ?txs = "txs(1073741823 \<mapsto> ?t)"
  have ins: "insert_txs txs False [?t] = Inr (?txs, False)"
    by (subst insert_txs_eq) (simp_all add: valid_id_def starts_block_def)
  have key: "unique_blob_id_from_range_and_offset 0 1073741822 = Inr 1073741822"
    by (simp add: unique_blob_id_eq_Inr)
  have add: "u64_add 1073741822 1 = Inr 1073741823" "u64_add 1073741823 1 = Inr 1073741824"
      "u64_add 1073741824 1 = Inr 1073741825"
    by (simp_all add: u64_add_eq_Inr)
  have "has_tx ?txs 1073741823" "has_tx ?txs 1073741824" "\<not> has_tx ?txs 1073741825"
    using assms(2,3) by (simp_all add: has_tx_def)
  then have adv: "advance_key ?txs 1073741822 = Inr 1073741824"
    by (simp add: advance_key.simps [of _ 1073741822] advance_key.simps [of _ 1073741823]
        advance_key.simps [of _ 1073741824] add)
  have dec: "range_offset_from_unique_blob_id 1073741824 = Inr (1, 0)"
    by (simp add: range_offset_from_eq_Inr)
  show ?thesis
    by (simp add: update_range_def ins assms(1) key adv dec del: insert_txs.simps)
qed

definition almost_full :: tx_map where
  "almost_full = (\<lambda>k. if unat k \<le> 1073741824 \<and> k \<noteq> 1073741823 then Some (Transaction k Created) else None)"

theorem full_block_resets_offset_witness:
  "\<exists>txs'. update_range [0 \<mapsto> 1073741822, 1 \<mapsto> 0] almost_full 0 [Transaction 1073741823 Created] =
     Inr ([0 \<mapsto> 1073741822, 1 \<mapsto> 0](0 \<mapsto> 0), txs', Some (0, 0))"
  by (rule full_block_resets_offset) (simp_all add: almost_full_def has_tx_def)

end
