(* ===== verification/Delays.thy ===== *)
theory Delays
  imports Self_Offsets
begin

text \<open>
  Which transactions a node asks for, and from whom (\<open>maroon/src/app/app.rs\<close>: \<open>self_delays\<close>):
  for every range it takes the node with the highest known offset and requests, as intervals, the
  ids up to that offset that are not stored.
\<close>

section \<open>The functions\<close>

text \<open>\<open>Iterator::max_by_key\<close>: of several maximal elements it returns the last.\<close>

fun max_by_offset :: "('p \<times> KeyOffset) list \<Rightarrow> ('p \<times> KeyOffset) option" where
  "max_by_offset [] = None"
| "max_by_offset (kv # kvs) =
     Some (fold (\<lambda>kv best. if snd kv < snd best then best else kv) kvs kv)"

text \<open>The loop \<open>while pointer <= right_border\<close>; it returns its three variables.\<close>

function scan_range ::
    "tx_map \<Rightarrow> KeyRange \<Rightarrow> KeyOffset \<Rightarrow> KeyOffset \<Rightarrow> KeyOffset \<Rightarrow> U64BlobIdClosedInterval list \<Rightarrow>
      panic + (U64BlobIdClosedInterval list \<times> KeyOffset \<times> KeyOffset)"
where
  "scan_range transactions key_range right_border left_border pointer new_intervals =
     (if pointer \<le> right_border then
        rbind (unique_blob_id_from_range_and_offset key_range pointer) (\<lambda>key.
          if has_tx transactions key then
            rbind
              (if left_border < pointer then
                 rbind (u64_sub pointer 1) (\<lambda>before.
                 rbind (new_from_range_and_offsets key_range left_border before) (\<lambda>interval.
                   Inr (new_intervals @ [interval])))
               else Inr new_intervals)
              (\<lambda>new_intervals.
            rbind (u64_add pointer 1) (\<lambda>pointer.
              scan_range transactions key_range right_border pointer pointer new_intervals))
          else
            rbind (u64_add pointer 1) (\<lambda>pointer.
              scan_range transactions key_range right_border left_border pointer new_intervals))
      else Inr (new_intervals, left_border, pointer))"
  by pat_completeness auto
termination
  by (relation "measure (\<lambda>(_, _, _, _, pointer, _). 18446744073709551616 - unat pointer)")
    (simp_all add: u64_step_decreases)

declare scan_range.simps [simp del]

text \<open>One round of the outer loop: what is requested for a range, if anything, and from whom.\<close>

definition range_delay ::
    "tx_map \<Rightarrow> (KeyRange \<rightharpoonup> KeyOffset) \<Rightarrow> KeyRange \<Rightarrow> ('p \<times> KeyOffset) list \<Rightarrow>
      panic + ('p \<times> U64BlobIdClosedInterval list) option"
where
  "range_delay transactions self_offsets key_range nodes =
     (case max_by_offset nodes of
        None \<Rightarrow> Inr None
      | Some (peer_id, right_border) \<Rightarrow>
          (if (case self_offsets key_range of Some current \<Rightarrow> right_border \<le> current | None \<Rightarrow> False)
           then Inr None
           else
             rbind (case self_offsets key_range of
                      Some current \<Rightarrow> u64_add current 1 | None \<Rightarrow> Inr 0) (\<lambda>left_border.
             rbind (scan_range transactions key_range right_border left_border left_border [])
               (\<lambda>(new_intervals, left_border, pointer).
             rbind
               (if pointer \<noteq> left_border then
                  rbind (u64_sub pointer 1) (\<lambda>before.
                  rbind (new_from_range_and_offsets key_range left_border before) (\<lambda>interval.
                    Inr (new_intervals @ [interval])))
                else Inr new_intervals)
               (\<lambda>new_intervals. Inr (Some (peer_id, new_intervals)))))))"

text \<open>The outer loop over the entries of \<open>offsets\<close>, with the entries of its inner maps.\<close>

fun self_delays_loop ::
    "tx_map \<Rightarrow> (KeyRange \<rightharpoonup> KeyOffset) \<Rightarrow> (KeyRange \<times> ('p \<times> KeyOffset) list) list \<Rightarrow>
      ('p \<rightharpoonup> U64BlobIdClosedInterval list) \<Rightarrow> panic + ('p \<rightharpoonup> U64BlobIdClosedInterval list)"
where
  "self_delays_loop transactions self_offsets [] result = Inr result"
| "self_delays_loop transactions self_offsets ((key_range, nodes) # offsets) result =
     rbind (range_delay transactions self_offsets key_range nodes) (\<lambda>delay.
       case delay of
         None \<Rightarrow> self_delays_loop transactions self_offsets offsets result
       | Some (peer_id, new_intervals) \<Rightarrow>
           self_delays_loop transactions self_offsets offsets
             (case result peer_id of
                Some ranges \<Rightarrow> result(peer_id \<mapsto> ranges @ new_intervals)
              | None \<Rightarrow> result(peer_id \<mapsto> new_intervals)))"

definition self_delays ::
    "tx_map \<Rightarrow> (KeyRange \<rightharpoonup> KeyOffset) \<Rightarrow> (KeyRange \<times> ('p \<times> KeyOffset) list) list \<Rightarrow>
      panic + ('p \<rightharpoonup> U64BlobIdClosedInterval list)"
where
  "self_delays transactions self_offsets offsets =
     self_delays_loop transactions self_offsets offsets Map.empty"

section \<open>The node that is asked\<close>

lemma fold_max:
  fixes kv :: "'p \<times> u64"
  shows "fold (\<lambda>kv best. if snd kv < snd best then best else kv) kvs kv \<in> set (kv # kvs) \<and>
    (\<forall>x \<in> set (kv # kvs).
      snd x \<le> snd (fold (\<lambda>kv best. if snd kv < snd best then best else kv) kvs kv))"
proof (induction kvs arbitrary: kv)
  case (Cons x kvs)
  show ?case
    using Cons [of "if snd x < snd kv then kv else x"] by (auto split: if_splits intro: order_trans)
qed simp

lemma max_by_offset_Some:
  assumes "max_by_offset kvs = Some (p, v)"
  shows "(p, v) \<in> set kvs" and "(q, w) \<in> set kvs \<Longrightarrow> w \<le> v"
proof -
  obtain kv kvs' where kvs: "kvs = kv # kvs'" using assms by (cases kvs) auto
  note m = fold_max [of kvs' kv]
  show "(p, v) \<in> set kvs" using m assms kvs by simp
  show "w \<le> v" if "(q, w) \<in> set kvs" using m assms kvs that by fastforce
qed

text \<open>The maximum, without the function: the last of the entries with the largest offset.\<close>

definition last_maximum :: "('p \<times> KeyOffset) list \<Rightarrow> 'p \<Rightarrow> KeyOffset \<Rightarrow> bool" where
  "last_maximum kvs p v \<longleftrightarrow>
     (\<exists>xs ys. kvs = xs @ (p, v) # ys \<and> (\<forall>(q, w) \<in> set xs. w \<le> v) \<and> (\<forall>(q, w) \<in> set ys. w < v))"

lemma fold_last_maximum:
  assumes "last_maximum kvs p v"
  shows "\<exists>q w. last_maximum (kvs @ kvs') q w \<and>
    fold (\<lambda>kv best. if snd kv < snd best then best else kv) kvs' (p, v) = (q, w)"
  using assms
proof (induction kvs' arbitrary: kvs p v)
  case (Cons x kvs')
  obtain xs ys where kvs: "kvs = xs @ (p, v) # ys" "\<forall>(q, w) \<in> set xs. w \<le> v" "\<forall>(q, w) \<in> set ys. w < v"
    using Cons.prems by (auto simp: last_maximum_def)
  obtain a b where x: "x = (a, b)" by (cases x)
  show ?case
  proof (cases "b < v")
    case True
    then have "last_maximum (kvs @ [x]) p v"
      unfolding last_maximum_def using kvs x by (intro exI [of _ xs] exI [of _ "ys @ [x]"]) auto
    from Cons.IH [OF this] True show ?thesis by (simp add: x)
  next
    case False
    then have "last_maximum (kvs @ [x]) a b"
      unfolding last_maximum_def using kvs x by (intro exI [of _ kvs] exI [of _ "[]"]) fastforce
    from Cons.IH [OF this] False show ?thesis by (simp add: x)
  qed
qed auto

lemma last_maximum_unique: "last_maximum kvs p v \<Longrightarrow> last_maximum kvs q w \<Longrightarrow> p = q \<and> v = w"
  unfolding last_maximum_def
  by (fastforce simp: append_eq_append_conv2 Cons_eq_append_conv append_eq_Cons_conv)

lemma max_by_offset_iff: "max_by_offset kvs = Some (p, v) \<longleftrightarrow> last_maximum kvs p v"
proof (cases kvs)
  case (Cons kv kvs')
  obtain a b where kv: "kv = (a, b)" by (cases kv)
  have "last_maximum [kv] a b" unfolding last_maximum_def by (intro exI [of _ "[]"]) (simp add: kv)
  from fold_last_maximum [OF this, of kvs'] obtain q w where
    "last_maximum kvs q w" "max_by_offset kvs = Some (q, w)" by (auto simp: Cons kv)
  then show ?thesis using last_maximum_unique by fastforce
qed (simp add: last_maximum_def)

lemma max_by_offset_None [simp]: "max_by_offset kvs = None \<longleftrightarrow> kvs = []"
  by (cases kvs) simp_all

section \<open>The ids that are missing\<close>

definition missing :: "tx_map \<Rightarrow> KeyRange \<Rightarrow> nat \<Rightarrow> nat \<Rightarrow> UniqueU64BlobId list" where
  "missing txs r a b =
     filter (\<lambda>k. \<not> has_tx txs k) (map (\<lambda>j. u64 (unat r * 1073741824 + j)) [a..<b])"

lemma missing_append: "a \<le> b \<Longrightarrow> b \<le> c \<Longrightarrow> missing txs r a b @ missing txs r b c = missing txs r a c"
  using upt_add_eq_append [of a b "c - b"] by (simp add: missing_def)

lemma missing_self [simp]: "missing txs r a a = []"
  by (simp add: missing_def)

lemma missing_present:
  "has_tx txs (u64 (unat r * 1073741824 + a)) \<Longrightarrow> missing txs r a (Suc a) = []"
  by (simp add: missing_def)

lemma map_upt_shift: "map (\<lambda>j. f (b + j)) [x..<y] = map f [b + x..<b + y]"
  by (rule nth_equalityI) (simp_all add: ac_simps)

lemma missing_all:
  assumes "\<forall>j. a \<le> j \<longrightarrow> j < b \<longrightarrow> \<not> has_tx txs (u64 (unat r * 1073741824 + j))"
    and "unat (left i) = unat r * 1073741824 + a" and "Suc (unat (right i)) = unat r * 1073741824 + b"
  shows "missing txs r a b = interval_ids i"
proof -
  have "filter (\<lambda>k. \<not> has_tx txs k) (map (\<lambda>j. u64 (unat r * 1073741824 + j)) [a..<b]) =
      map (\<lambda>j. u64 (unat r * 1073741824 + j)) [a..<b]"
    using assms(1) by (simp add: filter_id_conv)
  then show ?thesis
    by (simp only: missing_def interval_ids_def ids_between_def assms(2,3) map_upt_shift)
qed

definition gap_between :: "tx_map \<Rightarrow> KeyRange \<Rightarrow> nat \<Rightarrow> nat \<Rightarrow> bool" where
  "gap_between txs r a b \<longleftrightarrow>
     (\<forall>j. a \<le> j \<longrightarrow> j < b \<longrightarrow> \<not> has_tx txs (u64 (unat r * 1073741824 + j)))"

lemma gap_between_self [simp]: "gap_between txs r a a"
  by (simp add: gap_between_def)

lemma gap_between_Suc:
  "gap_between txs r a b \<Longrightarrow> \<not> has_tx txs (u64 (unat r * 1073741824 + b)) \<Longrightarrow> gap_between txs r a (Suc b)"
  by (auto simp: gap_between_def less_Suc_eq)

text \<open>An interval of the range \<open>r\<close> that is not inverted and ends at or below the offset \<open>v\<close>.\<close>

definition within :: "KeyRange \<Rightarrow> KeyOffset \<Rightarrow> U64BlobIdClosedInterval \<Rightarrow> bool" where
  "within r v i \<longleftrightarrow> left i \<le> right i \<and> unat r * 1073741824 \<le> unat (left i) \<and>
     unat (right i) \<le> unat r * 1073741824 + unat v"

text \<open>
  Pushing the gap \<open>[left_border, pointer)\<close>, if there is one, as the loop does and the code after
  it does again: what is pushed are the missing ids of the gap.
\<close>

lemma push_gap:
  assumes pos: "valid_pos r rb" and le: "unat lb \<le> unat ptr" "unat ptr \<le> Suc (unat rb)"
    and gap: "gap_between txs r (unat lb) (unat ptr)"
  obtains pushed where
    "(if lb < ptr then rbind (u64_sub ptr 1) (\<lambda>before.
        rbind (new_from_range_and_offsets r lb before) (\<lambda>i. Inr (ivs @ [i])))
      else Inr ivs) = Inr (ivs @ pushed)"
    "ids_of pushed = missing txs r (unat lb) (unat ptr)"
    "\<forall>i \<in> set pushed. within r rb i"
proof (cases "lb < ptr")
  case True
  let ?b = "unat r * 1073741824"
  obtain m where m: "unat ptr = Suc m" "unat lb \<le> m" "m \<le> unat rb"
    using True le by (cases "unat ptr") (auto simp: unat_simps)
  have b: "?b + m < 18446744073709551616" "?b + unat lb < 18446744073709551616"
    using pos m by (simp_all add: valid_pos_def)
  let ?i = "ClosedInterval (u64 (?b + unat lb)) (u64 (?b + m))"
  have sub: "u64_sub ptr 1 = Inr (u64 m)"
    using m(1) unat_u64_le [of m ptr] by (simp add: res_simps)
  have new: "new_from_range_and_offsets r lb (u64 m) = Inr ?i"
    using m(1,2) unat_u64_le [of m ptr] b by (simp add: res_simps)
  have "interval_ids ?i = missing txs r (unat lb) (unat ptr)"
    using gap [unfolded gap_between_def] b m(1) by (intro missing_all [symmetric]) simp_all
  moreover have "within r rb ?i" using b m(2,3) by (simp add: within_def unat_simps)
  ultimately show thesis using that [of "[?i]"] True by (simp add: sub new)
next
  case False
  then have "lb = ptr" using le(1) by (simp add: unat_simps word_unat_eq_iff)
  with False show thesis using that [of "[]"] by simp
qed

text \<open>What the loop has established when it stops with its variables at \<open>lb\<close> and \<open>ptr\<close>.\<close>

definition scanned ::
    "tx_map \<Rightarrow> KeyRange \<Rightarrow> KeyOffset \<Rightarrow> nat \<Rightarrow> U64BlobIdClosedInterval list \<Rightarrow> KeyOffset \<Rightarrow> KeyOffset \<Rightarrow> bool"
where
  "scanned txs r rb a news lb ptr \<longleftrightarrow>
     unat ptr = Suc (unat rb) \<and> a \<le> unat lb \<and> unat lb \<le> unat ptr \<and>
     gap_between txs r (unat lb) (unat ptr) \<and>
     ids_of news = missing txs r a (unat lb) \<and> (\<forall>i \<in> set news. within r rb i)"

lemma scanned_prepend:
  assumes "scanned txs r rb (Suc p) news lb ptr" and "a \<le> p"
    and "has_tx txs (u64 (unat r * 1073741824 + p))"
    and "ids_of pushed = missing txs r a p" and "\<forall>i \<in> set pushed. within r rb i"
  shows "scanned txs r rb a (pushed @ news) lb ptr"
  using assms missing_append [of a p "Suc p" txs r] missing_append [of a "Suc p" "unat lb" txs r]
    missing_present [OF assms(3)]
  by (auto simp: scanned_def)

lemma scan_range_missing:
  assumes "valid_pos r rb" and "unat lb \<le> unat ptr" and "unat ptr \<le> Suc (unat rb)"
    and "gap_between txs r (unat lb) (unat ptr)"
  shows "\<exists>news lb' ptr'. scan_range txs r rb lb ptr ivs = Inr (ivs @ news, lb', ptr') \<and>
    scanned txs r rb (unat lb) news lb' ptr'"
  using assms
proof (induction txs r rb lb ptr ivs rule: scan_range.induct)
  case (1 txs r rb lb ptr ivs)
  show ?case
  proof (cases "ptr \<le> rb")
    case False
    with "1.prems" have "scanned txs r rb (unat lb) [] lb ptr"
      by (simp add: scanned_def unat_simps)
    with False show ?thesis by (subst scan_range.simps) auto
  next
    case le: True
    then have le': "unat ptr \<le> unat rb" by (simp add: unat_simps)
    have id: "unique_blob_id_from_range_and_offset r ptr = Inr (u64 (unat r * 1073741824 + unat ptr))"
      using le' "1.prems"(1) by (simp add: res_simps valid_pos_def)
    define n where "n = u64 (Suc (unat ptr))"
    have n: "u64_add ptr 1 = Inr n" "unat n = Suc (unat ptr)"
      using le' "1.prems"(1) by (simp_all add: n_def res_simps valid_pos_def)
    show ?thesis
    proof (cases "has_tx txs (u64 (unat r * 1073741824 + unat ptr))")
      case present: True
      obtain pushed where push:
        "(if lb < ptr then rbind (u64_sub ptr 1) (\<lambda>before.
            rbind (new_from_range_and_offsets r lb before) (\<lambda>i. Inr (ivs @ [i])))
          else Inr ivs) = Inr (ivs @ pushed)"
        "ids_of pushed = missing txs r (unat lb) (unat ptr)" "\<forall>i \<in> set pushed. within r rb i"
        using push_gap [OF "1.prems"] by metis
      obtain news lb' ptr' where IH:
        "scan_range txs r rb n n (ivs @ pushed) = Inr ((ivs @ pushed) @ news, lb', ptr')"
        "scanned txs r rb (Suc (unat ptr)) news lb' ptr'"
        using "1.IH"(1) [OF le id present push(1) n(1)] "1.prems"(1) n(2) le' by auto
      have "scan_range txs r rb lb ptr ivs = Inr (ivs @ pushed @ news, lb', ptr')"
        using IH(1) by (subst scan_range.simps) (simp add: le id present push(1) n(1))
      with scanned_prepend [OF IH(2) "1.prems"(2) present push(2,3)] show ?thesis by blast
    next
      case absent: False
      have "gap_between txs r (unat lb) (unat n)"
        unfolding n(2) using "1.prems"(4) absent by (rule gap_between_Suc)
      then have "\<exists>news lb' ptr'. scan_range txs r rb lb n ivs = Inr (ivs @ news, lb', ptr') \<and>
          scanned txs r rb (unat lb) news lb' ptr'"
        using "1.IH"(2) [OF le id absent n(1)] "1.prems"(1,2) n(2) le' by simp
      moreover have "scan_range txs r rb lb ptr ivs = scan_range txs r rb lb n ivs"
        by (subst scan_range.simps) (simp add: le id absent n(1))
      ultimately show ?thesis by simp
    qed
  qed
qed

section \<open>What is requested\<close>

text \<open>Whether the node is behind the offset \<open>v\<close> for the range.\<close>

definition behind :: "(KeyRange \<rightharpoonup> KeyOffset) \<Rightarrow> KeyRange \<Rightarrow> KeyOffset \<Rightarrow> bool" where
  "behind so r v \<longleftrightarrow> (case so r of None \<Rightarrow> True | Some current \<Rightarrow> current < v)"

lemma range_delay_eq:
  assumes so: "valid_offsets so" and pos: "valid_pos r v" and max: "max_by_offset nodes = Some (p, v)"
  shows "\<exists>ivs. range_delay txs so r nodes = Inr (if behind so r v then Some (p, ivs) else None) \<and>
    ids_of ivs = missing txs r (next_start so r) (Suc (unat v)) \<and> (\<forall>i \<in> set ivs. within r v i)"
proof (cases "behind so r v")
  case False
  then obtain current where "so r = Some current" "v \<le> current"
    by (auto simp: behind_def split: option.splits)
  moreover have "next_start so r \<ge> Suc (unat v)"
    using calculation by (simp add: next_start_def unat_simps)
  then have "missing txs r (next_start so r) (Suc (unat v)) = []" by (simp add: missing_def)
  ultimately show ?thesis
    using max False by (intro exI [of _ "[]"]) (simp add: range_delay_def)
next
  case True
  define s where "s = u64 (next_start so r)"
  note start = next_start_checked [OF so, of r, folded s_def]
  have s: "unat s = next_start so r" unfolding s_def by (rule unat_next_start [OF so])
  have le: "unat s \<le> Suc (unat v)"
    using True unfolding s by (auto simp: behind_def next_start_def unat_simps split: option.splits)
  obtain news lb ptr where scan: "scan_range txs r v s s [] = Inr (news, lb, ptr)"
    and scanned: "scanned txs r v (unat s) news lb ptr"
    using scan_range_missing [OF pos order_refl le gap_between_self, of txs "[]"] by auto
  have lb: "unat lb \<le> unat ptr" "unat ptr \<le> Suc (unat v)" "gap_between txs r (unat lb) (unat ptr)"
    using scanned unfolding scanned_def by auto
  obtain pushed where push:
    "(if lb < ptr then rbind (u64_sub ptr 1) (\<lambda>before.
        rbind (new_from_range_and_offsets r lb before) (\<lambda>i. Inr (news @ [i])))
      else Inr news) = Inr (news @ pushed)"
    "ids_of pushed = missing txs r (unat lb) (unat ptr)" "\<forall>i \<in> set pushed. within r v i"
    using push_gap [OF pos lb] by metis
  have neq: "ptr \<noteq> lb \<longleftrightarrow> lb < ptr" using lb(1) by (auto simp: unat_simps word_unat_eq_iff)
  have "\<not> (case so r of Some current \<Rightarrow> v \<le> current | None \<Rightarrow> False)"
    using True by (auto simp: behind_def split: option.splits)
  then have "range_delay txs so r nodes = Inr (Some (p, news @ pushed))"
    by (simp add: range_delay_def max start scan neq push(1))
  moreover have "ids_of (news @ pushed) = missing txs r (next_start so r) (Suc (unat v))"
    using scanned push(2) s by (simp add: scanned_def missing_append)
  ultimately show ?thesis
    using True scanned push(3) by (intro exI [of _ "news @ pushed"]) (auto simp: scanned_def)
qed

text \<open>
  Over the natural numbers: what one range contributes to the request sent to \<open>p\<close>, and what the
  request sent to \<open>p\<close> is.
\<close>

definition delay_ids ::
    "tx_map \<Rightarrow> (KeyRange \<rightharpoonup> KeyOffset) \<Rightarrow> 'p \<Rightarrow> KeyRange \<times> ('p \<times> KeyOffset) list \<Rightarrow> UniqueU64BlobId list"
where
  "delay_ids txs so p = (\<lambda>(r, nodes). case max_by_offset nodes of
     Some (q, v) \<Rightarrow> if p = q then missing txs r (next_start so r) (Suc (unat v)) else []
   | None \<Rightarrow> [])"

definition requested :: "('p \<rightharpoonup> U64BlobIdClosedInterval list) \<Rightarrow> 'p \<Rightarrow> U64BlobIdClosedInterval list" where
  "requested m p = (case m p of None \<Rightarrow> [] | Some is \<Rightarrow> is)"

definition valid_nodes :: "(KeyRange \<times> ('p \<times> KeyOffset) list) list \<Rightarrow> bool" where
  "valid_nodes offs \<longleftrightarrow> (\<forall>(r, nodes) \<in> set offs. \<forall>(p, v) \<in> set nodes. valid_pos r v)"

definition served :: "(KeyRange \<times> ('p \<times> KeyOffset) list) list \<Rightarrow> 'p \<Rightarrow> U64BlobIdClosedInterval \<Rightarrow> bool" where
  "served offs p i \<longleftrightarrow> (\<exists>r nodes v. (r, nodes) \<in> set offs \<and> (p, v) \<in> set nodes \<and> within r v i)"

lemma missing_not_behind: "\<not> behind so r v \<Longrightarrow> missing txs r (next_start so r) (Suc (unat v)) = []"
  by (auto simp: behind_def next_start_def missing_def unat_simps split: option.splits)

lemma range_delay_cases:
  assumes so: "valid_offsets so" and valid: "valid_nodes [(r, nodes)]"
  obtains
    (none) "range_delay txs so r nodes = Inr None" "\<And>p. delay_ids txs so p (r, nodes) = []"
  | (ask) p ivs where "range_delay txs so r nodes = Inr (Some (p, ivs))"
      "\<And>q. delay_ids txs so q (r, nodes) = (if q = p then ids_of ivs else [])"
      "\<forall>i \<in> set ivs. served [(r, nodes)] p i"
proof (cases "max_by_offset nodes")
  case None
  then show thesis using none by (simp add: range_delay_def delay_ids_def)
next
  case (Some pv)
  obtain p v where pv: "pv = (p, v)" by (cases pv)
  have mem: "(p, v) \<in> set nodes" using max_by_offset_Some(1) Some pv by metis
  then have pos: "valid_pos r v" using valid by (auto simp: valid_nodes_def)
  obtain ivs where ivs: "range_delay txs so r nodes = Inr (if behind so r v then Some (p, ivs) else None)"
      "ids_of ivs = missing txs r (next_start so r) (Suc (unat v))" "\<forall>i \<in> set ivs. within r v i"
    using range_delay_eq [OF so pos Some [unfolded pv]] by blast
  show thesis
  proof (cases "behind so r v")
    case True
    show thesis
      by (rule ask [of p ivs]) (use True ivs mem Some pv in \<open>auto simp: delay_ids_def served_def\<close>)
  next
    case False
    show thesis
      by (rule none) (use False ivs(1) Some pv in \<open>auto simp: delay_ids_def missing_not_behind\<close>)
  qed
qed

lemma requested_upd:
  "requested (case m p of Some ranges \<Rightarrow> m(p \<mapsto> ranges @ ivs) | None \<Rightarrow> m(p \<mapsto> ivs)) q =
     (if q = p then requested m p @ ivs else requested m q)"
  by (simp add: requested_def split: option.split)

lemma self_delays_loop_eq:
  assumes "valid_offsets so" and "valid_nodes offs"
  shows "\<exists>m. self_delays_loop txs so offs result = Inr m \<and>
    (\<forall>p. ids_of (requested m p) =
       ids_of (requested result p) @ concat (map (delay_ids txs so p) offs)) \<and>
    (\<forall>p. \<forall>i \<in> set (requested m p). i \<in> set (requested result p) \<or> served offs p i)"
  using assms(2)
proof (induction offs arbitrary: result)
  case Nil
  then show ?case by simp
next
  case (Cons ro offs)
  obtain r nodes where ro: "ro = (r, nodes)" by (cases ro)
  have head: "valid_nodes [(r, nodes)]" and tail: "valid_nodes offs"
    using Cons.prems by (auto simp: valid_nodes_def ro)
  have more: "served (ro # offs) p i \<longleftrightarrow> served [(r, nodes)] p i \<or> served offs p i" for p i
    by (auto simp: served_def ro)
  from assms(1) head show ?case
  proof (cases rule: range_delay_cases [where txs = txs, case_names none ask])
    case none
    then have "self_delays_loop txs so (ro # offs) result = self_delays_loop txs so offs result"
      "\<And>p. delay_ids txs so p ro = []"
      by (simp_all add: ro)
    with Cons.IH [OF tail, of result] show ?thesis unfolding more by simp blast
  next
    case (ask p ivs)
    let ?result = "case result p of Some ranges \<Rightarrow> result(p \<mapsto> ranges @ ivs) | None \<Rightarrow> result(p \<mapsto> ivs)"
    obtain m where m: "self_delays_loop txs so offs ?result = Inr m"
      "\<forall>q. ids_of (requested m q) = ids_of (requested ?result q) @ concat (map (delay_ids txs so q) offs)"
      "\<forall>q. \<forall>i \<in> set (requested m q). i \<in> set (requested ?result q) \<or> served offs q i"
      using Cons.IH [OF tail, of ?result] by blast
    have "self_delays_loop txs so (ro # offs) result = Inr m"
      by (simp add: ro ask(1) m(1))
    moreover have "ids_of (requested m q) =
        ids_of (requested result q) @ concat (map (delay_ids txs so q) (ro # offs))" for q
      using m(2) ask(2) [of q] by (simp add: requested_upd ro)
    moreover have "i \<in> set (requested result q) \<or> served (ro # offs) q i"
      if "i \<in> set (requested m q)" for q i
      using m(3) that ask(3) unfolding more requested_upd by (auto split: if_splits)
    ultimately show ?thesis by blast
  qed
qed

lemma self_delays_eq:
  assumes "valid_offsets so" and "valid_nodes offs"
  shows "\<exists>m. self_delays txs so offs = Inr m \<and>
    (\<forall>p. ids_of (requested m p) = concat (map (delay_ids txs so p) offs)) \<and>
    (\<forall>p. \<forall>i \<in> set (requested m p). served offs p i)"
  using self_delays_loop_eq [OF assms, of txs Map.empty]
  by (simp add: self_delays_def requested_def)

text \<open>No id is requested twice from a node, and a request can be counted and iterated.\<close>

lemma missing_block:
  assumes "valid_pos r v"
  shows "distinct (missing txs r a (Suc (unat v)))"
    and "k \<in> set (missing txs r a (Suc (unat v))) \<Longrightarrow> in_block r k"
proof -
  let ?b = "unat r * 1073741824"
  have b: "?b + j < 18446744073709551616" "(?b + j) div 1073741824 = unat r" if "j \<le> unat v" for j
    using assms that by (simp_all add: valid_pos_def div_mod_blob)
  have "inj_on (\<lambda>j. u64 (?b + j)) {a..<Suc (unat v)}"
    using b(1) by (intro inj_onI) (simp add: u64_inj less_Suc_eq_le)
  then show "distinct (missing txs r a (Suc (unat v)))"
    by (simp add: missing_def distinct_map del: upt_Suc)
  show "in_block r k" if "k \<in> set (missing txs r a (Suc (unat v)))"
    using that b by (auto simp: missing_def in_block_def less_Suc_eq_le simp del: upt_Suc)
qed

lemma delay_ids_block:
  assumes "valid_nodes [(r, nodes)]"
  shows "distinct (delay_ids txs so p (r, nodes))"
    and "k \<in> set (delay_ids txs so p (r, nodes)) \<Longrightarrow> in_block r k"
proof -
  have pos: "valid_pos r v" if "max_by_offset nodes = Some (q, v)" for q v
    using max_by_offset_Some(1) [OF that] assms by (auto simp: valid_nodes_def)
  show "distinct (delay_ids txs so p (r, nodes))"
    using pos by (auto simp: delay_ids_def missing_block(1) split: option.split)
  show "in_block r k" if "k \<in> set (delay_ids txs so p (r, nodes))"
  proof (cases "max_by_offset nodes")
    case None
    with that show ?thesis by (simp add: delay_ids_def)
  next
    case (Some qv)
    then obtain q v where qv: "max_by_offset nodes = Some (q, v)" by (cases qv) auto
    from that have "\<exists>a. k \<in> set (missing txs r a (Suc (unat v)))"
      by (auto simp: delay_ids_def qv split: if_splits)
    then show ?thesis using missing_block(2) [OF pos [OF qv]] by blast
  qed
qed

lemma distinct_delay_ids:
  assumes "distinct (map fst offs)" and "valid_nodes offs"
  shows "distinct (concat (map (delay_ids txs so p) offs))"
  using assms
proof (induction offs)
  case (Cons ro offs)
  obtain r nodes where ro: "ro = (r, nodes)" by (cases ro)
  have head: "valid_nodes [(r, nodes)]" and tail: "valid_nodes offs"
    using Cons.prems by (auto simp: valid_nodes_def ro)
  have "\<not> in_block r k" if "k \<in> set (concat (map (delay_ids txs so p) offs))" for k
  proof -
    obtain r' nodes' where r': "(r', nodes') \<in> set offs" "k \<in> set (delay_ids txs so p (r', nodes'))"
      using \<open>k \<in> _\<close> by auto
    have "in_block r' k" by (rule delay_ids_block(2) [OF _ r'(2)]) (use tail r'(1) in \<open>auto simp: valid_nodes_def\<close>)
    moreover have "r' \<noteq> r" using Cons.prems(1) r'(1) ro by (auto simp: image_iff)
    ultimately show ?thesis by (simp add: in_block_iff)
  qed
  then have "set (delay_ids txs so p (r, nodes)) \<inter> set (concat (map (delay_ids txs so p) offs)) = {}"
    using delay_ids_block(2) [OF head] by blast
  then show ?case
    using Cons.IH Cons.prems(1) tail delay_ids_block(1) [OF head]
    unfolding ro list.map concat.simps distinct_append by simp
qed simp

lemma set_missing:
  assumes "valid_pos r v"
  shows "k \<in> set (missing txs r a (Suc (unat v))) \<longleftrightarrow>
    r = block_of k \<and> a \<le> unat k mod 1073741824 \<and> unat k mod 1073741824 \<le> unat v \<and> \<not> has_tx txs k"
proof
  assume k: "k \<in> set (missing txs r a (Suc (unat v)))"
  then obtain j where j: "a \<le> j" "j \<le> unat v" "k = u64 (unat r * 1073741824 + j)" "\<not> has_tx txs k"
    by (auto simp: missing_def less_Suc_eq_le simp del: upt_Suc)
  then have "unat k = unat r * 1073741824 + j" "j < 1073741824"
    using assms by (simp_all add: valid_pos_def)
  then have "unat k mod 1073741824 = j" by (simp add: div_mod_blob)
  with j missing_block(2) [OF assms k] show "r = block_of k \<and> a \<le> unat k mod 1073741824 \<and>
      unat k mod 1073741824 \<le> unat v \<and> \<not> has_tx txs k"
    by (simp add: in_block_iff)
next
  assume k: "r = block_of k \<and> a \<le> unat k mod 1073741824 \<and> unat k mod 1073741824 \<le> unat v \<and> \<not> has_tx txs k"
  then have "unat k = unat r * 1073741824 + unat k mod 1073741824"
    using in_block_block_of [of k, unfolded in_block_def] div_mult_mod_eq [of "unat k" 1073741824]
    unfolding k [THEN conjunct1] by linarith
  then have "k = u64 (unat r * 1073741824 + unat k mod 1073741824)" by (metis u64_unat)
  moreover have "unat k mod 1073741824 \<in> {a..<Suc (unat v)}" using k by simp
  ultimately show "k \<in> set (missing txs r a (Suc (unat v)))"
    using k unfolding missing_def set_filter set_map set_upt by blast
qed

section \<open>Properties\<close>

text \<open>
  C16: \<open>self_delays\<close> asks for exactly what is missing. With offsets that are positions of
  accepted ids it returns, and a node is asked for an id exactly if no node has a larger offset in the
  id's range than it (of several such nodes the last one is asked), the id lies after the node's own
  offset and up to that largest one, and it is not stored; no id is asked for twice from one node.
\<close>

theorem delays_ask_for_the_missing:
  assumes "valid_offsets so" and "valid_nodes offs" and "distinct (map fst offs)"
  shows "\<exists>m. self_delays txs so offs = Inr m \<and> (\<forall>p. distinct (ids_of (requested m p))) \<and>
    (\<forall>p k. k \<in> set (ids_of (requested m p)) \<longleftrightarrow>
       (\<exists>xs v ys. (block_of k, xs @ (p, v) # ys) \<in> set offs \<and>
          (\<forall>(q, w) \<in> set xs. w \<le> v) \<and> (\<forall>(q, w) \<in> set ys. w < v) \<and>
          next_start so (block_of k) \<le> unat k mod 1073741824 \<and> unat k mod 1073741824 \<le> unat v \<and>
          \<not> has_tx txs k))"
proof -
  obtain m where m: "self_delays txs so offs = Inr m"
    "\<forall>p. ids_of (requested m p) = concat (map (delay_ids txs so p) offs)"
    using self_delays_eq [OF assms(1,2), of txs] by blast
  have one: "k \<in> set (delay_ids txs so p (r, nodes)) \<longleftrightarrow>
      (\<exists>v. r = block_of k \<and> max_by_offset nodes = Some (p, v) \<and>
         next_start so (block_of k) \<le> unat k mod 1073741824 \<and> unat k mod 1073741824 \<le> unat v \<and>
         \<not> has_tx txs k)" if r: "(r, nodes) \<in> set offs" for p k r nodes
  proof (cases "max_by_offset nodes")
    case (Some qv)
    obtain q v where qv: "qv = (q, v)" by (cases qv)
    then have "(q, v) \<in> set nodes" using max_by_offset_Some(1) Some by simp
    then have "valid_pos r v" using assms(2) r by (auto simp: valid_nodes_def)
    from set_missing [OF this, of k txs] show ?thesis by (auto simp: delay_ids_def Some qv)
  qed (simp add: delay_ids_def)
  have "k \<in> set (ids_of (requested m p)) \<longleftrightarrow>
       (\<exists>nodes v. (block_of k, nodes) \<in> set offs \<and> max_by_offset nodes = Some (p, v) \<and>
          next_start so (block_of k) \<le> unat k mod 1073741824 \<and> unat k mod 1073741824 \<le> unat v \<and>
          \<not> has_tx txs k)" for p k
  proof -
    have "k \<in> set (ids_of (requested m p)) \<longleftrightarrow>
        (\<exists>r nodes. (r, nodes) \<in> set offs \<and> k \<in> set (delay_ids txs so p (r, nodes)))"
      using m(2) by force
    also have "\<dots> \<longleftrightarrow> (\<exists>r nodes v. (r, nodes) \<in> set offs \<and> r = block_of k \<and>
        max_by_offset nodes = Some (p, v) \<and> next_start so (block_of k) \<le> unat k mod 1073741824 \<and>
        unat k mod 1073741824 \<le> unat v \<and> \<not> has_tx txs k)"
      by (intro iffI; elim exE conjE) (use one in blast)+
    finally show ?thesis by blast
  qed
  moreover have "distinct (ids_of (requested m p))" for p
    using m(2) distinct_delay_ids [OF assms(3,2)] by simp
  moreover have "(\<exists>nodes v. (block_of k, nodes) \<in> set offs \<and> max_by_offset nodes = Some (p, v) \<and> A v) \<longleftrightarrow>
      (\<exists>xs v ys. (block_of k, xs @ (p, v) # ys) \<in> set offs \<and>
         (\<forall>(q, w) \<in> set xs. w \<le> v) \<and> (\<forall>(q, w) \<in> set ys. w < v) \<and> A v)" for p k A
    unfolding max_by_offset_iff last_maximum_def by blast
  ultimately show ?thesis using m(1) by simp
qed

definition told_offsets :: "(KeyRange \<times> (nat \<times> KeyOffset) list) list" where
  "told_offsets = [(0, [(1, 3), (2, 5), (3, 4)]), (7, [(1, 0)])]"

theorem delays_ask_for_the_missing_witness:
  "\<exists>m. self_delays [2 \<mapsto> Transaction 2 Created] [0 \<mapsto> 0] told_offsets = Inr m \<and>
     4 \<in> set (ids_of (requested m 2)) \<and> 4 \<notin> set (ids_of (requested m 3))"
proof -
  have "valid_offsets [0 \<mapsto> 0]" "valid_nodes told_offsets" "distinct (map fst told_offsets)"
    by (simp_all add: valid_offsets_def valid_nodes_def valid_pos_def told_offsets_def)
  from delays_ask_for_the_missing [OF this, of "[2 \<mapsto> Transaction 2 Created]"] obtain m where
    m: "self_delays [2 \<mapsto> Transaction 2 Created] [0 \<mapsto> 0] told_offsets = Inr m"
    "\<forall>p k. k \<in> set (ids_of (requested m p)) \<longleftrightarrow>
       (\<exists>xs v ys. (block_of k, xs @ (p, v) # ys) \<in> set told_offsets \<and>
          (\<forall>(q, w) \<in> set xs. w \<le> v) \<and> (\<forall>(q, w) \<in> set ys. w < v) \<and>
          next_start [0 \<mapsto> 0] (block_of k) \<le> unat k mod 1073741824 \<and> unat k mod 1073741824 \<le> unat v \<and>
          \<not> has_tx [2 \<mapsto> Transaction 2 Created] k)" by blast
  have four: "block_of 4 = 0" by (simp add: block_of_def)
  have "(0, [(1, 3)] @ (2, 5) # [(3, 4)]) \<in> set told_offsets" by (simp add: told_offsets_def)
  moreover have "\<forall>(q, w) \<in> set [(1 :: nat, 3 :: u64)]. w \<le> 5" "\<forall>(q, w) \<in> set [(3 :: nat, 4 :: u64)]. w < 5"
    by (simp_all add: word_less_nat_alt word_le_nat_alt)
  moreover have "next_start [0 \<mapsto> 0 :: u64] 0 \<le> unat (4 :: u64) mod 1073741824"
    "unat (4 :: u64) mod 1073741824 \<le> unat (5 :: u64)" "\<not> has_tx [2 \<mapsto> Transaction 2 Created] 4"
    by (simp_all add: next_start_def has_tx_def)
  ultimately have "4 \<in> set (ids_of (requested m 2))" unfolding spec [OF spec [OF m(2)], of 4 2] four by blast
  moreover have "4 \<notin> set (ids_of (requested m 3))"
  proof
    assume "4 \<in> set (ids_of (requested m 3))"
    then obtain xs v ys where "(0, xs @ (3, v) # ys) \<in> set told_offsets" "\<forall>(q, w) \<in> set xs. w \<le> v"
      unfolding spec [OF spec [OF m(2)], of 4 3] four by blast
    then show False
      by (auto simp: told_offsets_def append_eq_Cons_conv word_le_nat_alt)
  qed
  ultimately show ?thesis using m(1) by blast
qed

end
