(* ===== verification/Node_Interface.thy ===== *)
theory Node_Interface
  imports Delays
begin

text \<open>
  What a node's application exchanges with its surroundings: its parameters
  (\<open>maroon/src/app/params.rs\<close>), the messages to and from the network layer
  (\<open>maroon/src/network/interface.rs\<close>), the state request of the application
  (\<open>maroon/src/app/interface.rs\<close>), and sending into a channel
  (\<open>common/src/duplex_channel.rs\<close>). A \<open>PeerId\<close> is a value of the crate \<open>libp2p\<close>, of which the
  code uses the order and the equality: it is the type variable \<open>'p\<close>, a linear order.
\<close>

section \<open>Parameters\<close>

type_synonym milliseconds = nat

record Params =
  advertise_period :: milliseconds
  consensus_nodes :: nat
  epoch_period :: milliseconds

definition Params_default :: Params where
  "Params_default = \<lparr>advertise_period = 5000, consensus_nodes = 2, epoch_period = 10000\<rparr>"

definition set_advertise_period :: "Params \<Rightarrow> milliseconds \<Rightarrow> Params" where
  "set_advertise_period self new_period = self\<lparr>advertise_period := new_period\<rparr>"

definition set_consensus_nodes :: "Params \<Rightarrow> nat \<Rightarrow> Params" where
  "set_consensus_nodes self n_consensus = self\<lparr>consensus_nodes := n_consensus\<rparr>"

definition set_epoch_period :: "Params \<Rightarrow> milliseconds \<Rightarrow> Params" where
  "set_epoch_period self new_period = self\<lparr>epoch_period := new_period\<rparr>"

section \<open>Messages\<close>

record NodeState =
  node_offsets :: "KeyRange \<rightharpoonup> KeyOffset"

datatype 'p Outbox =
    Outbox_State NodeState
  | Outbox_RequestMissingTxs 'p "U64BlobIdClosedInterval list"
  | Outbox_RequestedTxsForPeer 'p "Transaction list"

datatype 'p Inbox =
    Inbox_State 'p NodeState
  | Inbox_Nodes "'p set"
  | Inbox_NewTransaction Transaction
  | Inbox_RequestMissingTxs 'p "U64BlobIdClosedInterval list"
  | Inbox_MissingTx "Transaction list"

datatype Request = GetState

record CurrentOffsets =
  current_self_offsets :: "KeyRange \<rightharpoonup> KeyOffset"
  current_consensus_offset :: "KeyRange \<rightharpoonup> KeyOffset"

datatype Response = Response_State CurrentOffsets

section \<open>Sending into a channel\<close>

text \<open>
  A channel is the crate \<open>tokio\<close>'s; a send fails exactly when the receiving end was dropped, which
  the flag \<open>alive\<close> tells. \<open>Endpoint::send\<close> logs a failure and goes on; \<open>sender.send(..).expect(..)\<close>
  panics. The result is what enters the channel.
\<close>

definition endpoint_send :: "bool \<Rightarrow> 'm \<Rightarrow> 'm list" where
  "endpoint_send alive message = (if alive then [message] else [])"

definition send_expect :: "bool \<Rightarrow> 'm \<Rightarrow> panic + 'm list" where
  "send_expect alive message = (if alive then Inr [message] else Inl ChannelDropped)"

fun send_all_expect :: "bool \<Rightarrow> 'm list \<Rightarrow> panic + 'm list" where
  "send_all_expect alive [] = Inr []"
| "send_all_expect alive (m # ms) =
     rbind (send_expect alive m) (\<lambda>sent.
     rbind (send_all_expect alive ms) (\<lambda>more. Inr (sent @ more)))"

lemma send_all_expect_alive [simp]: "send_all_expect True ms = Inr ms"
  by (induction ms) (simp_all add: send_expect_def)

end
