(* ===== verification/Node_App.thy ===== *)
theory Node_App
  imports Node_Interface
begin

text \<open>
  The application of a maroon node (\<open>maroon/src/app/app.rs\<close>: \<open>App\<close> and its methods): its state, the
  handlers of its four kinds of events, and the event loop. \<open>'p\<close> is the type of peer ids, \<open>'l\<close> that
  of the linearizer, whose \<open>new_epoch\<close> is an argument of what uses it, as is \<open>sha256\<close>.

  A handler returns \<open>None\<close> when it does not return, \<open>Some (Inl p)\<close> when it panics with \<open>p\<close>, and
  \<open>Some (Inr (s, out))\<close> with the new state and the messages sent to the network layer. \<open>alive\<close> says
  whether the network layer still holds its end of the channel. Arguments named \<open>ks\<close>, \<open>ro\<close>, \<open>po\<close>,
  \<open>dos\<close> and \<open>co\<close> are the iteration orders of the hash maps the handler goes through.
\<close>

section \<open>State\<close>

record ('p, 'l) App =
  params :: Params
  peer_id :: 'p
  self_offsets :: "KeyRange \<rightharpoonup> KeyOffset"
  offsets :: "'p offset_table"
  consensus_offset :: "KeyRange \<rightharpoonup> KeyOffset"
  commited_offsets :: "KeyRange \<rightharpoonup> KeyOffset"
  epochs :: "Epoch list"
  transactions :: tx_map
  linearizer :: 'l

definition App_new :: "'p \<Rightarrow> Params \<Rightarrow> ('p, LogLineriazer) App" where
  "App_new peer prms =
     \<lparr>params = prms, peer_id = peer, self_offsets = Map.empty, offsets = Map.empty,
      consensus_offset = Map.empty, commited_offsets = Map.empty, epochs = [],
      transactions = Map.empty, linearizer = LogLineriazer_new\<rparr>"

section \<open>Handlers\<close>

text \<open>The entries of \<open>offsets\<close> as its iterators yield them.\<close>

definition offsets_entries ::
    "KeyRange list \<Rightarrow> (KeyRange \<Rightarrow> 'p list) \<Rightarrow> 'p offset_table \<Rightarrow>
      (KeyRange \<times> ('p \<times> KeyOffset) list) list"
where
  "offsets_entries ro po offs = map (\<lambda>(r, nodes). (r, entries nodes (po r))) (entries offs ro)"

definition recalculate_consensus_offsets ::
    "KeyRange list \<Rightarrow> (KeyRange \<Rightarrow> 'p list) \<Rightarrow> ('p, 'l) App \<Rightarrow> ('p, 'l) App" where
  "recalculate_consensus_offsets ro po self =
     self\<lparr>consensus_offset :=
       fold (\<lambda>(k, v) m. case consensus_maximum v (consensus_nodes (params self)) of
               Some maximum \<Rightarrow> m(k \<mapsto> maximum) | None \<Rightarrow> m)
         (offsets_entries ro po (offsets self)) (consensus_offset self)\<rparr>"

text \<open>\<open>recalculate_order\<close>: the position of the node among all live nodes; the value is only logged.\<close>

definition recalculate_order :: "'p :: linorder \<Rightarrow> 'p set \<Rightarrow> panic + nat" where
  "recalculate_order self_id ids =
     (let peer_ids = sorted_list_of_set ids in
      if self_id \<in> set peer_ids
      then Inr (length (takeWhile (\<lambda>e. e \<noteq> self_id) peer_ids)) else Inl NoSelfPeer)"

text \<open>
  Collecting the requested transactions: where one is not stored the code continues its loop
  without moving the pointer, so the loop does not return.
\<close>

partial_function (option) collect_interval ::
    "tx_map \<Rightarrow> u64 \<Rightarrow> u64 \<Rightarrow> Transaction list \<Rightarrow> (panic + Transaction list) option"
where
  "collect_interval txs pointer last_id response =
     (if pointer \<le> last_id then
        (case txs pointer of
           None \<Rightarrow> collect_interval txs pointer last_id response
         | Some tx \<Rightarrow>
             (case u64_add pointer 1 of
                Inl p \<Rightarrow> Some (Inl p)
              | Inr next_pointer \<Rightarrow> collect_interval txs next_pointer last_id (response @ [tx])))
      else Some (Inr response))"

fun collect_intervals ::
    "tx_map \<Rightarrow> U64BlobIdClosedInterval list \<Rightarrow> Transaction list \<Rightarrow> (panic + Transaction list) option"
where
  "collect_intervals txs [] response = Some (Inr response)"
| "collect_intervals txs (interval # is) response =
     (case collect_interval txs (interval_start interval) (interval_end interval) response of
        None \<Rightarrow> None
      | Some (Inl p) \<Rightarrow> Some (Inl p)
      | Some (Inr response) \<Rightarrow> collect_intervals txs is response)"

definition handle_request_missing ::
    "bool \<Rightarrow> tx_map \<Rightarrow> 'p \<Rightarrow> U64BlobIdClosedInterval list \<Rightarrow> (panic + 'p Outbox list) option" where
  "handle_request_missing alive txs peer intervals =
     (case sum_ids_count 0 intervals of
        Inl p \<Rightarrow> Some (Inl p)
      | Inr capacity \<Rightarrow>
          (case collect_intervals txs intervals [] of
             None \<Rightarrow> None
           | Some (Inl p) \<Rightarrow> Some (Inl p)
           | Some (Inr response) \<Rightarrow>
               Some (send_expect alive (Outbox_RequestedTxsForPeer peer response))))"

text \<open>The offsets that changed are moved in \<open>offsets\<close> as well.\<close>

definition move_pointers ::
    "'p \<Rightarrow> (KeyRange \<times> KeyOffset) list \<Rightarrow> 'p offset_table \<Rightarrow> 'p offset_table" where
  "move_pointers peer updates offs = fold (\<lambda>(r, v) offs. move_offset_pointer offs peer r v) updates offs"

fun handle_inbox_message ::
    "bool \<Rightarrow> KeyRange list \<Rightarrow> ('p :: linorder) Inbox \<Rightarrow> ('p, 'l) App \<Rightarrow>
      (panic + ('p, 'l) App \<times> 'p Outbox list) option"
where
  "handle_inbox_message alive ks (Inbox_State peer state) self =
     Some (Inr (self\<lparr>offsets :=
       fold (\<lambda>(k, v) offs. case offs k of
               Some in_map \<Rightarrow> offs(k \<mapsto> in_map(peer \<mapsto> v))
             | None \<Rightarrow> offs(k \<mapsto> [peer \<mapsto> v]))
         (entries (node_offsets state) ks) (offsets self)\<rparr>, []))"
| "handle_inbox_message alive ks (Inbox_Nodes nodes) self =
     Some (rbind (recalculate_order (peer_id self) nodes) (\<lambda>delay_factor. Inr (self, [])))"
| "handle_inbox_message alive ks (Inbox_NewTransaction tx) self =
     Some (rbind (update_self_offset ks (self_offsets self) (transactions self) tx)
       (\<lambda>(so, txs, update).
         Inr (self\<lparr>self_offsets := so, transactions := txs,
           offsets := (case update of
               Some (new_range, new_offset) \<Rightarrow>
                 move_offset_pointer (offsets self) (peer_id self) new_range new_offset
             | None \<Rightarrow> offsets self)\<rparr>, [])))"
| "handle_inbox_message alive ks (Inbox_MissingTx txs) self =
     Some (rbind (txs_to_range_tx_map txs) (\<lambda>range_transactions.
       rbind (update_self_offsets (self_offsets self) (transactions self)
                (entries range_transactions ks))
         (\<lambda>(so, txs, updates).
           Inr (self\<lparr>self_offsets := so, transactions := txs,
             offsets := move_pointers (peer_id self) updates (offsets self)\<rparr>, []))))"
| "handle_inbox_message alive ks (Inbox_RequestMissingTxs peer intervals) self =
     map_option (\<lambda>r. rbind r (\<lambda>out. Inr (self, out)))
       (handle_request_missing alive (transactions self) peer intervals)"

definition advertise_offsets_and_request_missing ::
    "bool \<Rightarrow> KeyRange list \<Rightarrow> (KeyRange \<Rightarrow> 'p list) \<Rightarrow> 'p list \<Rightarrow> ('p, 'l) App \<Rightarrow>
      panic + (('p, 'l) App \<times> 'p Outbox list)"
where
  "advertise_offsets_and_request_missing alive ro po dos self =
     (let self = recalculate_consensus_offsets ro po self;
          out = endpoint_send alive (Outbox_State \<lparr>node_offsets = self_offsets self\<rparr>) in
      rbind (self_delays (transactions self) (self_offsets self)
               (offsets_entries ro po (offsets self))) (\<lambda>delays.
        if entries delays dos = [] then Inr (self, out)
        else
          rbind (send_all_expect alive
                   (map (\<lambda>(p, is). Outbox_RequestMissingTxs p is) (entries delays dos)))
            (\<lambda>sent. Inr (self, out @ sent))))"

definition handle_request :: "Request \<Rightarrow> ('p, 'l) App \<Rightarrow> Response" where
  "handle_request req self =
     (case req of GetState \<Rightarrow>
        Response_State \<lparr>current_self_offsets = self_offsets self,
          current_consensus_offset = consensus_offset self\<rparr>)"

definition commit_epoch_if_needed ::
    "('l \<Rightarrow> Epoch \<Rightarrow> panic + 'l) \<Rightarrow> (u8 list \<Rightarrow> u8 list) \<Rightarrow> KeyRange list \<Rightarrow> ('p, 'l) App \<Rightarrow>
      panic + ('p, 'l) App"
where
  "commit_epoch_if_needed new_epoch sha256 co self =
     rbind (calculate_epoch_increments (entries (consensus_offset self) co) (commited_offsets self))
       (\<lambda>incs.
     let prev_hash = (if epochs self = [] then None else Some (hash (last (epochs self))));
         epoch = Epoch_new sha256 incs prev_hash in
     rbind (new_epoch (linearizer self) epoch) (\<lambda>lin.
     rbind (record_commits (commited_offsets self) (increments epoch)) (\<lambda>commited.
       Inr (self\<lparr>linearizer := lin, commited_offsets := commited,
         epochs := epochs self @ [epoch]\<rparr>))))"

section \<open>The event loop\<close>

text \<open>
  \<open>tokio::select!\<close> picks any of the branches that are ready, so a run of the loop is a sequence of
  events, each with the iteration orders its handler meets.
\<close>

datatype 'p event =
    AdvertiseTick "KeyRange list" "KeyRange \<Rightarrow> 'p list" "'p list"
  | EpochTick "KeyRange list"
  | StateRequest Request
  | Payload "KeyRange list" "'p Inbox"
  | Shutdown

record ('p, 'l) run_state =
  app :: "('p, 'l) App"
  sent :: "'p Outbox list"
  responses :: "Response list"

fun app_step ::
    "('l \<Rightarrow> Epoch \<Rightarrow> panic + 'l) \<Rightarrow> (u8 list \<Rightarrow> u8 list) \<Rightarrow> bool \<Rightarrow> ('p :: linorder) event \<Rightarrow>
      ('p, 'l) App \<Rightarrow> (panic + ('p, 'l) App \<times> 'p Outbox list \<times> Response list) option"
where
  "app_step new_epoch sha256 alive (AdvertiseTick ro po dos) s =
     Some (rbind (advertise_offsets_and_request_missing alive ro po dos s) (\<lambda>(s, out).
       Inr (s, out, [])))"
| "app_step new_epoch sha256 alive (EpochTick co) s =
     Some (rbind (commit_epoch_if_needed new_epoch sha256 co s) (\<lambda>s. Inr (s, [], [])))"
| "app_step new_epoch sha256 alive (StateRequest req) s =
     Some (Inr (s, [], [handle_request req s]))"
| "app_step new_epoch sha256 alive (Payload ks msg) s =
     map_option (\<lambda>r. rbind r (\<lambda>(s, out). Inr (s, out, []))) (handle_inbox_message alive ks msg s)"
| "app_step new_epoch sha256 alive Shutdown s = Some (Inr (s, [], []))"

fun loop_until_shutdown ::
    "('l \<Rightarrow> Epoch \<Rightarrow> panic + 'l) \<Rightarrow> (u8 list \<Rightarrow> u8 list) \<Rightarrow> bool \<Rightarrow> ('p :: linorder) event list \<Rightarrow>
      ('p, 'l) run_state \<Rightarrow> (panic + ('p, 'l) run_state) option"
where
  "loop_until_shutdown new_epoch sha256 alive [] rs = Some (Inr rs)"
| "loop_until_shutdown new_epoch sha256 alive (Shutdown # es) rs = Some (Inr rs)"
| "loop_until_shutdown new_epoch sha256 alive (e # es) rs =
     (case app_step new_epoch sha256 alive e (app rs) of
        None \<Rightarrow> None
      | Some (Inl p) \<Rightarrow> Some (Inl p)
      | Some (Inr (s, out, resp)) \<Rightarrow>
          loop_until_shutdown new_epoch sha256 alive es
            (rs\<lparr>app := s, sent := sent rs @ out, responses := responses rs @ resp\<rparr>))"

end
