(* ===== verification/Node_Invariant.thy ===== *)
theory Node_Invariant
  imports Node_App
begin

text \<open>
  The invariant of a node's application and its preservation by every handler; the same lemmas
  show that, on input the protocol allows, no handler panics and none hangs.
\<close>

section \<open>Answering a request\<close>

lemma collect_interval_all:
  assumes "\<forall>k. p \<le> k \<longrightarrow> k \<le> e \<longrightarrow> has_tx txs k" and "unat e < 18446744073709551615"
  shows "collect_interval txs p e resp = Some (Inr (resp @ map (the \<circ> txs) (ids_between p e)))"
  using assms
proof (induction p e arbitrary: resp rule: iter_from.induct)
  case (1 p e)
  show ?case
  proof (cases "p \<le> e")
    case True
    then obtain n where n: "u64_add p 1 = Inr n"
      using "1.prems"(2) by (cases "u64_add p 1") (auto simp: u64_add_Inl unat_simps)
    then have "p \<le> n" by (simp add: res_simps unat_simps)
    obtain tx where tx: "txs p = Some tx" using "1.prems"(1) True by (auto simp: has_tx_def)
    have "collect_interval txs n e (resp @ [tx]) =
        Some (Inr ((resp @ [tx]) @ map (the \<circ> txs) (ids_between n e)))"
      using "1.IH" [OF True n] "1.prems" \<open>p \<le> n\<close> by (meson order_trans)
    then show ?thesis
      by (subst collect_interval.simps) (simp add: True n tx ids_between_simps(2) [OF True n])
  next
    case False
    then show ?thesis by (subst collect_interval.simps) (simp add: ids_between_simps)
  qed
qed

lemma collect_interval_stored:
  assumes "collect_interval txs p e resp = Some res"
  shows "\<forall>k. p \<le> k \<longrightarrow> k \<le> e \<longrightarrow> has_tx txs k"
proof (rule collect_interval.raw_induct [where P = "\<lambda>txs p e _ _. \<forall>k. p \<le> k \<longrightarrow> k \<le> e \<longrightarrow> has_tx txs k",
      OF _ assms])
  fix f txs p e resp res
  assume IH: "\<And>txs p e resp res. f txs p e resp = Some res \<Longrightarrow> \<forall>k. p \<le> k \<longrightarrow> k \<le> e \<longrightarrow> has_tx txs k"
    and eq: "(if p \<le> e then case txs p of None \<Rightarrow> f txs p e resp
        | Some tx \<Rightarrow> (case u64_add p 1 of Inl pn \<Rightarrow> Some (Inl pn) | Inr n \<Rightarrow> f txs n e (resp @ [tx]))
       else Some (Inr resp)) = Some res"
  show "\<forall>k. p \<le> k \<longrightarrow> k \<le> e \<longrightarrow> has_tx txs k"
  proof (cases "p \<le> e")
    case True
    show ?thesis
    proof (cases "txs p")
      case None
      with eq True IH show ?thesis by simp
    next
      case (Some tx)
      then have here: "has_tx txs p" by (simp add: has_tx_def)
      show ?thesis
      proof (cases "u64_add p 1")
        case (Inl pn)
        then have "k = p" if "p \<le> k" for k
          using that unat_less_u64 [of k] by (auto simp: u64_add_Inl unat_simps intro: u64_eqI)
        with here show ?thesis by blast
      next
        case (Inr n)
        with eq True Some IH have rest: "\<forall>k. n \<le> k \<longrightarrow> k \<le> e \<longrightarrow> has_tx txs k" by auto
        have "n \<le> k" if "p \<le> k" "k \<noteq> p" for k
          using that Inr by (auto simp: res_simps unat_simps word_unat_eq_iff)
        with here rest show ?thesis by metis
      qed
    qed
  qed auto
qed

definition all_stored :: "tx_map \<Rightarrow> U64BlobIdClosedInterval list \<Rightarrow> bool" where
  "all_stored txs is \<longleftrightarrow> (\<forall>k \<in> set (ids_of is). has_tx txs k)"

lemma all_stored_Cons:
  "all_stored txs (i # is) \<longleftrightarrow>
     (\<forall>k. left i \<le> k \<longrightarrow> k \<le> right i \<longrightarrow> has_tx txs k) \<and> all_stored txs is"
  by (auto simp: all_stored_def set_interval_ids)

lemma collect_intervals_all:
  assumes "all_stored txs is" and "\<forall>i \<in> set is. valid_id (right i)"
  shows "collect_intervals txs is resp = Some (Inr (resp @ map (the \<circ> txs) (ids_of is)))"
  using assms
proof (induction "is" arbitrary: resp)
  case (Cons i "is")
  then have "collect_interval txs (left i) (right i) resp =
      Some (Inr (resp @ map (the \<circ> txs) (interval_ids i)))"
    unfolding interval_ids_def all_stored_Cons
    by (intro collect_interval_all) (auto simp: valid_id_def)
  with Cons show ?case by (simp add: all_stored_Cons)
qed simp

lemma collect_intervals_returns:
  "collect_intervals txs is resp = Some (Inr res) \<Longrightarrow> all_stored txs is"
proof (induction "is" arbitrary: resp)
  case (Cons i "is")
  from Cons.prems obtain resp' where
    "collect_interval txs (left i) (right i) resp = Some (Inr resp')"
    "collect_intervals txs is resp' = Some (Inr res)"
    by (auto split: option.splits sum.splits)
  with Cons.IH collect_interval_stored show ?case unfolding all_stored_Cons by blast
qed (simp add: all_stored_def)

lemma handle_request_missing_all:
  assumes "committable is" and "all_stored txs is"
  shows "handle_request_missing True txs p is =
    Some (Inr [Outbox_RequestedTxsForPeer p (map (the \<circ> txs) (ids_of is))])"
proof -
  obtain n where "sum_ids_count 0 is = Inr n"
    using sum_ids_count_returns [of "is" 0] committable_few_ids [OF assms(1)] assms(1)
    by (auto simp: committable_def)
  moreover have "collect_intervals txs is [] = Some (Inr (map (the \<circ> txs) (ids_of is)))"
    using collect_intervals_all [OF assms(2), of "[]"] assms(1) by (simp add: committable_def)
  ultimately show ?thesis by (simp add: handle_request_missing_def send_expect_def)
qed

section \<open>Moving pointers\<close>

lemma move_pointers_simps [simp]:
  "move_pointers q [] offs = offs"
  "move_pointers q ((r, v) # ups) offs = move_pointers q ups (move_offset_pointer offs q r v)"
  by (simp_all add: move_pointers_def)

lemma offset_of_move_pointers:
  "distinct (map fst ups) \<Longrightarrow> offset_of (move_pointers q ups offs) r p =
     (if p = q then case map_of ups r of Some v \<Rightarrow> Some v | None \<Rightarrow> offset_of offs r p
      else offset_of offs r p)"
proof (induction ups arbitrary: offs)
  case (Cons u ups)
  obtain r' v where u: "u = (r', v)" by (cases u)
  moreover from this Cons.prems have "map_of ups r' = None" by (simp add: map_of_eq_None_iff)
  ultimately show ?case using Cons by (simp split: option.split)
qed simp

definition table_ok :: "'p offset_table \<Rightarrow> bool" where
  "table_ok offs \<longleftrightarrow> finite (dom offs) \<and> (\<forall>r nodes. offs r = Some nodes \<longrightarrow> finite (dom nodes)) \<and>
     (\<forall>r p v. offset_of offs r p = Some v \<longrightarrow> valid_pos r v)"

lemma table_ok_move: "table_ok offs \<Longrightarrow> valid_pos r v \<Longrightarrow> table_ok (move_offset_pointer offs q r v)"
  by (auto simp: table_ok_def split: if_splits)
    (auto simp: move_offset_pointer_def split: option.splits if_splits)

lemma table_ok_move_pointers:
  "table_ok offs \<Longrightarrow> \<forall>(r, v) \<in> set ups. valid_pos r v \<Longrightarrow> table_ok (move_pointers q ups offs)"
  by (induction ups arbitrary: offs) (auto simp: table_ok_move)

lemma inbox_state_loop:
  "fold (\<lambda>(k, v) offs. case offs k of
       Some in_map \<Rightarrow> offs(k \<mapsto> in_map(peer \<mapsto> v)) | None \<Rightarrow> offs(k \<mapsto> [peer \<mapsto> v])) kvs offs =
     move_pointers peer kvs offs"
  unfolding move_pointers_def
  by (rule fold_cong) (auto simp: move_offset_pointer_def split: option.split)

section \<open>The consensus offsets\<close>

lemma fold_upd_distinct:
  "distinct (map fst kvs) \<Longrightarrow>
     fold (\<lambda>(k, v) m. case f v of Some x \<Rightarrow> m(k \<mapsto> x) | None \<Rightarrow> m) kvs m r =
       (case map_of kvs r of None \<Rightarrow> m r
        | Some v \<Rightarrow> (case f v of None \<Rightarrow> m r | Some x \<Rightarrow> Some x))"
proof (induction kvs arbitrary: m)
  case (Cons kv kvs)
  obtain k v where kv: "kv = (k, v)" by (cases kv)
  show ?case
  proof (cases "r = k")
    case True
    then have "map_of kvs r = None" using Cons.prems kv by (simp add: map_of_eq_None_iff)
    with Cons True show ?thesis by (simp add: kv split: option.split)
  next
    case False
    with Cons show ?thesis by (simp add: kv split: option.split)
  qed
qed simp

lemma map_of_offsets_entries:
  assumes "key_order offs ro"
  shows "map fst (offsets_entries ro po offs) = ro"
    and "map_of (offsets_entries ro po offs) r = map_option (\<lambda>nodes. entries nodes (po r)) (offs r)"
proof -
  have *: "map_of (map (\<lambda>(r, nodes). (r, entries nodes (po r))) kvs) r =
      map_option (\<lambda>nodes. entries nodes (po r)) (map_of kvs r)" for kvs
    by (induction kvs) auto
  show "map_of (offsets_entries ro po offs) r = map_option (\<lambda>nodes. entries nodes (po r)) (offs r)"
    unfolding offsets_entries_def * map_of_entries [OF assms] ..
  show "map fst (offsets_entries ro po offs) = ro"
    using key_orderD(3) [OF assms] by (simp add: offsets_entries_def comp_def case_prod_unfold)
qed

lemma recalculate_consensus_offset:
  assumes "key_order (offsets s) ro"
  shows "consensus_offset (recalculate_consensus_offsets ro po s) r =
    (case offsets s r of None \<Rightarrow> consensus_offset s r
     | Some nodes \<Rightarrow>
         (case consensus_maximum (entries nodes (po r)) (consensus_nodes (params s)) of
            None \<Rightarrow> consensus_offset s r | Some v \<Rightarrow> Some v))"
proof -
  have "distinct (map fst (offsets_entries ro po (offsets s)))"
    using map_of_offsets_entries(1) [OF assms] key_orderD(1) [OF assms] by simp
  then show ?thesis
    unfolding recalculate_consensus_offsets_def
    by (simp add: fold_upd_distinct map_of_offsets_entries(2) [OF assms] split: option.split)
qed

section \<open>The invariant\<close>

text \<open>
  \<^item> \<open>store_inv\<close>: transactions are stored under their ids, and the node's own offsets are sound;
  \<^item> \<open>table_inv\<close>: the offset table is finite, has positions of accepted ids only, and knows the
    node's own offsets;
  \<^item> \<open>log_inv\<close>: consensus and committed offsets are positions of accepted ids, and the log of the
    linearizer matches the committed offsets.
\<close>

definition store_inv :: "('p, 'l) App \<Rightarrow> bool" where
  "store_inv s \<longleftrightarrow> tx_map_wf (transactions s) \<and> offsets_sound (self_offsets s) (transactions s)"

definition table_inv :: "('p, 'l) App \<Rightarrow> bool" where
  "table_inv s \<longleftrightarrow> table_ok (offsets s) \<and>
     (\<forall>r. offset_of (offsets s) r (peer_id s) = self_offsets s r)"

definition log_inv :: "('l \<Rightarrow> UniqueU64BlobId list) \<Rightarrow> ('p, 'l) App \<Rightarrow> bool" where
  "log_inv log_of s \<longleftrightarrow> finite (dom (consensus_offset s)) \<and> valid_offsets (consensus_offset s) \<and>
     valid_offsets (commited_offsets s) \<and> log_matches (commited_offsets s) (log_of (linearizer s))"

definition app_inv :: "('l \<Rightarrow> UniqueU64BlobId list) \<Rightarrow> ('p, 'l) App \<Rightarrow> bool" where
  "app_inv log_of s \<longleftrightarrow> 0 < consensus_nodes (params s) \<and> store_inv s \<and> table_inv s \<and> log_inv log_of s"

lemma offsets_sound_valid: "offsets_sound so txs \<Longrightarrow> valid_offsets so"
  by (auto simp: offsets_sound_def valid_offsets_def)

lemma log_matches_empty: "log_matches Map.empty []"
  by (simp add: log_matches_def)

lemma app_inv_new: "0 < consensus_nodes prms \<Longrightarrow> app_inv sequence (App_new p prms)"
  by (simp add: app_inv_def App_new_def store_inv_def table_inv_def log_inv_def tx_map_wf_def
      offsets_sound_def table_ok_def offset_of_def valid_offsets_def LogLineriazer_new_def
      log_matches_empty)

section \<open>New transactions\<close>

text \<open>The state after storing \<open>ts\<close>, as the two handlers that store compute it.\<close>

definition stored :: "Transaction list \<Rightarrow> (KeyRange \<times> KeyOffset) list \<Rightarrow> ('p, 'l) App \<Rightarrow> ('p, 'l) App" where
  "stored ts ups s = s\<lparr>self_offsets := self_offsets s ++ map_of ups,
     transactions := store_all (transactions s) ts,
     offsets := move_pointers (peer_id s) ups (offsets s)\<rparr>"

lemma stored_sel [simp]:
  "params (stored ts ups s) = params s"
  "peer_id (stored ts ups s) = peer_id s"
  "self_offsets (stored ts ups s) = self_offsets s ++ map_of ups"
  "consensus_offset (stored ts ups s) = consensus_offset s"
  "commited_offsets (stored ts ups s) = commited_offsets s"
  "epochs (stored ts ups s) = epochs s"
  "transactions (stored ts ups s) = store_all (transactions s) ts"
  "linearizer (stored ts ups s) = linearizer s"
  "offsets (stored ts ups s) = move_pointers (peer_id s) ups (offsets s)"
  by (simp_all add: stored_def)

lemma stored_inv:
  assumes "app_inv log_of s" and "\<forall>t \<in> set ts. valid_id (tx_id t)" and "distinct (map fst ups)"
    and "offsets_sound (self_offsets s ++ map_of ups) (store_all (transactions s) ts)"
  shows "app_inv log_of (stored ts ups s)"
proof -
  have "valid_pos r v" if "(r, v) \<in> set ups" for r v
  proof -
    have "(self_offsets s ++ map_of ups) r = Some v" using that assms(3) by simp
    then show ?thesis using assms(4) by (simp add: offsets_sound_def)
  qed
  then have "table_ok (move_pointers (peer_id s) ups (offsets s))"
    using assms(1) by (intro table_ok_move_pointers) (auto simp: app_inv_def table_inv_def)
  moreover have "offset_of (move_pointers (peer_id s) ups (offsets s)) r (peer_id s) =
      (self_offsets s ++ map_of ups) r" for r
    using assms(1)
    by (simp add: offset_of_move_pointers [OF assms(3)] app_inv_def table_inv_def map_add_def
        split: option.split)
  ultimately show ?thesis
    using assms store_all_wf
    by (simp add: app_inv_def stored_def store_inv_def table_inv_def log_inv_def)
qed

lemma update_self_offsets_stored:
  assumes "app_inv log_of s" and "\<forall>t \<in> set ts. valid_id (tx_id t)" and "key_order (buckets ts) ks"
  obtains ts' ups where "set ts' = set ts" "distinct (map fst ups)"
    "set (map fst ups) \<subseteq> set ks"
    "update_self_offsets (self_offsets s) (transactions s) (entries (buckets ts) ks) =
       Inr (self_offsets (stored ts' ups s), transactions (stored ts' ups s), ups)"
    "app_inv log_of (stored ts' ups s)"
proof -
  let ?rts = "entries (buckets ts) ks"
  have wf: "tx_map_wf (transactions s)" "offsets_sound (self_offsets s) (transactions s)"
    using assms(1) by (simp_all add: app_inv_def store_inv_def)
  note rounds = rounds_of_buckets [OF assms(2,3)]
  have fst: "map fst ?rts = ks" by (rule key_orderD(3) [OF assms(3)])
  then have "distinct (map fst ?rts)" using key_orderD(1) [OF assms(3)] by simp
  from update_self_offsets_sound [OF wf rounds(1) this] obtain so' ups where
    u: "update_self_offsets (self_offsets s) (transactions s) ?rts =
        Inr (so', store_all (transactions s) (txs_of_rounds ?rts), ups)"
      "offsets_sound so' (store_all (transactions s) (txs_of_rounds ?rts))"
      "so' = self_offsets s ++ map_of ups" "set (map fst ups) \<subseteq> set (map fst ?rts)"
      "distinct (map fst ups)"
    by blast
  have "app_inv log_of (stored (txs_of_rounds ?rts) ups s)"
    by (rule stored_inv [OF assms(1)]) (use u assms(2) rounds(2) in auto)
  with u rounds(2) fst that show thesis by (simp add: stored_def)
qed

section \<open>The handlers\<close>

text \<open>
  What the environment of a node guarantees: the orders are orders of the maps that are iterated;
  a state comes from another node and names positions of accepted ids; transactions have accepted
  ids; requests name stored ids, none twice; the node itself is among the live nodes.
\<close>

fun payload_ok :: "KeyRange list \<Rightarrow> 'p Inbox \<Rightarrow> ('p, 'l) App \<Rightarrow> bool" where
  "payload_ok ks (Inbox_State p st) s \<longleftrightarrow>
     p \<noteq> peer_id s \<and> valid_offsets (node_offsets st) \<and> key_order (node_offsets st) ks"
| "payload_ok ks (Inbox_Nodes ns) s \<longleftrightarrow> finite ns \<and> peer_id s \<in> ns"
| "payload_ok ks (Inbox_NewTransaction t) s \<longleftrightarrow> valid_id (tx_id t) \<and> key_order (buckets [t]) ks"
| "payload_ok ks (Inbox_MissingTx ts) s \<longleftrightarrow>
     (\<forall>t \<in> set ts. valid_id (tx_id t)) \<and> key_order (buckets ts) ks"
| "payload_ok ks (Inbox_RequestMissingTxs p is) s \<longleftrightarrow>
     committable is \<and> all_stored (transactions s) is"

text \<open>The transactions a message brings.\<close>

fun brought :: "'p Inbox \<Rightarrow> Transaction list" where
  "brought (Inbox_NewTransaction t) = [t]"
| "brought (Inbox_MissingTx ts) = ts"
| "brought _ = []"

text \<open>What a node knows of the others' offsets after a message: only a state changes it.\<close>

fun heard :: "'p Inbox \<Rightarrow> 'p offset_table \<Rightarrow> KeyRange \<Rightarrow> 'p \<Rightarrow> KeyOffset option" where
  "heard (Inbox_State p st) offs r q =
     (if q = p then case node_offsets st r of Some v \<Rightarrow> Some v | None \<Rightarrow> offset_of offs r q
      else offset_of offs r q)"
| "heard _ offs r q = offset_of offs r q"

lemma handle_new_transaction:
  assumes "app_inv log_of s" and "valid_id (tx_id t)" and "key_order (buckets [t]) ks"
  shows "\<exists>ts ups. set ts = {t} \<and> distinct (map fst ups) \<and> app_inv log_of (stored ts ups s) \<and>
    handle_inbox_message alive ks (Inbox_NewTransaction t) s = Some (Inr (stored ts ups s, []))"
proof -
  have valid: "\<forall>t' \<in> set [t]. valid_id (tx_id t')" using assms(2) by simp
  obtain ts ups where u: "set ts = set [t]" "distinct (map fst ups)" "set (map fst ups) \<subseteq> set ks"
    "update_self_offsets (self_offsets s) (transactions s) (entries (buckets [t]) ks) =
       Inr (self_offsets (stored ts ups s), transactions (stored ts ups s), ups)"
    "app_inv log_of (stored ts ups s)"
    by (rule update_self_offsets_stored [OF assms(1) valid assms(3)])
  have "dom (buckets [t]) = {block_of (tx_id t)}"
    by (auto simp: buckets_def bucket_of_def in_block_iff split: if_splits)
  then have "set (map fst ups) \<subseteq> {block_of (tx_id t)}" using u(3) key_orderD(2) [OF assms(3)] by simp
  then have "length (map fst ups) \<le> 1"
    using u(2) card_mono [of "{block_of (tx_id t)}" "set (map fst ups)"] distinct_card by fastforce
  then consider "ups = []" | r v where "ups = [(r, v)]"
    by (cases ups) (auto simp: Suc_le_eq)
  then have "handle_inbox_message alive ks (Inbox_NewTransaction t) s = Some (Inr (stored ts ups s, []))"
    by cases
      (use txs_to_range_tx_map_eq [OF valid] u(4) in
        \<open>simp_all add: update_self_offset_def stored_def\<close>)
  with u show ?thesis by auto
qed

lemma handle_missing_tx:
  assumes "app_inv log_of s" and "\<forall>t \<in> set ts. valid_id (tx_id t)" and "key_order (buckets ts) ks"
  shows "\<exists>ts' ups. set ts' = set ts \<and> distinct (map fst ups) \<and> app_inv log_of (stored ts' ups s) \<and>
    handle_inbox_message alive ks (Inbox_MissingTx ts) s = Some (Inr (stored ts' ups s, []))"
proof -
  obtain ts' ups where u: "set ts' = set ts" "distinct (map fst ups)" "set (map fst ups) \<subseteq> set ks"
    "update_self_offsets (self_offsets s) (transactions s) (entries (buckets ts) ks) =
       Inr (self_offsets (stored ts' ups s), transactions (stored ts' ups s), ups)"
    "app_inv log_of (stored ts' ups s)"
    by (rule update_self_offsets_stored [OF assms])
  then have "handle_inbox_message alive ks (Inbox_MissingTx ts) s = Some (Inr (stored ts' ups s, []))"
    by (simp add: txs_to_range_tx_map_eq [OF assms(2)] stored_def)
  with u show ?thesis by blast
qed

text \<open>The state after a message with offsets.\<close>

lemma handle_state:
  assumes "app_inv log_of s" and "payload_ok ks (Inbox_State p st) s"
  shows "\<exists>s'. handle_inbox_message alive ks (Inbox_State p st) s = Some (Inr (s', [])) \<and>
    app_inv log_of s' \<and> s' = s\<lparr>offsets := offsets s'\<rparr> \<and>
    (\<forall>r q. offset_of (offsets s') r q =
       (if q = p then case node_offsets st r of Some v \<Rightarrow> Some v | None \<Rightarrow> offset_of (offsets s) r q
        else offset_of (offsets s) r q))"
proof -
  let ?kvs = "entries (node_offsets st) ks"
  let ?s' = "s\<lparr>offsets := move_pointers p ?kvs (offsets s)\<rparr>"
  have ord: "key_order (node_offsets st) ks" and other: "p \<noteq> peer_id s"
    and valid: "valid_offsets (node_offsets st)"
    using assms(2) by simp_all
  note look = offset_of_move_pointers [OF key_orderD(4) [OF ord], of p "offsets s",
      unfolded map_of_entries [OF ord]]
  have "table_ok (move_pointers p ?kvs (offsets s))"
    using assms(1) valid
    by (intro table_ok_move_pointers) (auto simp: app_inv_def table_inv_def set_entries valid_offsets_def)
  then have "app_inv log_of ?s'"
    using assms(1) other by (simp add: app_inv_def store_inv_def table_inv_def log_inv_def look)
  then show ?thesis by (auto simp: inbox_state_loop look)
qed

lemma recalculate_order_returns:
  "finite ns \<Longrightarrow> p \<in> ns \<Longrightarrow> \<exists>n. recalculate_order p ns = Inr n"
  by (simp add: recalculate_order_def)

text \<open>
  Every message of a well-behaved environment is handled: the handler returns, keeps the
  invariant, stores what the message brings, and answers a request with exactly the transactions
  asked for.
\<close>

definition handled :: "('l \<Rightarrow> UniqueU64BlobId list) \<Rightarrow> 'p Inbox \<Rightarrow> ('p, 'l) App \<Rightarrow> ('p, 'l) App \<Rightarrow> bool" where
  "handled log_of msg s s' \<longleftrightarrow> app_inv log_of s' \<and>
     peer_id s' = peer_id s \<and> params s' = params s \<and> consensus_offset s' = consensus_offset s \<and>
     commited_offsets s' = commited_offsets s \<and> epochs s' = epochs s \<and> linearizer s' = linearizer s \<and>
     dom (transactions s') = dom (transactions s) \<union> tx_id ` set (brought msg) \<and>
     ran (transactions s') \<subseteq> ran (transactions s) \<union> set (brought msg) \<and>
     (\<forall>r q. q \<noteq> peer_id s \<longrightarrow> offset_of (offsets s') r q = heard msg (offsets s) r q)"

lemma stored_handled:
  assumes "app_inv log_of (stored ts ups s)" and "set ts = set (brought msg)" and "distinct (map fst ups)"
    and "\<And>r q. heard msg (offsets s) r q = offset_of (offsets s) r q"
  shows "handled log_of msg s (stored ts ups s)"
  using assms ran_store_all [of "transactions s" ts]
  by (simp add: handled_def dom_store_all offset_of_move_pointers)

definition answer :: "'p Inbox \<Rightarrow> tx_map \<Rightarrow> 'p Outbox list" where
  "answer msg txs = (case msg of
     Inbox_RequestMissingTxs p is \<Rightarrow> [Outbox_RequestedTxsForPeer p (map (the \<circ> txs) (ids_of is))]
   | _ \<Rightarrow> [])"

lemma handle_inbox_ok:
  assumes inv: "app_inv log_of s" and ok: "payload_ok ks msg s"
  shows "\<exists>s'. handle_inbox_message True ks msg s = Some (Inr (s', answer msg (transactions s))) \<and>
    handled log_of msg s s'"
proof (cases msg)
  case (Inbox_State p st)
  from handle_state [OF inv ok [unfolded Inbox_State], of True] obtain s' where
    s': "handle_inbox_message True ks (Inbox_State p st) s = Some (Inr (s', []))" "app_inv log_of s'"
      "s' = s\<lparr>offsets := offsets s'\<rparr>"
      "\<forall>r q. offset_of (offsets s') r q = heard (Inbox_State p st) (offsets s) r q"
    by auto
  have frame: "peer_id s' = peer_id s" "params s' = params s" "consensus_offset s' = consensus_offset s"
      "commited_offsets s' = commited_offsets s" "epochs s' = epochs s" "linearizer s' = linearizer s"
      "transactions s' = transactions s"
    by (subst s'(3), simp)+
  from s'(2,4) have "handled log_of msg s s'" by (simp add: handled_def frame Inbox_State)
  with s'(1) show ?thesis by (auto simp: Inbox_State answer_def simp del: handle_inbox_message.simps)
next
  case (Inbox_Nodes ns)
  then show ?thesis
    using ok inv recalculate_order_returns [of ns "peer_id s"] by (auto simp: answer_def handled_def)
next
  case (Inbox_NewTransaction t)
  then have t: "valid_id (tx_id t)" "key_order (buckets [t]) ks" using ok by simp_all
  obtain ts ups where "set ts = {t}" "distinct (map fst ups)" "app_inv log_of (stored ts ups s)"
    "handle_inbox_message True ks (Inbox_NewTransaction t) s = Some (Inr (stored ts ups s, []))"
    using handle_new_transaction [OF inv t] by blast
  moreover from this have "handled log_of msg s (stored ts ups s)"
    by (intro stored_handled) (simp_all add: Inbox_NewTransaction)
  ultimately show ?thesis by (auto simp: Inbox_NewTransaction answer_def simp del: handle_inbox_message.simps)
next
  case (Inbox_RequestMissingTxs p "is")
  then show ?thesis
    using ok inv handle_request_missing_all [of "is" "transactions s" p]
    by (auto simp: answer_def handled_def)
next
  case (Inbox_MissingTx ts)
  then have ts: "\<forall>t \<in> set ts. valid_id (tx_id t)" "key_order (buckets ts) ks" using ok by simp_all
  obtain ts' ups where "set ts' = set ts" "distinct (map fst ups)" "app_inv log_of (stored ts' ups s)"
    "handle_inbox_message True ks (Inbox_MissingTx ts) s = Some (Inr (stored ts' ups s, []))"
    using handle_missing_tx [OF inv ts] by blast
  moreover from this have "handled log_of msg s (stored ts' ups s)"
    by (intro stored_handled) (simp_all add: Inbox_MissingTx)
  ultimately show ?thesis by (auto simp: Inbox_MissingTx answer_def simp del: handle_inbox_message.simps)
qed

section \<open>Advertising\<close>

definition orders_ok :: "KeyRange list \<Rightarrow> (KeyRange \<Rightarrow> 'p list) \<Rightarrow> 'p offset_table \<Rightarrow> bool" where
  "orders_ok ro po offs \<longleftrightarrow> key_order offs ro \<and>
     (\<forall>r nodes. offs r = Some nodes \<longrightarrow> key_order nodes (po r))"

lemma offsets_entries_mem:
  assumes "orders_ok ro po offs" and "(r, nodes) \<in> set (offsets_entries ro po offs)"
    and "(p, v) \<in> set nodes"
  shows "offset_of offs r p = Some v"
  using assms by (auto simp: offsets_entries_def set_entries offset_of_def)

lemma offsets_entries_valid:
  assumes "table_ok offs" and "orders_ok ro po offs"
  shows "valid_nodes (offsets_entries ro po offs)"
    and "distinct (map fst (offsets_entries ro po offs))"
proof -
  show "valid_nodes (offsets_entries ro po offs)"
    unfolding valid_nodes_def using offsets_entries_mem [OF assms(2)] assms(1)
    unfolding table_ok_def by blast
  show "distinct (map fst (offsets_entries ro po offs))"
    using assms(2) map_of_offsets_entries(1) [of offs ro po] by (auto simp: orders_ok_def key_order_def)
qed

text \<open>A request the receiving node can answer: some offset it told covers it.\<close>

definition covered :: "'p offset_table \<Rightarrow> 'p \<Rightarrow> U64BlobIdClosedInterval \<Rightarrow> bool" where
  "covered offs p i \<longleftrightarrow> (\<exists>r v. offset_of offs r p = Some v \<and> valid_pos r v \<and> within r v i)"

lemma self_delays_requests:
  assumes "valid_offsets so" and "table_ok offs" and "orders_ok ro po offs"
  shows "\<exists>m. self_delays txs so (offsets_entries ro po offs) = Inr m \<and>
    (\<forall>p. ids_of (requested m p) = concat (map (delay_ids txs so p) (offsets_entries ro po offs))) \<and>
    (\<forall>p is. m p = Some is \<longrightarrow> committable is \<and> (\<forall>i \<in> set is. covered offs p i))"
proof -
  let ?offs = "offsets_entries ro po offs"
  note valid = offsets_entries_valid [OF assms(2,3)]
  obtain m where m: "self_delays txs so ?offs = Inr m"
    "\<forall>p. ids_of (requested m p) = concat (map (delay_ids txs so p) ?offs)"
    "\<forall>p. \<forall>i \<in> set (requested m p). served ?offs p i"
    using self_delays_eq [OF assms(1) valid(1), of txs] by blast
  have cov: "covered offs p i" if "served ?offs p i" for p i
    using that offsets_entries_mem [OF assms(3)] assms(2)
    unfolding served_def covered_def table_ok_def by blast
  have "committable is \<and> (\<forall>i \<in> set is. covered offs p i)" if "m p = Some is" for p "is"
  proof -
    have "is": "requested m p = is" using that by (simp add: requested_def)
    have "distinct (ids_of is)" using m(2) distinct_delay_ids [OF valid(2,1)] "is" by metis
    moreover have "\<forall>i \<in> set is. covered offs p i" using m(3) cov "is" by blast
    moreover from this have "\<forall>i \<in> set is. left i \<le> right i \<and> valid_id (right i)"
      by (auto simp: covered_def within_def valid_id_def valid_pos_def)
    ultimately show ?thesis by (simp add: committable_def)
  qed
  with m(1,2) show ?thesis by blast
qed

definition advertised :: "('p, 'l) App \<Rightarrow> ('p \<times> U64BlobIdClosedInterval list) list \<Rightarrow> 'p Outbox list" where
  "advertised s reqs = Outbox_State \<lparr>node_offsets = self_offsets s\<rparr> #
     map (\<lambda>(p, is). Outbox_RequestMissingTxs p is) reqs"

lemma recalculate_inv:
  assumes "app_inv log_of s" and "orders_ok ro po (offsets s)"
  shows "app_inv log_of (recalculate_consensus_offsets ro po s)"
proof -
  let ?s = "recalculate_consensus_offsets ro po s"
  have ord: "key_order (offsets s) ro" using assms(2) by (simp add: orders_ok_def)
  note look = recalculate_consensus_offset [OF ord, of po]
  have pos: "0 < consensus_nodes (params s)" using assms(1) by (simp add: app_inv_def)
  have "valid_pos r v" if "consensus_offset ?s r = Some v" for r v
  proof (cases "\<exists>nodes. offsets s r = Some nodes \<and>
      consensus_maximum (entries nodes (po r)) (consensus_nodes (params s)) = Some v")
    case True
    then obtain nodes p where "offsets s r = Some nodes" "(p, v) \<in> set (entries nodes (po r))"
      using consensus_maximum_mem [OF _ pos] by fastforce
    then have "offset_of (offsets s) r p = Some v" by (simp add: set_entries offset_of_def)
    then show ?thesis using assms(1) by (auto simp: app_inv_def table_inv_def table_ok_def)
  next
    case False
    then have "consensus_offset s r = Some v"
      using that by (auto simp: look split: option.splits)
    then show ?thesis using assms(1) by (auto simp: app_inv_def log_inv_def valid_offsets_def)
  qed
  moreover have "dom (consensus_offset ?s) \<subseteq> dom (consensus_offset s) \<union> dom (offsets s)"
    by (auto simp: look split: option.splits)
  then have "finite (dom (consensus_offset ?s))"
    using assms(1) finite_subset by (fastforce simp: app_inv_def log_inv_def table_inv_def table_ok_def)
  ultimately show ?thesis
    using assms(1)
    by (simp add: app_inv_def store_inv_def table_inv_def log_inv_def valid_offsets_def
        recalculate_consensus_offsets_def)
qed

lemma advertise_eq:
  "self_delays (transactions s) (self_offsets s) (offsets_entries ro po (offsets s)) = Inr m \<Longrightarrow>
    advertise_offsets_and_request_missing True ro po dos s =
      Inr (recalculate_consensus_offsets ro po s, advertised s (entries m dos))"
  by (simp add: advertise_offsets_and_request_missing_def Let_def advertised_def endpoint_send_def
      recalculate_consensus_offsets_def)

lemma advertise_ok:
  assumes inv: "app_inv log_of s" and ord: "orders_ok ro po (offsets s)"
    and dos: "\<forall>m. self_delays (transactions s) (self_offsets s) (offsets_entries ro po (offsets s)) = Inr m
      \<longrightarrow> key_order m dos"
  shows "\<exists>reqs. advertise_offsets_and_request_missing True ro po dos s =
      Inr (recalculate_consensus_offsets ro po s, advertised s reqs) \<and>
    app_inv log_of (recalculate_consensus_offsets ro po s) \<and>
    (\<forall>(p, is) \<in> set reqs. committable is \<and> (\<forall>i \<in> set is. covered (offsets s) p i))"
proof -
  have so: "valid_offsets (self_offsets s)" and tab: "table_ok (offsets s)"
    using inv offsets_sound_valid by (auto simp: app_inv_def store_inv_def table_inv_def)
  obtain m where m: "self_delays (transactions s) (self_offsets s)
      (offsets_entries ro po (offsets s)) = Inr m"
    "\<forall>p is. m p = Some is \<longrightarrow> committable is \<and> (\<forall>i \<in> set is. covered (offsets s) p i)"
    using self_delays_requests [OF so tab ord] by blast
  from advertise_eq [OF m(1), of dos] show ?thesis
    using m(2) recalculate_inv [OF inv ord]
    by (intro exI [of _ "entries m dos"]) (auto simp: set_entries)
qed

end
