(* ===== verification/Node_Run.thy ===== *)
theory Node_Run
  imports Node_Invariant
begin

text \<open>
  Committing an epoch, and whole runs of the event loop. What concerns the linearizer is proved
  once for any linearizer, in the locale of the trait.
\<close>

section \<open>Committing an epoch\<close>

text \<open>The epoch a node commits when its consensus offsets are iterated in the order \<open>co\<close>.\<close>

definition fresh :: "KeyRange list \<Rightarrow> ('p, 'l) App \<Rightarrow> (KeyRange \<times> KeyOffset) list" where
  "fresh co s = filter (progressed (commited_offsets s)) (entries (consensus_offset s) co)"

definition next_epoch :: "(u8 list \<Rightarrow> u8 list) \<Rightarrow> KeyRange list \<Rightarrow> ('p, 'l) App \<Rightarrow> Epoch" where
  "next_epoch sha256 co s = Epoch_new sha256
     (map (increment_of (commited_offsets s)) (fresh co s)) (last_hash None (epochs s))"

definition committed :: "(u8 list \<Rightarrow> u8 list) \<Rightarrow> KeyRange list \<Rightarrow> 'l \<Rightarrow> ('p, 'l) App \<Rightarrow> ('p, 'l) App" where
  "committed sha256 co lin s = s\<lparr>linearizer := lin,
     commited_offsets := commited_offsets s ++ map_of (fresh co s),
     epochs := epochs s @ [next_epoch sha256 co s]\<rparr>"

lemma fresh_ok:
  assumes "app_inv log_of s" and "key_order (consensus_offset s) co"
  shows "valid_offsets (commited_offsets s)" and "distinct (map fst (fresh co s))"
    and "\<forall>(r, v) \<in> set (fresh co s). valid_pos r v \<and> progressed (commited_offsets s) (r, v)"
  using assms key_orderD(4) [OF assms(2)]
  by (auto simp: fresh_def app_inv_def log_inv_def valid_offsets_def set_entries distinct_map_filter)

lemma map_of_fresh:
  assumes "key_order (consensus_offset s) co"
  shows "map_of (fresh co s) r = (case consensus_offset s r of
     Some v \<Rightarrow> if next_start (commited_offsets s) r < unat v then Some v else None | None \<Rightarrow> None)"
  using map_of_filter_distinct [OF key_orderD(4) [OF assms], of "progressed (commited_offsets s)" r]
  by (simp add: fresh_def map_of_entries [OF assms] progressed_def split: option.split)

lemma increments_next_epoch [simp]:
  "increments (next_epoch sha256 co s) = map (increment_of (commited_offsets s)) (fresh co s)"
  by (simp add: next_epoch_def)

lemma commit_epoch_eq:
  assumes "app_inv log_of s" and "key_order (consensus_offset s) co"
  shows "commit_epoch_if_needed new_epoch sha256 co s =
    rbind (new_epoch (linearizer s) (next_epoch sha256 co s)) (\<lambda>lin. Inr (committed sha256 co lin s))"
proof -
  have "\<forall>(r, v) \<in> set (entries (consensus_offset s) co). valid_pos r v"
    using assms(1) by (auto simp: app_inv_def log_inv_def valid_offsets_def set_entries)
  then have "calculate_epoch_increments (entries (consensus_offset s) co) (commited_offsets s) =
      Inr (increments (next_epoch sha256 co s))"
    using calculate_epoch_increments_eq [OF fresh_ok(1) [OF assms]] by (simp add: fresh_def)
  moreover have "record_commits (commited_offsets s) (increments (next_epoch sha256 co s)) =
      Inr (commited_offsets s ++ map_of (fresh co s))"
    using record_commits_eq [OF fresh_ok [OF assms]] by simp
  ultimately show ?thesis
    by (simp add: commit_epoch_if_needed_def Let_def committed_def last_hash_def
        next_epoch_def [symmetric, unfolded last_hash_def])
qed

context linearizer_trait begin

lemma commit_returns:
  assumes "app_inv log_of s" and "key_order (consensus_offset s) co"
  shows "\<exists>lin. commit_epoch_if_needed new_epoch sha256 co s = Inr (committed sha256 co lin s) \<and>
    app_inv log_of (committed sha256 co lin s)"
proof -
  note fresh = fresh_ok [OF assms]
  have "committable (increments (next_epoch sha256 co s))"
    using committable_increments [OF fresh] by simp
  then obtain lin where lin: "new_epoch (linearizer s) (next_epoch sha256 co s) = Inr lin"
    using new_epoch_returns by blast
  then obtain "is" where "is": "mset is = mset (map (increment_of (commited_offsets s)) (fresh co s))"
    "log_of lin = log_of (linearizer s) @ ids_of is"
    using new_epoch_appends by fastforce
  have log: "log_matches (commited_offsets s ++ map_of (fresh co s)) (log_of lin)"
    unfolding "is"(2) by (rule log_matches_commit [OF fresh "is"(1)])
      (use assms(1) in \<open>simp add: app_inv_def log_inv_def\<close>)
  have val: "valid_offsets (commited_offsets s ++ map_of (fresh co s))"
    using fresh(1,3) by (auto simp: valid_offsets_def map_add_Some_iff dest!: map_of_SomeD)
  have "app_inv log_of (committed sha256 co lin s)"
    using assms(1) log val
    by (simp add: app_inv_def store_inv_def table_inv_def log_inv_def committed_def)
  then show ?thesis by (auto simp: commit_epoch_eq [OF assms] lin)
qed

end

section \<open>One event\<close>

fun event_ok :: "'p event \<Rightarrow> ('p, 'l) App \<Rightarrow> bool" where
  "event_ok (AdvertiseTick ro po dos) s \<longleftrightarrow> orders_ok ro po (offsets s) \<and>
     (\<forall>m. self_delays (transactions s) (self_offsets s) (offsets_entries ro po (offsets s)) = Inr m
        \<longrightarrow> key_order m dos)"
| "event_ok (EpochTick co) s \<longleftrightarrow> key_order (consensus_offset s) co"
| "event_ok (Payload ks msg) s \<longleftrightarrow> payload_ok ks msg s"
| "event_ok _ s \<longleftrightarrow> True"

text \<open>What an event leaves alone or only lets grow.\<close>

definition grows :: "('p, 'l) App \<Rightarrow> ('p, 'l) App \<Rightarrow> bool" where
  "grows s s' \<longleftrightarrow> peer_id s' = peer_id s \<and> params s' = params s \<and>
     dom (transactions s) \<subseteq> dom (transactions s') \<and>
     (\<exists>new. epochs s' = epochs s @ new)"

lemma grows_refl [simp]: "grows s s"
  by (simp add: grows_def)

lemma grows_trans: "grows s s' \<Longrightarrow> grows s' s'' \<Longrightarrow> grows s s''"
  by (fastforce simp: grows_def)

text \<open>
  What an event does, as far as other nodes depend on it: what the node hears, what it says, and
  where its consensus and committed offsets come from.
\<close>

fun heard_event :: "'p event \<Rightarrow> 'p offset_table \<Rightarrow> KeyRange \<Rightarrow> 'p \<Rightarrow> KeyOffset option" where
  "heard_event (Payload ks msg) offs r q = heard msg offs r q"
| "heard_event _ offs r q = offset_of offs r q"

fun said :: "'p event \<Rightarrow> ('p, 'l) App \<Rightarrow> 'p Outbox \<Rightarrow> bool" where
  "said e s (Outbox_State st) \<longleftrightarrow> node_offsets st = self_offsets s"
| "said e s (Outbox_RequestMissingTxs p is) \<longleftrightarrow>
     committable is \<and> (\<forall>i \<in> set is. covered (offsets s) p i)"
| "said e s (Outbox_RequestedTxsForPeer p ts) \<longleftrightarrow>
     (\<exists>ks is. e = Payload ks (Inbox_RequestMissingTxs p is) \<and>
        ts = map (the \<circ> transactions s) (ids_of is))"

definition supported :: "('p, 'l) App \<Rightarrow> KeyRange \<Rightarrow> KeyOffset \<Rightarrow> bool" where
  "supported s r v \<longleftrightarrow>
     (\<exists>Q. finite Q \<and> consensus_nodes (params s) \<le> card Q \<and>
        (\<forall>q \<in> Q. \<exists>w. offset_of (offsets s) r q = Some w \<and> v \<le> w))"

definition effects :: "'p event \<Rightarrow> ('p, 'l) App \<Rightarrow> ('p, 'l) App \<Rightarrow> 'p Outbox list \<Rightarrow> bool" where
  "effects e s s' out \<longleftrightarrow> grows s s' \<and>
     (\<forall>r q. q \<noteq> peer_id s \<longrightarrow> offset_of (offsets s') r q = heard_event e (offsets s) r q) \<and>
     (\<forall>m \<in> set out. said e s m) \<and>
     (\<forall>r v. consensus_offset s' r = Some v \<longrightarrow> consensus_offset s r = Some v \<or> supported s r v) \<and>
     (\<forall>r v. commited_offsets s' r = Some v \<longrightarrow>
        commited_offsets s r = Some v \<or> consensus_offset s r = Some v)"

lemma recalculate_supported:
  assumes inv: "app_inv log_of s" and ord: "orders_ok ro po (offsets s)"
    and v: "consensus_offset (recalculate_consensus_offsets ro po s) r = Some v"
  shows "consensus_offset s r = Some v \<or> supported s r v"
proof (cases "\<exists>nodes. offsets s r = Some nodes \<and>
    consensus_maximum (entries nodes (po r)) (consensus_nodes (params s)) = Some v")
  case True
  then obtain nodes where nodes: "offsets s r = Some nodes"
    and max: "consensus_maximum (entries nodes (po r)) (consensus_nodes (params s)) = Some v" by blast
  have key: "key_order nodes (po r)" using ord nodes by (simp add: orders_ok_def)
  have pos: "0 < consensus_nodes (params s)" using inv by (simp add: app_inv_def)
  have "consensus_nodes (params s) \<le> card (supporters nodes v)"
    using consensus_maximum_supported [OF key pos max, of v] by blast
  moreover have "finite (supporters nodes v)"
    using calculation pos card.infinite by fastforce
  ultimately have "supported s r v"
    unfolding supported_def
    by (intro exI [of _ "supporters nodes v"]) (auto simp: supporters_def offset_of_def nodes)
  then show ?thesis ..
next
  case False
  moreover have "key_order (offsets s) ro" using ord by (simp add: orders_ok_def)
  ultimately show ?thesis
    using v by (auto simp: recalculate_consensus_offset split: option.splits)
qed

lemma handled_effects:
  assumes "handled log_of msg s s'"
  shows "effects (Payload ks msg) s s' (answer msg (transactions s))"
  using assms by (cases msg) (auto simp: effects_def handled_def grows_def answer_def)

context linearizer_trait begin

lemma app_step_ok:
  assumes inv: "app_inv log_of s" and ok: "event_ok e s"
  shows "\<exists>s' out resp. app_step new_epoch sha256 True e s = Some (Inr (s', out, resp)) \<and>
    app_inv log_of s' \<and> effects e s s' out"
proof (cases e)
  case (AdvertiseTick ro po dos)
  then have ord: "orders_ok ro po (offsets s)" using ok by simp
  obtain reqs where adv: "advertise_offsets_and_request_missing True ro po dos s =
      Inr (recalculate_consensus_offsets ro po s, advertised s reqs)"
    "app_inv log_of (recalculate_consensus_offsets ro po s)"
    "\<forall>(p, is) \<in> set reqs. committable is \<and> (\<forall>i \<in> set is. covered (offsets s) p i)"
    using advertise_ok [OF inv ord, of dos] ok AdvertiseTick by (simp add: split_def) blast
  have "effects e s (recalculate_consensus_offsets ro po s) (advertised s reqs)"
    using adv(3) recalculate_supported [OF inv ord]
    by (auto simp: AdvertiseTick effects_def grows_def advertised_def
        recalculate_consensus_offsets_def)
  with adv(1,2) show ?thesis by (simp add: AdvertiseTick)
next
  case (EpochTick co)
  then have ord: "key_order (consensus_offset s) co" using ok by simp
  obtain lin where c: "commit_epoch_if_needed new_epoch sha256 co s = Inr (committed sha256 co lin s)"
    "app_inv log_of (committed sha256 co lin s)"
    using commit_returns [OF inv ord] by blast
  have "effects e s (committed sha256 co lin s) []"
    by (auto simp: EpochTick effects_def grows_def committed_def map_add_Some_iff
        map_of_fresh [OF ord] split: option.splits if_splits)
  with c show ?thesis by (simp add: EpochTick)
next
  case (Payload ks msg)
  with handle_inbox_ok [OF inv, of ks msg] ok obtain s' where
    "handle_inbox_message True ks msg s = Some (Inr (s', answer msg (transactions s)))"
    "handled log_of msg s s'"
    by auto
  then show ?thesis using handled_effects [of log_of msg s s' ks] by (simp add: Payload handled_def)
qed (use inv in \<open>auto simp: effects_def\<close>)

end

section \<open>The event loop\<close>

text \<open>Every event, when it comes, satisfies what the environment guarantees.\<close>

fun events_ok ::
    "('l \<Rightarrow> Epoch \<Rightarrow> panic + 'l) \<Rightarrow> (u8 list \<Rightarrow> u8 list) \<Rightarrow> ('p :: linorder) event list \<Rightarrow>
      ('p, 'l) App \<Rightarrow> bool"
where
  "events_ok new_epoch sha256 [] s \<longleftrightarrow> True"
| "events_ok new_epoch sha256 (e # es) s \<longleftrightarrow> event_ok e s \<and>
     (case app_step new_epoch sha256 True e s of
        Some (Inr (s', _, _)) \<Rightarrow> events_ok new_epoch sha256 es s' | _ \<Rightarrow> True)"

lemma loop_Cons:
  "e \<noteq> Shutdown \<Longrightarrow> loop_until_shutdown new_epoch sha256 alive (e # es) rs =
     (case app_step new_epoch sha256 alive e (app rs) of
        None \<Rightarrow> None
      | Some (Inl p) \<Rightarrow> Some (Inl p)
      | Some (Inr (s, out, resp)) \<Rightarrow>
          loop_until_shutdown new_epoch sha256 alive es
            (rs\<lparr>app := s, sent := sent rs @ out, responses := responses rs @ resp\<rparr>))"
  by (cases e) simp_all

context linearizer_trait begin

lemma loop_ok:
  assumes "app_inv log_of (app rs)" and "events_ok new_epoch sha256 es (app rs)"
  shows "\<exists>rs'. loop_until_shutdown new_epoch sha256 True es rs = Some (Inr rs') \<and>
    app_inv log_of (app rs') \<and> grows (app rs) (app rs')"
  using assms
proof (induction es arbitrary: rs)
  case Nil
  then show ?case by simp
next
  case (Cons e es)
  show ?case
  proof (cases "e = Shutdown")
    case True
    then show ?thesis using Cons.prems by simp
  next
    case False
    obtain s' out resp where s': "app_step new_epoch sha256 True e (app rs) = Some (Inr (s', out, resp))"
      "app_inv log_of s'" "grows (app rs) s'"
      using app_step_ok [OF Cons.prems(1), of e sha256] Cons.prems(2) by (auto simp: effects_def)
    let ?rs = "rs\<lparr>app := s', sent := sent rs @ out, responses := responses rs @ resp\<rparr>"
    obtain rs' where "loop_until_shutdown new_epoch sha256 True es ?rs = Some (Inr rs')"
      "app_inv log_of (app rs')" "grows s' (app rs')"
      using Cons.IH [of ?rs] Cons.prems(2) s'(1,2) by auto
    then show ?thesis using grows_trans [OF s'(3)] by (auto simp: loop_Cons [OF False] s'(1))
  qed
qed

end

section \<open>The history of a node\<close>

text \<open>
  With the implementation \<open>LogLineriazer\<close>, the epochs of a node determine its log, and they form a
  hash chain. This needs nothing of the environment.
\<close>

definition replay :: "Epoch list \<Rightarrow> UniqueU64BlobId list" where
  "replay es = concat (map (\<lambda>e. ids_of (sort (increments e))) es)"

definition history_inv :: "(u8 list \<Rightarrow> u8 list) \<Rightarrow> ('p, LogLineriazer) App \<Rightarrow> bool" where
  "history_inv sha256 s \<longleftrightarrow>
     chained sha256 None (epochs s) \<and> sequence (linearizer s) = replay (epochs s)"

lemma commit_history:
  assumes "commit_epoch_if_needed LogLineriazer_new_epoch sha256 co s = Inr s'"
    and "history_inv sha256 s"
  shows "history_inv sha256 s'"
proof -
  obtain incs lin where "epochs s' = epochs s @ [Epoch_new sha256 incs (last_hash None (epochs s))]"
    and "linearizer s' = lin"
    and "LogLineriazer_new_epoch (linearizer s)
           (Epoch_new sha256 incs (last_hash None (epochs s))) = Inr lin"
    using assms(1) by (auto simp: commit_epoch_if_needed_def Let_def res_simps last_hash_def)
  then show ?thesis
    using assms(2) by (auto simp: history_inv_def replay_def chained_append dest!: LogLineriazer_new_epoch_eq)
qed

lemma handle_inbox_frame:
  assumes "handle_inbox_message alive ks msg s = Some (Inr (s', out))"
  shows "epochs s' = epochs s" and "linearizer s' = linearizer s"
  using assms by (cases msg; auto simp: res_simps)+

lemma app_step_history:
  assumes "app_step LogLineriazer_new_epoch sha256 alive e s = Some (Inr (s', out, resp))"
    and "history_inv sha256 s"
  shows "history_inv sha256 s'"
proof (cases e)
  case (AdvertiseTick ro po dos)
  then have "epochs s' = epochs s" "linearizer s' = linearizer s"
    using assms(1) by (auto simp: advertise_offsets_and_request_missing_def Let_def res_simps
        recalculate_consensus_offsets_def split: if_splits)
  then show ?thesis using assms(2) by (simp add: history_inv_def)
next
  case (EpochTick co)
  then show ?thesis using assms commit_history by (auto simp: res_simps)
next
  case (Payload ks msg)
  then have "epochs s' = epochs s" "linearizer s' = linearizer s"
    using assms(1) handle_inbox_frame [of alive ks msg s s'] by (auto simp: res_simps)
  then show ?thesis using assms(2) by (simp add: history_inv_def)
qed (use assms in auto)

lemma loop_history:
  assumes "loop_until_shutdown LogLineriazer_new_epoch sha256 alive es rs = Some (Inr rs')"
    and "history_inv sha256 (app rs)"
  shows "history_inv sha256 (app rs')"
  using assms
proof (induction es arbitrary: rs)
  case (Cons e es)
  show ?case
  proof (cases "e = Shutdown")
    case False
    with Cons app_step_history show ?thesis
      by (fastforce simp: loop_Cons split: option.splits sum.splits prod.splits)
  qed (use Cons.prems in simp)
qed simp

end
