(* ===== verification/Node_Exact.thy ===== *)
theory Node_Exact
  imports Node_Run
begin

text \<open>
  The own offsets of a node in a run: as long as no block of its store is full they are exact, the
  offset of a range being the one before its first gap. (Once a block is full the code may move its
  offset back, see \<open>Self_Offsets\<close>.)
\<close>

definition exact_inv :: "('p, 'l) App \<Rightarrow> bool" where
  "exact_inv s \<longleftrightarrow>
     ((\<forall>r. \<not> block_full (transactions s) r) \<longrightarrow> offsets_exact (self_offsets s) (transactions s))"

lemma exact_inv_same:
  "exact_inv s \<Longrightarrow> self_offsets s' = self_offsets s \<Longrightarrow> transactions s' = transactions s \<Longrightarrow> exact_inv s'"
  by (simp add: exact_inv_def)

lemma exact_inv_new: "exact_inv (App_new p prms)"
  by (simp add: exact_inv_def App_new_def offsets_exact_empty)

text \<open>Storing transactions, as the handlers of both kinds of messages that bring some do.\<close>

lemma store_exact:
  assumes inv: "app_inv log_of s" and ts: "\<forall>t \<in> set ts. valid_id (tx_id t)" "key_order (buckets ts) ks"
    and exact: "exact_inv s"
    and upd: "update_self_offsets (self_offsets s) (transactions s) (entries (buckets ts) ks) =
      Inr (self_offsets s', transactions s', ups)"
  shows "exact_inv s'"
  unfolding exact_inv_def
proof
  assume free: "\<forall>r. \<not> block_full (transactions s') r"
  obtain ts' where ts': "set ts' = set ts" "transactions s' = store_all (transactions s) ts'"
    using update_self_offsets_stored [OF inv ts] upd by (metis old.prod.inject stored_sel(7) sum.inject(2))
  have dom: "dom (transactions s') = dom (store_all (transactions s) ts)"
    by (simp add: ts' dom_store_all)
  have free': "\<forall>r. \<not> block_full (store_all (transactions s) ts) r"
    using free block_full_mono [of "store_all (transactions s) ts" "transactions s'"] dom by auto
  then have "\<forall>r. \<not> block_full (transactions s) r"
    using block_full_mono [of "transactions s" "store_all (transactions s) ts"] by (auto simp: dom_store_all)
  then have "offsets_exact (self_offsets s) (transactions s)" using exact by (simp add: exact_inv_def)
  moreover have "tx_map_wf (transactions s)" using inv by (simp add: app_inv_def store_inv_def)
  ultimately show "offsets_exact (self_offsets s') (transactions s')"
    using update_buckets_exact [OF _ _ ts free'] upd by fastforce
qed

lemma handle_inbox_exact:
  assumes inv: "app_inv log_of s" and ok: "payload_ok ks msg s" and exact: "exact_inv s"
    and step: "handle_inbox_message alive ks msg s = Some (Inr (s', out))"
  shows "exact_inv s'"
proof (cases msg)
  case (Inbox_NewTransaction t)
  then have t: "\<forall>t \<in> set [t]. valid_id (tx_id t)" "key_order (buckets [t]) ks" using ok by simp_all
  then obtain ups where "update_self_offsets (self_offsets s) (transactions s) (entries (buckets [t]) ks) =
      Inr (self_offsets s', transactions s', ups)"
    using step txs_to_range_tx_map_eq [OF t(1)]
    by (auto simp: Inbox_NewTransaction update_self_offset_def res_simps split: list.splits)
  then show ?thesis by (rule store_exact [OF inv t exact])
next
  case (Inbox_MissingTx ts)
  then have ts: "\<forall>t \<in> set ts. valid_id (tx_id t)" "key_order (buckets ts) ks" using ok by simp_all
  then obtain ups where "update_self_offsets (self_offsets s) (transactions s) (entries (buckets ts) ks) =
      Inr (self_offsets s', transactions s', ups)"
    using step txs_to_range_tx_map_eq [OF ts(1)] by (auto simp: Inbox_MissingTx res_simps)
  then show ?thesis by (rule store_exact [OF inv ts exact])
qed (rule exact_inv_same [OF exact], use step in \<open>auto simp: res_simps\<close>)+

lemma app_step_exact:
  assumes inv: "app_inv log_of s" and ok: "event_ok e s" and exact: "exact_inv s"
    and step: "app_step new_epoch sha256 alive e s = Some (Inr (s', out, resp))"
  shows "exact_inv s'"
proof (cases e)
  case (AdvertiseTick ro po dos)
  with step show ?thesis
    by (intro exact_inv_same [OF exact])
      (auto simp: advertise_offsets_and_request_missing_def Let_def res_simps
        recalculate_consensus_offsets_def split: if_splits)
next
  case (EpochTick co)
  with step show ?thesis
    by (intro exact_inv_same [OF exact]) (auto simp: commit_epoch_if_needed_def Let_def res_simps)
next
  case (Payload ks msg)
  with step ok show ?thesis using handle_inbox_exact [OF inv _ exact] by (auto simp: res_simps)
qed (use step exact in auto)

text \<open>An exact offset reaches every position up to which all is stored.\<close>

lemma exact_reaches:
  assumes "offsets_exact so txs" and "tx_map_wf txs" and "\<not> block_full txs r"
    and "valid_pos r v" and "holds_upto txs r v"
  shows "\<exists>w. so r = Some w \<and> v \<le> w"
proof -
  obtain w where "contiguous txs r w" "unat v \<le> unat w"
    using advance_from [OF assms(2,4,5)] assms(3) by metis
  with assms(1) show ?thesis by (auto simp: offsets_exact_def unat_simps)
qed

end
