(* ===== verification/Node_P2P.thy ===== *)
theory Node_P2P
  imports Node_Interface
begin

text \<open>
  The network layer of a maroon node (\<open>maroon/src/network/p2p.rs\<close>) over the protocols of
  \<open>common/src\<close>: gateway to node (\<open>gm_request_response.rs\<close>), node to node
  (\<open>m2m_request_response.rs\<close>) and the exchange of roles (\<open>meta_exchange.rs\<close>).

  The swarm is the crate \<open>libp2p\<close>'s. What the code tells it to do is a list of \<open>command\<close>s, what it
  reports is a \<open>swarm_event\<close>; of its own enums only the variants the code looks into are kept, the
  rest is one constructor. \<open>serde_json\<close> is two parameters, \<open>to_vec\<close> and \<open>from_slice\<close>, between gossip
  messages and a type \<open>'b\<close> of encoded messages; so is the parsing of addresses.
  \<open>'c\<close> is the type of the response channels of requests.
\<close>

section \<open>The protocols\<close>

datatype GMRequest = GM_NewTransaction Transaction

datatype GMResponse = Acknowledged | Rejected

datatype M2MRequest = GetMissingTx "U64BlobIdClosedInterval list" | M2M_MissingTx "Transaction list"

datatype M2MResponse = Ack

datatype Role = Gateway | Node

record MERequest = request_role :: Role

record MEResponse = response_role :: Role

text \<open>\<open>libp2p_request_response\<close>: the messages of one request-response protocol.\<close>

datatype ('req, 'res, 'c) rr_message = RR_Request 'req 'c | RR_Response 'res

datatype ('p, 'req, 'res, 'c) rr_event = RR_Message 'p "('req, 'res, 'c) rr_message" | RR_Other

section \<open>Gossip\<close>

datatype GossipPayload = Gossip_State NodeState

record 'p GossipMessage =
  gossip_peer_id :: 'p
  gossip_payload :: GossipPayload

section \<open>Commands and events of the swarm\<close>

datatype ('p, 'b, 'c, 'a) command =
    Publish 'b
  | SendM2MRequest 'p M2MRequest
  | SendM2MResponse 'c M2MResponse
  | SendGMResponse 'c GMResponse
  | SendMERequest 'p MERequest
  | SendMEResponse 'c MEResponse
  | ListenOn 'a
  | Dial 'a

datatype ('p, 'b, 'c) swarm_event =
    Gossipsub_Message 'b
  | MetaExchange "('p, MERequest, MEResponse, 'c) rr_event"
  | Ping
  | RequestResponse "('p, GMRequest, GMResponse, 'c) rr_event"
  | M2MReqRes "('p, M2MRequest, M2MResponse, 'c) rr_event"
  | ConnectionEstablished 'p
  | ConnectionClosed 'p nat  \<comment> \<open>the peer, and how many connections to it remain\<close>
  | OutgoingConnectionError
  | Swarm_Other

text \<open>The state of the layer: the sets \<open>start_event_loop\<close> keeps.\<close>

record 'p P2P =
  p2p_peer_id :: 'p
  alive_peer_ids :: "'p set"
  alive_gateway_ids :: "'p set"

definition start_state :: "'p \<Rightarrow> 'p P2P" where
  "start_state peer = \<lparr>p2p_peer_id = peer, alive_peer_ids = {peer}, alive_gateway_ids = {}\<rparr>"

section \<open>From the application to the swarm\<close>

text \<open>
  The macro \<open>guard_ok\<close> (\<open>maroon/src/macros.rs\<close>): the value of a result, or the block that leaves the
  function; \<open>rest\<close> is what follows it there. A result whose error is only logged is an option.
\<close>

definition guard_ok :: "'a option \<Rightarrow> 'r \<Rightarrow> ('a \<Rightarrow> 'r) \<Rightarrow> 'r" where
  [simp]: "guard_ok expr else_block rest = (case expr of Some v \<Rightarrow> rest v | None \<Rightarrow> else_block)"

fun handle_receiver_outbox ::
    "('p GossipMessage \<Rightarrow> 'b option) \<Rightarrow> 'p Outbox \<Rightarrow> 'p \<Rightarrow> ('p, 'b, 'c, 'a) command list" where
  "handle_receiver_outbox to_vec (Outbox_State state) self_id =
     (let message = \<lparr>gossip_peer_id = self_id, gossip_payload = Gossip_State state\<rparr> in
      guard_ok (to_vec message) [] (\<lambda>bytes. [Publish bytes]))"
| "handle_receiver_outbox to_vec (Outbox_RequestMissingTxs peer ranges) self_id =
     [SendM2MRequest peer (GetMissingTx ranges)]"
| "handle_receiver_outbox to_vec (Outbox_RequestedTxsForPeer peer missing_txs) self_id =
     [SendM2MRequest peer (M2M_MissingTx missing_txs)]"

section \<open>From the swarm to the application\<close>

text \<open>
  A handler returns the new state, the messages that enter the channel to the application, and its
  commands; \<open>to_app\<close> says whether the application still holds its end of that channel.
\<close>

fun handle_m2m_req_res ::
    "bool \<Rightarrow> ('p, M2MRequest, M2MResponse, 'c) rr_event \<Rightarrow>
      panic + ('p Inbox list \<times> ('p, 'b, 'c, 'a) command list)"
where
  "handle_m2m_req_res to_app (RR_Message peer (RR_Request request channel)) =
     rbind (case request of
              GetMissingTx ranges \<Rightarrow> send_expect to_app (Inbox_RequestMissingTxs peer ranges)
            | M2M_MissingTx missing_txs \<Rightarrow> send_expect to_app (Inbox_MissingTx missing_txs))
       (\<lambda>sent. Inr (sent, [SendM2MResponse channel Ack]))"
| "handle_m2m_req_res to_app (RR_Message peer (RR_Response response)) = Inr ([], [])"
| "handle_m2m_req_res to_app RR_Other = Inr ([], [])"

fun handle_request_response ::
    "bool \<Rightarrow> ('p, GMRequest, GMResponse, 'c) rr_event \<Rightarrow>
      'p Inbox list \<times> ('p, 'b, 'c, 'a) command list"
where
  "handle_request_response to_app (RR_Message peer (RR_Request (GM_NewTransaction tx) channel)) =
     (endpoint_send to_app (Inbox_NewTransaction tx), [SendGMResponse channel Acknowledged])"
| "handle_request_response to_app (RR_Message peer (RR_Response response)) = ([], [])"
| "handle_request_response to_app RR_Other = ([], [])"

fun insert_by_role :: "bool \<Rightarrow> 'p \<Rightarrow> Role \<Rightarrow> 'p P2P \<Rightarrow> 'p P2P \<times> 'p Inbox list" where
  "insert_by_role to_app peer Gateway st =
     (st\<lparr>alive_gateway_ids := insert peer (alive_gateway_ids st)\<rparr>, [])"
| "insert_by_role to_app peer Node st =
     (let st = st\<lparr>alive_peer_ids := insert peer (alive_peer_ids st)\<rparr> in
      (st, endpoint_send to_app (Inbox_Nodes (alive_peer_ids st))))"

fun handle_meta_exchange ::
    "bool \<Rightarrow> ('p, MERequest, MEResponse, 'c) rr_event \<Rightarrow> 'p P2P \<Rightarrow>
      'p P2P \<times> 'p Inbox list \<times> ('p, 'b, 'c, 'a) command list"
where
  "handle_meta_exchange to_app (RR_Message peer (RR_Response response)) st =
     (let (st, sent) = insert_by_role to_app peer (response_role response) st in (st, sent, []))"
| "handle_meta_exchange to_app (RR_Message peer (RR_Request request channel)) st =
     (let (st, sent) = insert_by_role to_app peer (request_role request) st in
      (st, sent, [SendMEResponse channel \<lparr>response_role = Node\<rparr>]))"
| "handle_meta_exchange to_app RR_Other st = (st, [], [])"

fun handle_swarm_event ::
    "('b \<Rightarrow> 'p GossipMessage option) \<Rightarrow> bool \<Rightarrow> ('p, 'b, 'c) swarm_event \<Rightarrow> 'p P2P \<Rightarrow>
      panic + ('p P2P \<times> 'p Inbox list \<times> ('p, 'b, 'c, 'a) command list)"
where
  "handle_swarm_event from_slice to_app (Gossipsub_Message data) st =
     (case from_slice data of
        Some p2p_message \<Rightarrow>
          (case gossip_payload p2p_message of
             Gossip_State state \<Rightarrow>
               Inr (st, endpoint_send to_app (Inbox_State (gossip_peer_id p2p_message) state), []))
      | None \<Rightarrow> Inr (st, [], []))"
| "handle_swarm_event from_slice to_app (MetaExchange meta_exchange) st =
     Inr (handle_meta_exchange to_app meta_exchange st)"
| "handle_swarm_event from_slice to_app Ping st = Inr (st, [], [])"
| "handle_swarm_event from_slice to_app (RequestResponse gm_request_response) st =
     (let (sent, commands) = handle_request_response to_app gm_request_response in
      Inr (st, sent, commands))"
| "handle_swarm_event from_slice to_app (M2MReqRes m2m_request_response) st =
     rbind (handle_m2m_req_res to_app m2m_request_response) (\<lambda>(sent, commands).
       Inr (st, sent, commands))"
| "handle_swarm_event from_slice to_app (ConnectionEstablished peer) st =
     Inr (st, [], [SendMERequest peer \<lparr>request_role = Node\<rparr>])"
| "handle_swarm_event from_slice to_app (ConnectionClosed peer num_established) st =
     (let st' = st\<lparr>alive_gateway_ids := alive_gateway_ids st - {peer}\<rparr> in
      if peer \<in> alive_peer_ids st'
      then
        (let st' = st'\<lparr>alive_peer_ids := alive_peer_ids st' - {peer}\<rparr> in
         Inr (st', endpoint_send to_app (Inbox_Nodes (alive_peer_ids st')), []))
      else Inr (st', [], []))"
| "handle_swarm_event from_slice to_app OutgoingConnectionError st = Inr (st, [], [])"
| "handle_swarm_event from_slice to_app Swarm_Other st = Inr (st, [], [])"

text \<open>One round of the loop of \<open>start_event_loop\<close>: \<open>tokio::select!\<close> takes either side.\<close>

datatype ('p, 'b, 'c) p2p_event = From_App "'p Outbox" | From_Swarm "('p, 'b, 'c) swarm_event"

fun p2p_step ::
    "('p GossipMessage \<Rightarrow> 'b option) \<Rightarrow> ('b \<Rightarrow> 'p GossipMessage option) \<Rightarrow> bool \<Rightarrow>
      ('p, 'b, 'c) p2p_event \<Rightarrow> 'p P2P \<Rightarrow>
      panic + ('p P2P \<times> 'p Inbox list \<times> ('p, 'b, 'c, 'a) command list)"
where
  "p2p_step to_vec from_slice to_app (From_App outbox) st =
     Inr (st, [], handle_receiver_outbox to_vec outbox (p2p_peer_id st))"
| "p2p_step to_vec from_slice to_app (From_Swarm event) st =
     handle_swarm_event from_slice to_app event st"

fun p2p_loop ::
    "('p GossipMessage \<Rightarrow> 'b option) \<Rightarrow> ('b \<Rightarrow> 'p GossipMessage option) \<Rightarrow> bool \<Rightarrow>
      ('p, 'b, 'c) p2p_event list \<Rightarrow> 'p P2P \<Rightarrow>
      panic + ('p P2P \<times> 'p Inbox list \<times> ('p, 'b, 'c, 'a) command list)"
where
  "p2p_loop to_vec from_slice to_app [] st = Inr (st, [], [])"
| "p2p_loop to_vec from_slice to_app (e # es) st =
     rbind (p2p_step to_vec from_slice to_app e st) (\<lambda>(st, sent, commands).
     rbind (p2p_loop to_vec from_slice to_app es st) (\<lambda>(st, sent', commands').
       Inr (st, sent @ sent', commands @ commands')))"

section \<open>Starting\<close>

datatype start_error =
    NoiseError | GossipsubConfigError | GossipsubError | SubscriptionError
  | ParseError | ListenError | DialError

text \<open>
  \<open>prepare\<close>: listen on the node's own address, then dial every other one. Parsing, listening and
  dialing are \<open>libp2p\<close>'s; the last two are known by whether they succeed. The commands given before
  an error have had their effect, so they are part of the result.
\<close>

fun dial_all ::
    "(string \<Rightarrow> 'a option) \<Rightarrow> ('a \<Rightarrow> bool) \<Rightarrow> string \<Rightarrow> string list \<Rightarrow>
      ('p, 'b, 'c, 'a) command list \<times> (start_error + unit)"
where
  "dial_all parse can_dial self_url [] = ([], Inr ())"
| "dial_all parse can_dial self_url (url # urls) =
     (if url = self_url then dial_all parse can_dial self_url urls
      else
        (case parse url of
           None \<Rightarrow> ([], Inl ParseError)
         | Some addr \<Rightarrow>
             if can_dial addr
             then (let (cs, res) = dial_all parse can_dial self_url urls in (Dial addr # cs, res))
             else ([Dial addr], Inl DialError)))"

definition prepare ::
    "(string \<Rightarrow> 'a option) \<Rightarrow> ('a \<Rightarrow> bool) \<Rightarrow> ('a \<Rightarrow> bool) \<Rightarrow> string \<Rightarrow> string list \<Rightarrow>
      ('p, 'b, 'c, 'a) command list \<times> (start_error + unit)"
where
  "prepare parse can_listen can_dial self_url node_urls =
     (case parse self_url of
        None \<Rightarrow> ([], Inl ParseError)
      | Some addr \<Rightarrow>
          if can_listen addr
          then (let (cs, res) = dial_all parse can_dial self_url node_urls in (ListenOn addr # cs, res))
          else ([ListenOn addr], Inl ListenError))"

text \<open>When \<open>prepare\<close> succeeds.\<close>

definition can_prepare ::
    "(string \<Rightarrow> 'a option) \<Rightarrow> ('a \<Rightarrow> bool) \<Rightarrow> ('a \<Rightarrow> bool) \<Rightarrow> string \<Rightarrow> string list \<Rightarrow> bool" where
  "can_prepare parse can_listen can_dial self_url node_urls \<longleftrightarrow>
     (case parse self_url of Some addr \<Rightarrow> can_listen addr | None \<Rightarrow> False) \<and>
     list_all (\<lambda>url. url = self_url \<or> (case parse url of Some addr \<Rightarrow> can_dial addr | None \<Rightarrow> False)) node_urls"

lemma dial_all_ok:
  "snd (dial_all parse can_dial self_url urls) = Inr () \<longleftrightarrow>
     list_all (\<lambda>url. url = self_url \<or> (case parse url of Some addr \<Rightarrow> can_dial addr | None \<Rightarrow> False)) urls"
  by (induction urls) (auto simp: split_def Let_def split: option.splits)

lemma prepare_ok:
  "snd (prepare parse can_listen can_dial self_url urls) = Inr () \<longleftrightarrow> can_prepare parse can_listen can_dial self_url urls"
  by (auto simp: prepare_def can_prepare_def dial_all_ok split_def Let_def split: option.splits)

section \<open>What the layer keeps\<close>

text \<open>The other end of an event; a swarm never reports the node itself there.\<close>

fun event_peers :: "('p, 'b, 'c) swarm_event \<Rightarrow> 'p set" where
  "event_peers (MetaExchange (RR_Message peer _)) = {peer}"
| "event_peers (RequestResponse (RR_Message peer _)) = {peer}"
| "event_peers (M2MReqRes (RR_Message peer _)) = {peer}"
| "event_peers (ConnectionEstablished peer) = {peer}"
| "event_peers (ConnectionClosed peer _) = {peer}"
| "event_peers _ = {}"

definition p2p_inv :: "'p P2P \<Rightarrow> bool" where
  "p2p_inv st \<longleftrightarrow> p2p_peer_id st \<in> alive_peer_ids st \<and> finite (alive_peer_ids st)"

lemma p2p_inv_start: "p2p_inv (start_state p)"
  by (simp add: p2p_inv_def start_state_def)

lemma p2p_peer_id_start [simp]: "p2p_peer_id (start_state p) = p"
  by (simp add: start_state_def)

lemma insert_by_role_eq:
  "insert_by_role to_app peer role st =
     (case role of
        Gateway \<Rightarrow> (st\<lparr>alive_gateway_ids := insert peer (alive_gateway_ids st)\<rparr>, [])
      | Node \<Rightarrow> (st\<lparr>alive_peer_ids := insert peer (alive_peer_ids st)\<rparr>,
          endpoint_send to_app (Inbox_Nodes (insert peer (alive_peer_ids st)))))"
  by (cases role) simp_all

text \<open>
  With a live application the handler returns on every event; it tells the application only sets of
  live nodes that contain the node itself, and otherwise what the event brought.
\<close>

fun event_brings ::
    "('b \<Rightarrow> 'p GossipMessage option) \<Rightarrow> ('p, 'b, 'c) swarm_event \<Rightarrow> 'p Inbox list"
where
  "event_brings from_slice (Gossipsub_Message data) = (case from_slice data of
     Some m \<Rightarrow> (case gossip_payload m of Gossip_State st \<Rightarrow> [Inbox_State (gossip_peer_id m) st])
   | None \<Rightarrow> [])"
| "event_brings from_slice (M2MReqRes (RR_Message peer (RR_Request req _))) = (case req of
     GetMissingTx is \<Rightarrow> [Inbox_RequestMissingTxs peer is] | M2M_MissingTx ts \<Rightarrow> [Inbox_MissingTx ts])"
| "event_brings from_slice (RequestResponse (RR_Message _ (RR_Request (GM_NewTransaction tx) _))) =
     [Inbox_NewTransaction tx]"
| "event_brings from_slice _ = []"

fun told_nodes :: "'p Inbox \<Rightarrow> bool" where
  "told_nodes (Inbox_Nodes _) = True"
| "told_nodes _ = False"

lemma handle_swarm_event_ok:
  assumes "p2p_inv st" and "p2p_peer_id st \<notin> event_peers ev"
  shows "\<exists>st' sent commands. handle_swarm_event from_slice True ev st = Inr (st', sent, commands) \<and>
    p2p_inv st' \<and> p2p_peer_id st' = p2p_peer_id st \<and>
    (sent = event_brings from_slice ev \<or> sent = [Inbox_Nodes (alive_peer_ids st')])"
proof (cases ev)
  case (MetaExchange e)
  show ?thesis
  proof (cases e)
    case (RR_Message peer m)
    with MetaExchange assms show ?thesis
      by (cases m) (auto simp: insert_by_role_eq p2p_inv_def endpoint_send_def split: Role.split)
  qed (use MetaExchange assms in simp)
next
  case (RequestResponse e)
  show ?thesis
  proof (cases e)
    case (RR_Message peer m)
    show ?thesis
    proof (cases m)
      case (RR_Request req c)
      with RequestResponse RR_Message assms show ?thesis by (cases req) (simp add: endpoint_send_def)
    qed (use RequestResponse RR_Message assms in simp)
  qed (use RequestResponse assms in simp)
next
  case (M2MReqRes e)
  show ?thesis
  proof (cases e)
    case (RR_Message peer m)
    show ?thesis
    proof (cases m)
      case (RR_Request req c)
      with M2MReqRes RR_Message assms show ?thesis by (cases req) (simp_all add: send_expect_def)
    qed (use M2MReqRes RR_Message assms in simp)
  qed (use M2MReqRes assms in simp)
next
  case (Gossipsub_Message data)
  with assms show ?thesis
    by (auto simp: endpoint_send_def split: option.split GossipPayload.split)
next
  case (ConnectionClosed peer n)
  with assms show ?thesis by (auto simp: Let_def p2p_inv_def endpoint_send_def)
qed (use assms in simp_all)

text \<open>What an event says of one node: that it is live, that it is not, or nothing.\<close>

fun mention :: "'p \<Rightarrow> ('p, 'b, 'c) p2p_event \<Rightarrow> bool option" where
  "mention q (From_Swarm (MetaExchange (RR_Message p (RR_Response res)))) =
     (if q = p \<and> response_role res = Node then Some True else None)"
| "mention q (From_Swarm (MetaExchange (RR_Message p (RR_Request req _)))) =
     (if q = p \<and> request_role req = Node then Some True else None)"
| "mention q (From_Swarm (ConnectionClosed p _)) = (if q = p then Some False else None)"
| "mention q _ = None"

fun live_after :: "'p \<Rightarrow> ('p, 'b, 'c) p2p_event list \<Rightarrow> bool \<Rightarrow> bool" where
  "live_after q [] b = b"
| "live_after q (e # es) b = live_after q es (case mention q e of Some b' \<Rightarrow> b' | None \<Rightarrow> b)"

lemma role_eq: "(case r of Gateway \<Rightarrow> a | Node \<Rightarrow> b) = (if r = Node then b else a)"
  by (cases r) simp_all

lemma p2p_step_mention:
  assumes "p2p_step to_vec from_slice to_app e st = Inr (st', sent, commands)"
  shows "q \<in> alive_peer_ids st' \<longleftrightarrow>
    (case mention q e of Some b \<Rightarrow> b | None \<Rightarrow> q \<in> alive_peer_ids st)"
  using assms
  by (cases "(q, e)" rule: mention.cases)
    (auto simp: insert_by_role_eq role_eq Let_def res_simps split: if_splits prod.splits option.splits GossipPayload.splits)

section \<open>Properties\<close>

text \<open>
  C31: the state a node gossips is the state other nodes hear, under its peer id: where
  \<open>from_slice\<close> undoes \<open>to_vec\<close>, the bytes the sender publishes are turned by a receiver's handler into
  exactly one message to its application.
\<close>

theorem gossip_roundtrip:
  assumes "\<forall>m b. to_vec m = Some b \<longrightarrow> from_slice b = Some m"
    and "handle_receiver_outbox to_vec (Outbox_State state) p = [Publish b]"
  shows "handle_swarm_event from_slice True (Gossipsub_Message b) st = Inr (st, [Inbox_State p state], [])"
  using assms by (auto simp: endpoint_send_def split: option.splits)

theorem gossip_roundtrip_witness:
  "handle_swarm_event Some True (Gossipsub_Message
       \<lparr>gossip_peer_id = 3 :: nat, gossip_payload = Gossip_State \<lparr>node_offsets = [0 \<mapsto> 4]\<rparr>\<rparr>)
     (start_state 5) = Inr (start_state 5, [Inbox_State 3 \<lparr>node_offsets = [0 \<mapsto> 4]\<rparr>], [])"
  by (rule gossip_roundtrip [where to_vec = Some]) simp_all

text \<open>
  What the application sends to one node arrives there as the matching message, a request
  for missing transactions under the sender's peer id, and is acknowledged once on its own channel;
  nothing else changes at the receiver.
\<close>

lemma direct_messages_arrive:
  "handle_receiver_outbox to_vec (Outbox_RequestMissingTxs q is) p = [SendM2MRequest q (GetMissingTx is)] \<and>
   handle_swarm_event from_slice True (M2MReqRes (RR_Message p (RR_Request (GetMissingTx is) c))) st =
     Inr (st, [Inbox_RequestMissingTxs p is], [SendM2MResponse c Ack]) \<and>
   handle_receiver_outbox to_vec (Outbox_RequestedTxsForPeer q ts) p = [SendM2MRequest q (M2M_MissingTx ts)] \<and>
   handle_swarm_event from_slice True (M2MReqRes (RR_Message p (RR_Request (M2M_MissingTx ts) c))) st =
     Inr (st, [Inbox_MissingTx ts], [SendM2MResponse c Ack])"
  by (simp add: send_expect_def)

text \<open>
  C33: after any events the network layer has handled, a node is among the live nodes exactly if the
  last event that says something of it announced the role \<open>Node\<close>; where none does, exactly if it was
  live before.
\<close>

theorem live_nodes_last_mention:
  fixes commands :: "('p, 'b, 'c, 'a) command list"
  assumes "p2p_loop to_vec from_slice to_app es st = Inr (st', sent, commands)"
  shows "q \<in> alive_peer_ids st' \<longleftrightarrow> live_after q es (q \<in> alive_peer_ids st)"
  using assms
proof (induction es arbitrary: st sent commands)
  case (Cons e es)
  from Cons.prems obtain mid sent1 sent2 and commands1 commands2 :: "('p, 'b, 'c, 'a) command list" where
    "p2p_step to_vec from_slice to_app e st = Inr (mid, sent1, commands1)"
    "p2p_loop to_vec from_slice to_app es mid = Inr (st', sent2, commands2)"
    by (auto simp: res_simps)
  with p2p_step_mention Cons.IH show ?case by fastforce
qed simp

theorem live_nodes_last_mention_witness:
  "\<exists>st' sent commands. p2p_loop Some Some True
      [From_Swarm (MetaExchange (RR_Message 7 (RR_Request \<lparr>request_role = Node\<rparr> ()))),
       From_Swarm (ConnectionClosed 7 0)] (start_state (5 :: nat)) = Inr (st', sent, commands) \<and>
    7 \<notin> alive_peer_ids st' \<and> 5 \<in> alive_peer_ids st'"
proof -
  let ?es = "[From_Swarm (MetaExchange (RR_Message 7 (RR_Request \<lparr>request_role = Node\<rparr> ()))),
       From_Swarm (ConnectionClosed 7 0)]"
  obtain st' sent commands where
    run: "p2p_loop Some Some True ?es (start_state (5 :: nat)) = Inr (st', sent, commands)"
    by (simp add: Let_def start_state_def)
  from live_nodes_last_mention [OF run, of 7] live_nodes_last_mention [OF run, of 5] run
  show ?thesis by (auto simp: start_state_def)
qed

text \<open>
  As long as the swarm never reports the node itself as the other end, every set of live nodes the
  application is told is finite and contains the node.
\<close>

lemma event_tells:
  fixes st :: "'p P2P" and ev :: "('p, 'b, 'c) swarm_event"
  assumes "p2p_inv st" and "p2p_peer_id st \<notin> event_peers ev"
  shows "\<exists>st' sent (commands :: ('p, 'b, 'c, 'a) command list).
    handle_swarm_event from_slice True ev st = Inr (st', sent, commands) \<and>
    p2p_inv st' \<and> p2p_peer_id st' = p2p_peer_id st \<and>
    (\<forall>ns. Inbox_Nodes ns \<in> set sent \<longrightarrow> finite ns \<and> p2p_peer_id st \<in> ns)"
proof -
  from handle_swarm_event_ok [OF assms, of from_slice] obtain st' sent
    and commands :: "('p, 'b, 'c, 'a) command list" where
    h: "handle_swarm_event from_slice True ev st = Inr (st', sent, commands)" "p2p_inv st'"
      "p2p_peer_id st' = p2p_peer_id st"
      "sent = event_brings from_slice ev \<or> sent = [Inbox_Nodes (alive_peer_ids st')]" by blast
  have "Inbox_Nodes ns \<notin> set (event_brings from_slice ev)" for ns
    by (cases "(from_slice, ev)" rule: event_brings.cases)
      (auto split: option.splits GossipPayload.splits M2MRequest.splits)
  with h show ?thesis by (auto simp: p2p_inv_def)
qed

lemma loop_tells:
  fixes st :: "'p P2P" and es :: "('p, 'b, 'c) p2p_event list"
  assumes "p2p_inv st" and "\<forall>ev. From_Swarm ev \<in> set es \<longrightarrow> p2p_peer_id st \<notin> event_peers ev"
  shows "\<exists>st' sent (commands :: ('p, 'b, 'c, 'a) command list).
    p2p_loop to_vec from_slice True es st = Inr (st', sent, commands) \<and> p2p_inv st' \<and>
    (\<forall>ns. Inbox_Nodes ns \<in> set sent \<longrightarrow> finite ns \<and> p2p_peer_id st \<in> ns)"
  using assms
proof (induction es arbitrary: st)
  case (Cons e es)
  obtain mid sent1 and commands1 :: "('p, 'b, 'c, 'a) command list" where
    mid: "p2p_step to_vec from_slice True e st = Inr (mid, sent1, commands1)"
      "p2p_inv mid" "p2p_peer_id mid = p2p_peer_id st"
      "\<forall>ns. Inbox_Nodes ns \<in> set sent1 \<longrightarrow> finite ns \<and> p2p_peer_id st \<in> ns"
  proof (cases e)
    case (From_App m)
    with that [of st "[]"] Cons.prems(1) show thesis by simp
  next
    case (From_Swarm ev)
    then have "p2p_peer_id st \<notin> event_peers ev" using Cons.prems(2) by simp
    from event_tells [OF Cons.prems(1) this, of from_slice] that show thesis
      unfolding From_Swarm p2p_step.simps by blast
  qed
  have "\<forall>ev. From_Swarm ev \<in> set es \<longrightarrow> p2p_peer_id mid \<notin> event_peers ev" using Cons.prems(2) mid(3) by simp
  from Cons.IH [OF mid(2) this] obtain st' sent2 and commands2 :: "('p, 'b, 'c, 'a) command list" where
    "p2p_loop to_vec from_slice True es mid = Inr (st', sent2, commands2)" "p2p_inv st'"
    "\<forall>ns. Inbox_Nodes ns \<in> set sent2 \<longrightarrow> finite ns \<and> p2p_peer_id st \<in> ns"
    unfolding mid(3) by blast
  with mid(1,4) show ?case by auto
qed simp

text \<open>
  A live node to which two connections exist, as there are when both sides dial, drops out of
  the live nodes as soon as one of the two closes: the handler does not look at the number of
  connections that remain.
\<close>

lemma one_closed_connection_drops_node:
  assumes "q \<in> alive_peer_ids st" and "0 < num_established"
  shows "\<exists>st' sent commands. handle_swarm_event from_slice True (ConnectionClosed q num_established) st =
      Inr (st', sent, commands) \<and> alive_peer_ids st' = alive_peer_ids st - {q} \<and>
    sent = [Inbox_Nodes (alive_peer_ids st - {q})]"
  using assms by (simp add: Let_def endpoint_send_def)

lemma one_closed_connection_drops_node_witness:
  "\<exists>st' sent commands. handle_swarm_event Some True (ConnectionClosed 7 1)
       \<lparr>p2p_peer_id = 5 :: nat, alive_peer_ids = {5, 7}, alive_gateway_ids = {}\<rparr> = Inr (st', sent, commands) \<and>
     alive_peer_ids st' = {5, 7} - {7} \<and> sent = [Inbox_Nodes ({5, 7} - {7})]"
  using one_closed_connection_drops_node [of 7
      "\<lparr>p2p_peer_id = 5 :: nat, alive_peer_ids = {5, 7}, alive_gateway_ids = {}\<rparr>" 1 Some] by simp

text \<open>
  Where every address parses and every listen and dial succeeds, a node listens on its own
  address and dials every other address of the list, in order, its own never.
\<close>

lemma prepare_dials_the_others:
  assumes "parse self_url = Some self_addr" and "can_listen self_addr"
    and "\<forall>url \<in> set node_urls. url \<noteq> self_url \<longrightarrow> (\<exists>addr. parse url = Some addr \<and> can_dial addr)"
  shows "prepare parse can_listen can_dial self_url node_urls =
    (ListenOn self_addr # map (\<lambda>url. Dial (the (parse url))) (filter (\<lambda>url. url \<noteq> self_url) node_urls)
       :: ('p, 'b, 'c, 'a) command list, Inr ())"
proof -
  have "dial_all parse can_dial self_url node_urls =
      (map (\<lambda>url. Dial (the (parse url))) (filter (\<lambda>url. url \<noteq> self_url) node_urls)
         :: ('p, 'b, 'c, 'a) command list, Inr ())"
    using assms(3) by (induction node_urls) auto
  then show ?thesis using assms(1,2) by (simp add: prepare_def)
qed

lemma prepare_dials_the_others_witness:
  "prepare Some (\<lambda>_. True) (\<lambda>_. True) ''b'' [''a'', ''b'', ''c''] =
     (ListenOn ''b'' # map (\<lambda>url. Dial (the (Some url))) (filter (\<lambda>url. url \<noteq> ''b'') [''a'', ''b'', ''c'']),
      Inr ())"
  by (rule prepare_dials_the_others) simp_all

end
