(* ===== verification/Systems.thy ===== *)
theory Systems
  imports Main
begin

text \<open>
  Transition systems, their invariants, and one system as the specification of another. A system is
  given by its initial states and its steps; what is proved here of any system is used for the
  clusters of nodes and for the channel between an application and those that ask it.
\<close>

locale transition_system =
  fixes initial :: "'s \<Rightarrow> bool"
    and step :: "'s \<Rightarrow> 's \<Rightarrow> bool"
begin

definition reachable :: "'s \<Rightarrow> bool" where
  "reachable s \<longleftrightarrow> (\<exists>s0. initial s0 \<and> step\<^sup>*\<^sup>* s0 s)"

lemma reachable_initial: "initial s \<Longrightarrow> reachable s"
  unfolding reachable_def by blast

lemma reachable_step: "reachable s \<Longrightarrow> step s s' \<Longrightarrow> reachable s'"
  unfolding reachable_def by (blast intro: rtranclp.rtrancl_into_rtrancl)

lemma reachable_induct [consumes 1, case_names initial step]:
  assumes "reachable s" and "\<And>s. initial s \<Longrightarrow> P s"
    and "\<And>s s'. reachable s \<Longrightarrow> P s \<Longrightarrow> step s s' \<Longrightarrow> P s'"
  shows "P s"
proof -
  obtain s0 where s0: "initial s0" "step\<^sup>*\<^sup>* s0 s" using assms(1) unfolding reachable_def by blast
  from s0(2) show ?thesis
  proof (induction rule: rtranclp_induct)
    case base
    show ?case using assms(2) s0(1) by blast
  next
    case (step s s')
    then show ?case using assms(3) s0(1) unfolding reachable_def by blast
  qed
qed

end

text \<open>An inductive invariant.\<close>

locale invariant_system = transition_system initial step
  for initial :: "'s \<Rightarrow> bool" and step :: "'s \<Rightarrow> 's \<Rightarrow> bool" +
  fixes inv :: "'s \<Rightarrow> bool"
  assumes inv_initial: "initial s \<Longrightarrow> inv s"
    and inv_step: "inv s \<Longrightarrow> step s s' \<Longrightarrow> inv s'"
begin

lemma inv_reachable: "reachable s \<Longrightarrow> inv s"
  by (induction rule: reachable_induct) (auto intro: inv_initial inv_step)

lemma steps_inv: "step\<^sup>*\<^sup>* s s' \<Longrightarrow> inv s \<Longrightarrow> inv s'"
  by (induction rule: rtranclp_induct) (auto intro: inv_step)

end

text \<open>
  A functional simulation: \<open>abs\<close> maps every state to one of the specification, and, as long as the
  invariant holds, every step to a step. The reachable states are then mapped to reachable ones,
  and every invariant of the specification is one of the system.
\<close>

locale simulation = invariant_system initial step inv
  for initial :: "'s \<Rightarrow> bool" and step :: "'s \<Rightarrow> 's \<Rightarrow> bool" and inv :: "'s \<Rightarrow> bool" +
  fixes spec_initial :: "'a \<Rightarrow> bool"
    and spec_step :: "'a \<Rightarrow> 'a \<Rightarrow> bool"
    and abs :: "'s \<Rightarrow> 'a"
  assumes abs_initial: "initial s \<Longrightarrow> spec_initial (abs s)"
    and abs_step: "inv s \<Longrightarrow> step s s' \<Longrightarrow> spec_step (abs s) (abs s')"
begin

lemma abs_steps: "step\<^sup>*\<^sup>* s s' \<Longrightarrow> inv s \<Longrightarrow> spec_step\<^sup>*\<^sup>* (abs s) (abs s')"
proof (induction rule: rtranclp_induct)
  case (step s' s'')
  then show ?case using steps_inv abs_step by (meson rtranclp.rtrancl_into_rtrancl)
qed simp

lemma abs_reachable: "reachable s \<Longrightarrow> transition_system.reachable spec_initial spec_step (abs s)"
  unfolding reachable_def transition_system.reachable_def
  using abs_steps abs_initial inv_initial by blast

lemma abs_reachable_steps: "reachable s \<Longrightarrow> step s s' \<Longrightarrow> spec_step (abs s) (abs s')"
  using abs_step inv_reachable by blast

end

end
