(* ===== verification/Cluster.thy ===== *)
theory Cluster
  imports Node_Exact Node_P2P Systems
begin

text \<open>
  Any number of maroon nodes and what runs between them: every node is its application
  (\<open>Node_App\<close>, \<open>Node_Run\<close>) and its network layer (\<open>Node_P2P\<close>), joined by two channels, as
  \<open>maroon/src/stack.rs\<close> joins them; the layers are joined by a network.

  Nothing is assumed of a channel or of the network but that what comes out was put in: messages
  may be lost, delayed, reordered and duplicated. So a channel is the set of what was ever sent
  into it. A node that stops simply takes no more steps. Gateways send transactions whose ids the
  nodes accept, any number of times.
\<close>

record ('p, 'b, 'c, 'a) cluster =
  node_app :: "'p \<Rightarrow> ('p, LogLineriazer) App"
  node_net :: "'p \<Rightarrow> 'p P2P"
  to_app :: "'p \<Rightarrow> 'p Inbox set"
  to_net :: "'p \<Rightarrow> 'p Outbox set"
  wire :: "('p \<times> ('p, 'b, 'c, 'a) command) set"

definition cluster_start :: "Params \<Rightarrow> ('p, 'b, 'c, 'a) cluster" where
  "cluster_start prms = \<lparr>node_app = (\<lambda>p. App_new p prms), node_net = start_state,
     to_app = (\<lambda>_. {}), to_net = (\<lambda>_. {}), wire = {}\<rparr>"

text \<open>The iteration orders an event comes with are orders of the maps it iterates.\<close>

fun orders_of :: "'p event \<Rightarrow> ('p, 'l) App \<Rightarrow> bool" where
  "orders_of (Payload ks (Inbox_State p st)) s \<longleftrightarrow> key_order (node_offsets st) ks"
| "orders_of (Payload ks (Inbox_NewTransaction t)) s \<longleftrightarrow> key_order (buckets [t]) ks"
| "orders_of (Payload ks (Inbox_MissingTx ts)) s \<longleftrightarrow> key_order (buckets ts) ks"
| "orders_of (Payload ks msg) s \<longleftrightarrow> True"
| "orders_of e s \<longleftrightarrow> event_ok e s"

fun app_event :: "('p, 'b, 'c, 'a) cluster \<Rightarrow> 'p \<Rightarrow> 'p event \<Rightarrow> bool" where
  "app_event c p (Payload ks msg) \<longleftrightarrow> msg \<in> to_app c p \<and> orders_of (Payload ks msg) (node_app c p)"
| "app_event c p e \<longleftrightarrow> orders_of e (node_app c p)"

text \<open>What the swarm of a node may report.\<close>

fun swarm_reports :: "('p, 'b, 'c, 'a) cluster \<Rightarrow> 'p \<Rightarrow> ('p, 'b, 'c) swarm_event \<Rightarrow> bool" where
  "swarm_reports c p (Gossipsub_Message data) \<longleftrightarrow> (\<exists>q. q \<noteq> p \<and> (q, Publish data) \<in> wire c)"
| "swarm_reports c p (M2MReqRes (RR_Message q (RR_Request req _))) \<longleftrightarrow>
     q \<noteq> p \<and> (q, SendM2MRequest p req) \<in> wire c"
| "swarm_reports c p (RequestResponse (RR_Message q (RR_Request (GM_NewTransaction t) _))) \<longleftrightarrow>
     q \<noteq> p \<and> valid_id (tx_id t)"
| "swarm_reports c p ev \<longleftrightarrow> p \<notin> event_peers ev"

fun net_event :: "('p, 'b, 'c, 'a) cluster \<Rightarrow> 'p \<Rightarrow> ('p, 'b, 'c) p2p_event \<Rightarrow> bool" where
  "net_event c p (From_App msg) \<longleftrightarrow> msg \<in> to_net c p"
| "net_event c p (From_Swarm ev) \<longleftrightarrow> swarm_reports c p ev"

inductive cluster_step ::
    "('p GossipMessage \<Rightarrow> 'b option) \<Rightarrow> ('b \<Rightarrow> 'p GossipMessage option) \<Rightarrow> (u8 list \<Rightarrow> u8 list) \<Rightarrow>
      ('p :: linorder, 'b, 'c, 'a) cluster \<Rightarrow> ('p, 'b, 'c, 'a) cluster \<Rightarrow> bool"
  for to_vec from_slice sha256
where
  app: "app_event c p e \<Longrightarrow>
    app_step LogLineriazer_new_epoch sha256 True e (node_app c p) = Some (Inr (s', out, resp)) \<Longrightarrow>
    cluster_step to_vec from_slice sha256 c
      (c\<lparr>node_app := (node_app c)(p := s'), to_net := (to_net c)(p := to_net c p \<union> set out)\<rparr>)"
| net: "net_event c p e \<Longrightarrow>
    p2p_step to_vec from_slice True e (node_net c p) = Inr (st', msgs, commands) \<Longrightarrow>
    cluster_step to_vec from_slice sha256 c
      (c\<lparr>node_net := (node_net c)(p := st'), to_app := (to_app c)(p := to_app c p \<union> set msgs),
         wire := wire c \<union> Pair p ` set commands\<rparr>)"

text \<open>The steps in which no gateway is heard: what the nodes do among themselves.\<close>

fun from_gateway :: "('p, 'b, 'c) p2p_event \<Rightarrow> bool" where
  "from_gateway (From_Swarm (RequestResponse _)) \<longleftrightarrow> True"
| "from_gateway _ \<longleftrightarrow> False"

inductive inner_step ::
    "('p GossipMessage \<Rightarrow> 'b option) \<Rightarrow> ('b \<Rightarrow> 'p GossipMessage option) \<Rightarrow> (u8 list \<Rightarrow> u8 list) \<Rightarrow>
      ('p :: linorder, 'b, 'c, 'a) cluster \<Rightarrow> ('p, 'b, 'c, 'a) cluster \<Rightarrow> bool"
  for to_vec from_slice sha256
where
  app: "app_event c p e \<Longrightarrow>
    app_step LogLineriazer_new_epoch sha256 True e (node_app c p) = Some (Inr (s', out, resp)) \<Longrightarrow>
    inner_step to_vec from_slice sha256 c
      (c\<lparr>node_app := (node_app c)(p := s'), to_net := (to_net c)(p := to_net c p \<union> set out)\<rparr>)"
| net: "net_event c p e \<Longrightarrow>
    p2p_step to_vec from_slice True e (node_net c p) = Inr (st', msgs, commands) \<Longrightarrow> \<not> from_gateway e \<Longrightarrow>
    inner_step to_vec from_slice sha256 c
      (c\<lparr>node_net := (node_net c)(p := st'), to_app := (to_app c)(p := to_app c p \<union> set msgs),
         wire := wire c \<union> Pair p ` set commands\<rparr>)"

lemma inner_cluster: "inner_step to_vec from_slice sha256 c c' \<Longrightarrow> cluster_step to_vec from_slice sha256 c c'"
  by (induction rule: inner_step.induct) (auto intro: cluster_step.intros)

lemma inner_steps_cluster:
  "(inner_step to_vec from_slice sha256)\<^sup>*\<^sup>* c c' \<Longrightarrow> (cluster_step to_vec from_slice sha256)\<^sup>*\<^sup>* c c'"
  by (rule mono_rtranclp [rule_format]) (rule inner_cluster)

abbreviation reachable ::
    "('p GossipMessage \<Rightarrow> 'b option) \<Rightarrow> ('b \<Rightarrow> 'p GossipMessage option) \<Rightarrow> (u8 list \<Rightarrow> u8 list) \<Rightarrow>
      Params \<Rightarrow> ('p :: linorder, 'b, 'c, 'a) cluster \<Rightarrow> bool"
where
  "reachable to_vec from_slice sha256 prms c \<equiv>
     (cluster_step to_vec from_slice sha256)\<^sup>*\<^sup>* (cluster_start prms) c"

section \<open>What is true of every message\<close>

text \<open>
  The stores only grow, so what a message says of a node stays true. \<open>T q\<close> is the store of \<open>q\<close>.
\<close>

definition state_true :: "('p \<Rightarrow> tx_map) \<Rightarrow> 'p \<Rightarrow> NodeState \<Rightarrow> bool" where
  "state_true T q st \<longleftrightarrow>
     (\<forall>r v. node_offsets st r = Some v \<longrightarrow> valid_pos r v \<and> holds_upto (T q) r v)"

fun inbox_true :: "('p \<Rightarrow> tx_map) \<Rightarrow> 'p \<Rightarrow> 'p Inbox \<Rightarrow> bool" where
  "inbox_true T p (Inbox_State q st) \<longleftrightarrow> q \<noteq> p \<and> state_true T q st"
| "inbox_true T p (Inbox_Nodes ns) \<longleftrightarrow> finite ns \<and> p \<in> ns"
| "inbox_true T p (Inbox_NewTransaction t) \<longleftrightarrow> valid_id (tx_id t)"
| "inbox_true T p (Inbox_RequestMissingTxs q is) \<longleftrightarrow> committable is \<and> all_stored (T p) is"
| "inbox_true T p (Inbox_MissingTx ts) \<longleftrightarrow> (\<forall>t \<in> set ts. valid_id (tx_id t))"

fun outbox_true :: "('p \<Rightarrow> tx_map) \<Rightarrow> 'p \<Rightarrow> 'p Outbox \<Rightarrow> bool" where
  "outbox_true T p (Outbox_State st) \<longleftrightarrow> state_true T p st"
| "outbox_true T p (Outbox_RequestMissingTxs q is) \<longleftrightarrow> committable is \<and> all_stored (T q) is"
| "outbox_true T p (Outbox_RequestedTxsForPeer q ts) \<longleftrightarrow> (\<forall>t \<in> set ts. valid_id (tx_id t))"

fun command_true ::
    "('p GossipMessage \<Rightarrow> 'b option) \<Rightarrow> ('p \<Rightarrow> tx_map) \<Rightarrow> 'p \<Rightarrow> ('p, 'b, 'c, 'a) command \<Rightarrow> bool" where
  "command_true to_vec T p (Publish data) \<longleftrightarrow>
     (\<exists>st. to_vec \<lparr>gossip_peer_id = p, gossip_payload = Gossip_State st\<rparr> = Some data \<and>
        state_true T p st)"
| "command_true to_vec T p (SendM2MRequest q (GetMissingTx is)) \<longleftrightarrow> committable is \<and> all_stored (T q) is"
| "command_true to_vec T p (SendM2MRequest q (M2M_MissingTx ts)) \<longleftrightarrow> (\<forall>t \<in> set ts. valid_id (tx_id t))"
| "command_true to_vec T p _ \<longleftrightarrow> True"

definition more :: "('p \<Rightarrow> tx_map) \<Rightarrow> ('p \<Rightarrow> tx_map) \<Rightarrow> bool" where
  "more T T' \<longleftrightarrow> (\<forall>p. dom (T p) \<subseteq> dom (T' p))"

lemma holds_upto_more: "holds_upto (T q) r v \<Longrightarrow> more T T' \<Longrightarrow> holds_upto (T' q) r v"
  unfolding more_def by (blast intro: holds_upto_mono)

lemma all_stored_more: "all_stored (T q) is \<Longrightarrow> more T T' \<Longrightarrow> all_stored (T' q) is"
  unfolding more_def all_stored_def by (blast intro: has_tx_mono)

lemma state_true_mono: "state_true T q st \<Longrightarrow> more T T' \<Longrightarrow> state_true T' q st"
  unfolding state_true_def by (blast intro: holds_upto_more)

lemmas more_intros = holds_upto_more all_stored_more state_true_mono

lemma inbox_true_mono: "inbox_true T p m \<Longrightarrow> more T T' \<Longrightarrow> inbox_true T' p m"
  by (cases m) (auto intro: more_intros)

lemma outbox_true_mono: "outbox_true T p m \<Longrightarrow> more T T' \<Longrightarrow> outbox_true T' p m"
  by (cases m) (auto intro: more_intros)

lemma command_true_mono: "command_true to_vec T p cmd \<Longrightarrow> more T T' \<Longrightarrow> command_true to_vec T' p cmd"
  by (cases "(to_vec, T, p, cmd)" rule: command_true.cases) (auto intro: more_intros)

text \<open>A quorum holds every transaction of a range up to an offset.\<close>

definition quorum :: "('p \<Rightarrow> tx_map) \<Rightarrow> nat \<Rightarrow> KeyRange \<Rightarrow> KeyOffset \<Rightarrow> bool" where
  "quorum T n r v \<longleftrightarrow> (\<exists>Q. finite Q \<and> n \<le> card Q \<and> (\<forall>q \<in> Q. holds_upto (T q) r v))"

lemma quorum_mono: "quorum T n r v \<Longrightarrow> more T T' \<Longrightarrow> quorum T' n r v"
  unfolding quorum_def by (blast intro: holds_upto_more)

definition stores :: "('p, 'b, 'c, 'a) cluster \<Rightarrow> 'p \<Rightarrow> tx_map" where
  "stores c p = transactions (node_app c p)"

section \<open>The invariant\<close>

definition node_inv :: "('p \<Rightarrow> tx_map) \<Rightarrow> nat \<Rightarrow> 'p \<Rightarrow> ('p, LogLineriazer) App \<Rightarrow> bool" where
  "node_inv T n p s \<longleftrightarrow> app_inv sequence s \<and> exact_inv s \<and> peer_id s = p \<and> consensus_nodes (params s) = n \<and>
     (\<forall>r q v. offset_of (offsets s) r q = Some v \<longrightarrow> holds_upto (T q) r v) \<and>
     (\<forall>r v. consensus_offset s r = Some v \<longrightarrow> quorum T n r v) \<and>
     (\<forall>r v. commited_offsets s r = Some v \<longrightarrow> quorum T n r v)"

definition net_inv :: "'p \<Rightarrow> 'p P2P \<Rightarrow> bool" where
  "net_inv p st \<longleftrightarrow> p2p_inv st \<and> p2p_peer_id st = p"

definition messages_true ::
    "('p GossipMessage \<Rightarrow> 'b option) \<Rightarrow> ('p \<Rightarrow> tx_map) \<Rightarrow> ('p, 'b, 'c, 'a) cluster \<Rightarrow> bool" where
  "messages_true to_vec T c \<longleftrightarrow>
     (\<forall>p. \<forall>m \<in> to_app c p. inbox_true T p m) \<and>
     (\<forall>p. \<forall>m \<in> to_net c p. outbox_true T p m) \<and>
     (\<forall>(p, cmd) \<in> wire c. command_true to_vec T p cmd)"

definition cluster_inv ::
    "('p GossipMessage \<Rightarrow> 'b option) \<Rightarrow> nat \<Rightarrow> ('p, 'b, 'c, 'a) cluster \<Rightarrow> bool" where
  "cluster_inv to_vec n c \<longleftrightarrow>
     (\<forall>p. node_inv (stores c) n p (node_app c p) \<and> net_inv p (node_net c p)) \<and>
     messages_true to_vec (stores c) c"

lemma node_inv_mono: "node_inv T n p s \<Longrightarrow> more T T' \<Longrightarrow> node_inv T' n p s"
  unfolding node_inv_def by (blast intro: holds_upto_more quorum_mono)

lemma messages_true_mono: "messages_true to_vec T c \<Longrightarrow> more T T' \<Longrightarrow> messages_true to_vec T' c"
  unfolding messages_true_def
  by (blast intro: inbox_true_mono outbox_true_mono command_true_mono)

lemma node_inv_start:
  "0 < consensus_nodes prms \<Longrightarrow> node_inv T (consensus_nodes prms) p (App_new p prms)"
  using app_inv_new [of prms p] exact_inv_new [of p prms]
  by (simp add: node_inv_def) (simp add: App_new_def offset_of_def)

lemma cluster_inv_start:
  "0 < consensus_nodes prms \<Longrightarrow> cluster_inv to_vec (consensus_nodes prms) (cluster_start prms)"
  by (simp add: cluster_inv_def cluster_start_def messages_true_def net_inv_def p2p_inv_start
      node_inv_start)

lemma cluster_invD:
  assumes "cluster_inv to_vec n c"
  shows "node_inv (stores c) n p (node_app c p)" and "net_inv p (node_net c p)"
    and "m \<in> to_app c p \<Longrightarrow> inbox_true (stores c) p m"
    and "out \<in> to_net c p \<Longrightarrow> outbox_true (stores c) p out"
    and "(p, cmd) \<in> wire c \<Longrightarrow> command_true to_vec (stores c) p cmd"
  using assms unfolding cluster_inv_def messages_true_def by blast+

section \<open>A step of an application\<close>

lemma event_ok_cluster:
  assumes inv: "cluster_inv to_vec n c" and e: "app_event c p e"
  shows "event_ok e (node_app c p)"
proof (cases e)
  case (Payload ks msg)
  then have "inbox_true (stores c) p msg" and "orders_of e (node_app c p)"
    using inv e by (auto simp: cluster_inv_def messages_true_def)
  moreover have "peer_id (node_app c p) = p" using inv by (simp add: cluster_inv_def node_inv_def)
  ultimately show ?thesis
    by (cases msg) (auto simp: Payload valid_offsets_def state_true_def stores_def)
qed (use e in simp_all)

text \<open>A request that is covered by what a node told is answered by what it stores.\<close>

lemma covered_stored:
  assumes "\<forall>i \<in> set is. covered offs q i"
    and "\<forall>r v. offset_of offs r q = Some v \<longrightarrow> holds_upto txs r v"
  shows "all_stored txs is"
proof -
  have "has_tx txs k" if i: "i \<in> set is" and k: "left i \<le> k" "k \<le> right i" for i k
  proof -
    obtain r v where rv: "offset_of offs r q = Some v" "within r v i"
      using assms(1) i by (auto simp: covered_def)
    then have "holds_upto txs r v" using assms(2) by blast
    moreover have "unat r * 1073741824 \<le> unat k" "unat k \<le> unat r * 1073741824 + unat v"
      using rv(2) k by (auto simp: within_def unat_simps)
    ultimately show ?thesis
      by (intro holds_uptoD [of txs r v k "unat k - unat r * 1073741824"]) simp_all
  qed
  then show ?thesis by (auto simp: all_stored_def set_ids_of)
qed

lemma said_true:
  assumes inv: "cluster_inv to_vec n c" and e: "app_event c p e"
    and said: "said e (node_app c p) m"
  shows "outbox_true (stores c) p m"
proof -
  have node: "node_inv (stores c) n p (node_app c p)" using inv by (simp add: cluster_inv_def)
  then have store: "store_inv (node_app c p)" by (simp add: node_inv_def app_inv_def)
  show ?thesis
  proof (cases m)
    case (Outbox_State st)
    then show ?thesis
      using said store by (auto simp: state_true_def store_inv_def offsets_sound_def stores_def)
  next
    case (Outbox_RequestMissingTxs q "is")
    then have req: "committable is" "\<forall>i \<in> set is. covered (offsets (node_app c p)) q i"
      using said by simp_all
    have "\<forall>r v. offset_of (offsets (node_app c p)) r q = Some v \<longrightarrow> holds_upto (stores c q) r v"
      using node by (simp add: node_inv_def)
    then have "all_stored (stores c q) is" by (rule covered_stored [OF req(2)])
    with req(1) show ?thesis by (simp add: Outbox_RequestMissingTxs)
  next
    case (Outbox_RequestedTxsForPeer q ts)
    then obtain ks "is" where msg: "e = Payload ks (Inbox_RequestMissingTxs q is)"
      and ts: "ts = map (the \<circ> transactions (node_app c p)) (ids_of is)"
      using said by auto
    have "Inbox_RequestMissingTxs q is \<in> to_app c p" using e msg by simp
    then have "inbox_true (stores c) p (Inbox_RequestMissingTxs q is)"
      by (rule cluster_invD(3) [OF inv])
    then show ?thesis
      using store by (auto simp: Outbox_RequestedTxsForPeer ts all_stored_def stores_def has_tx_def
          store_inv_def tx_map_wf_def)
  qed
qed

lemma supported_quorum:
  assumes "supported s r v" and "consensus_nodes (params s) = n"
    and "\<forall>r q v. offset_of (offsets s) r q = Some v \<longrightarrow> holds_upto (T q) r v"
  shows "quorum T n r v"
proof -
  obtain Q where Q: "finite Q" "n \<le> card Q"
    "\<forall>q \<in> Q. \<exists>w. offset_of (offsets s) r q = Some w \<and> v \<le> w"
    using assms(1,2) by (auto simp: supported_def)
  have "holds_upto (T q) r v" if q: "q \<in> Q" for q
  proof -
    obtain w where "offset_of (offsets s) r q = Some w" "v \<le> w" using Q(3) q by blast
    then show ?thesis using assms(3) holds_upto_le [of "T q" r w v] by (auto simp: unat_simps)
  qed
  with Q(1,2) show ?thesis unfolding quorum_def by blast
qed

lemma heard_true:
  assumes inv: "cluster_inv to_vec n c" and e: "app_event c p e"
    and heard: "heard_event e (offsets (node_app c p)) r q = Some v"
  shows "holds_upto (stores c q) r v"
proof -
  have old: "offset_of (offsets (node_app c p)) r q = Some v \<Longrightarrow> holds_upto (stores c q) r v"
    using inv by (simp add: cluster_inv_def node_inv_def)
  show ?thesis
  proof (cases "\<exists>ks st. e = Payload ks (Inbox_State q st) \<and> node_offsets st r = Some v")
    case True
    then obtain st where "Inbox_State q st \<in> to_app c p" "node_offsets st r = Some v"
      using e by auto
    then have "inbox_true (stores c) p (Inbox_State q st)" "node_offsets st r = Some v"
      using cluster_invD(3) [OF inv] by blast+
    then show ?thesis by (simp add: state_true_def)
  next
    case False
    have "offset_of (offsets (node_app c p)) r q = Some v"
    proof (cases e)
      case (Payload ks msg)
      with False heard show ?thesis
        by (cases msg) (auto split: if_splits option.splits)
    qed (use heard in simp_all)
    then show ?thesis by (rule old)
  qed
qed

lemma app_step_inv:
  assumes inv: "cluster_inv to_vec n c" and e: "app_event c p e"
    and step: "app_step LogLineriazer_new_epoch sha256 True e (node_app c p) = Some (Inr (s', out, resp))"
  shows "cluster_inv to_vec n
    (c\<lparr>node_app := (node_app c)(p := s'), to_net := (to_net c)(p := to_net c p \<union> set out)\<rparr>)"
    (is "cluster_inv _ _ ?c'")
proof -
  have node: "node_inv (stores c) n p (node_app c p)" using inv by (simp add: cluster_inv_def)
  then have app: "app_inv sequence (node_app c p)" by (simp add: node_inv_def)
  have app': "app_inv sequence s'" and eff: "effects e (node_app c p) s' out"
    using log_lin.app_step_ok [OF app event_ok_cluster [OF inv e], of sha256] step by auto
  have exact: "exact_inv s'"
    using app_step_exact [OF app event_ok_cluster [OF inv e] _ step] node by (simp add: node_inv_def)
  have more: "more (stores c) (stores ?c')"
    using eff by (auto simp: effects_def grows_def more_def stores_def)
  have "holds_upto (stores ?c' q) r v" if "offset_of (offsets s') r q = Some v" for r q v
  proof (cases "q = p")
    case True
    then have "self_offsets s' r = Some v"
      using that app' eff node by (simp add: app_inv_def table_inv_def effects_def grows_def node_inv_def)
    then show ?thesis
      using app' True by (simp add: app_inv_def store_inv_def offsets_sound_def stores_def)
  next
    case False
    then have "heard_event e (offsets (node_app c p)) r q = Some v"
      using that eff node by (simp add: effects_def node_inv_def)
    then show ?thesis using heard_true [OF inv e] holds_upto_more [OF _ more] by blast
  qed
  moreover have "quorum (stores ?c') n r v"
    if "consensus_offset s' r = Some v \<or> commited_offsets s' r = Some v" for r v
  proof -
    have "consensus_offset (node_app c p) r = Some v \<or> commited_offsets (node_app c p) r = Some v \<or>
        supported (node_app c p) r v"
      using that eff by (auto simp: effects_def)
    then have "quorum (stores c) n r v"
      using node supported_quorum [of "node_app c p" r v n "stores c"] by (auto simp: node_inv_def)
    then show ?thesis by (rule quorum_mono [OF _ more])
  qed
  ultimately have "node_inv (stores ?c') n p s'"
    using app' exact eff node by (simp add: node_inv_def effects_def grows_def)
  then have nodes: "node_inv (stores ?c') n q (node_app ?c' q)" for q
    using inv node_inv_mono [OF _ more] by (simp add: cluster_inv_def)
  have "messages_true to_vec (stores ?c') c"
    by (rule messages_true_mono [OF _ more]) (use inv in \<open>simp add: cluster_inv_def\<close>)
  moreover have "\<forall>m \<in> set out. outbox_true (stores ?c') p m"
    using eff said_true [OF inv e] outbox_true_mono [OF _ more] by (simp add: effects_def)
  ultimately have "messages_true to_vec (stores ?c') ?c'"
    by (auto simp: messages_true_def)
  with nodes inv show ?thesis by (simp add: cluster_inv_def)
qed

section \<open>A step of a network layer\<close>

definition codec :: "('p GossipMessage \<Rightarrow> 'b option) \<Rightarrow> ('b \<Rightarrow> 'p GossipMessage option) \<Rightarrow> bool" where
  "codec to_vec from_slice \<longleftrightarrow> (\<forall>m b. to_vec m = Some b \<longrightarrow> from_slice b = Some m)"

lemma outbox_commands_true:
  assumes "outbox_true T p m" and "cmd \<in> set (handle_receiver_outbox to_vec m p)"
  shows "command_true to_vec T p cmd"
  using assms by (cases m) (auto split: option.splits)

text \<open>What a handler of swarm events commands is never a gossip message or a request to a node.\<close>

lemma swarm_commands_kind:
  assumes "handle_swarm_event from_slice alive ev st = Inr (st', msgs, commands)" and "cmd \<in> set commands"
  shows "cmd \<noteq> Publish b" and "cmd \<noteq> SendM2MRequest q r"
  using assms
  by (cases "(from_slice, alive, ev, st)" rule: handle_swarm_event.cases;
    auto simp: rbind_def Let_def
      split: option.splits if_splits prod.splits GossipPayload.splits sum.splits
      elim!: handle_m2m_req_res.elims handle_request_response.elims handle_meta_exchange.elims)+

lemma swarm_commands:
  assumes "handle_swarm_event from_slice alive ev st = Inr (st', msgs, commands)" and "cmd \<in> set commands"
  shows "command_true to_vec T p cmd"
  using swarm_commands_kind [OF assms] by (cases cmd) auto

lemma brings_true:
  assumes inv: "cluster_inv to_vec n c" and codec: "codec to_vec from_slice"
    and ev: "swarm_reports c p ev" and m: "m \<in> set (event_brings from_slice ev)"
  shows "inbox_true (stores c) p m"
proof (cases "(from_slice, ev)" rule: event_brings.cases)
  case (1 _ data)
  then obtain q where q: "q \<noteq> p" "(q, Publish data) \<in> wire c" using ev by auto
  from cluster_invD(5) [OF inv q(2)] obtain st where
    st: "to_vec \<lparr>gossip_peer_id = q, gossip_payload = Gossip_State st\<rparr> = Some data"
      "state_true (stores c) q st" by auto
  then have "from_slice data = Some \<lparr>gossip_peer_id = q, gossip_payload = Gossip_State st\<rparr>"
    using codec by (simp add: codec_def)
  with m 1 q(1) st(2) show ?thesis by simp
next
  case (2 _ q req ch)
  then have "(q, SendM2MRequest p req) \<in> wire c" using ev by simp
  from cluster_invD(5) [OF inv this] show ?thesis using m 2 by (cases req) auto
next
  case (3 _ q t ch)
  then show ?thesis using ev m by simp
qed (use m in simp_all)

lemma swarm_reports_peers: "swarm_reports c p ev \<Longrightarrow> cluster_inv to_vec n c \<Longrightarrow> p \<notin> event_peers ev"
  by (cases "(c, p, ev)" rule: swarm_reports.cases) auto

text \<open>The layer returns on every event, and what it passes on is true.\<close>

lemma p2p_step_ok:
  fixes c :: "('p :: linorder, 'b, 'c, 'a) cluster"
  assumes inv: "cluster_inv to_vec n c" and codec: "codec to_vec from_slice" and e: "net_event c p e"
  shows "\<exists>st' msgs (commands :: ('p, 'b, 'c, 'a) command list).
    p2p_step to_vec from_slice True e (node_net c p) = Inr (st', msgs, commands) \<and>
    net_inv p st' \<and> (\<forall>m \<in> set msgs. inbox_true (stores c) p m) \<and>
    (\<forall>cmd \<in> set commands. command_true to_vec (stores c) p cmd)"
proof -
  have net: "p2p_inv (node_net c p)" "p2p_peer_id (node_net c p) = p"
    using cluster_invD(2) [OF inv, of p] by (simp_all add: net_inv_def)
  show ?thesis
  proof (cases e)
    case (From_App m)
    then have "outbox_true (stores c) p m" using cluster_invD(4) [OF inv] e by simp
    then show ?thesis
      using net outbox_commands_true by (fastforce simp: From_App net_inv_def)
  next
    case (From_Swarm ev)
    then have ev: "swarm_reports c p ev" using e by simp
    obtain st' msgs and commands :: "('p, 'b, 'c, 'a) command list" where
      h: "handle_swarm_event from_slice True ev (node_net c p) = Inr (st', msgs, commands)"
      "p2p_inv st'" "p2p_peer_id st' = p"
      "msgs = event_brings from_slice ev \<or> msgs = [Inbox_Nodes (alive_peer_ids st')]"
      using handle_swarm_event_ok [OF net(1), of ev from_slice] swarm_reports_peers [OF ev inv] net(2)
      by auto
    have "\<forall>m \<in> set msgs. inbox_true (stores c) p m"
      using h(2-4) brings_true [OF inv codec ev] by (auto simp: p2p_inv_def)
    moreover have "\<forall>cmd \<in> set commands. command_true to_vec (stores c) p cmd"
      using swarm_commands [OF h(1)] by blast
    ultimately show ?thesis
      using h(1-3) by (auto simp: From_Swarm net_inv_def)
  qed
qed

lemma stores_net [simp]:
  "stores (c\<lparr>node_net := a, to_app := b, wire := w\<rparr>) = stores c"
  by (simp add: stores_def fun_eq_iff)

lemma net_step_inv:
  fixes c :: "('p :: linorder, 'b, 'c, 'a) cluster"
  assumes inv: "cluster_inv to_vec n c" and codec: "codec to_vec from_slice" and e: "net_event c p e"
    and step: "p2p_step to_vec from_slice True e (node_net c p) = Inr (st', msgs, commands)"
  shows "cluster_inv to_vec n
    (c\<lparr>node_net := (node_net c)(p := st'), to_app := (to_app c)(p := to_app c p \<union> set msgs),
       wire := wire c \<union> Pair p ` set commands\<rparr>)"
proof -
  have "net_inv p st'" "\<forall>m \<in> set msgs. inbox_true (stores c) p m"
    "\<forall>cmd \<in> set commands. command_true to_vec (stores c) p cmd"
    using p2p_step_ok [OF inv codec e] step by auto
  then show ?thesis
    using inv by (auto simp: cluster_inv_def messages_true_def)
qed

section \<open>Reachable clusters\<close>

lemma cluster_step_inv:
  "cluster_step to_vec from_slice sha256 c c' \<Longrightarrow> codec to_vec from_slice \<Longrightarrow>
     cluster_inv to_vec n c \<Longrightarrow> cluster_inv to_vec n c'"
  by (cases rule: cluster_step.cases) (auto intro: app_step_inv net_step_inv)

lemma inner_step_inv:
  "inner_step to_vec from_slice sha256 c c' \<Longrightarrow> codec to_vec from_slice \<Longrightarrow>
     cluster_inv to_vec n c \<Longrightarrow> cluster_inv to_vec n c'"
  by (rule cluster_step_inv [OF inner_cluster])

definition cluster_initial ::
    "('p GossipMessage \<Rightarrow> 'b option) \<Rightarrow> ('b \<Rightarrow> 'p GossipMessage option) \<Rightarrow> Params \<Rightarrow>
      ('p, 'b, 'c, 'a) cluster \<Rightarrow> bool" where
  "cluster_initial to_vec from_slice prms c \<longleftrightarrow>
     codec to_vec from_slice \<and> 0 < consensus_nodes prms \<and> c = cluster_start prms"

definition cluster_ok ::
    "('p GossipMessage \<Rightarrow> 'b option) \<Rightarrow> ('b \<Rightarrow> 'p GossipMessage option) \<Rightarrow> nat \<Rightarrow>
      ('p, 'b, 'c, 'a) cluster \<Rightarrow> bool" where
  "cluster_ok to_vec from_slice n c \<longleftrightarrow> codec to_vec from_slice \<and> cluster_inv to_vec n c"

interpretation clusters: invariant_system "cluster_initial to_vec from_slice prms"
    "cluster_step to_vec from_slice sha256" "cluster_ok to_vec from_slice (consensus_nodes prms)"
  for to_vec from_slice prms sha256
  by unfold_locales
    (auto simp: cluster_initial_def cluster_ok_def intro: cluster_inv_start cluster_step_inv)

lemma reachable_clusters:
  assumes "reachable to_vec from_slice sha256 prms c" and "codec to_vec from_slice"
    and "0 < consensus_nodes prms"
  shows "clusters.reachable to_vec from_slice prms sha256 c"
  using assms unfolding clusters.reachable_def by (auto simp: cluster_initial_def)

lemma reachable_inv:
  assumes "reachable to_vec from_slice sha256 prms c" and "codec to_vec from_slice"
    and "0 < consensus_nodes prms"
  shows "cluster_inv to_vec (consensus_nodes prms) c"
  using clusters.inv_reachable [OF reachable_clusters [OF assms]] by (simp add: cluster_ok_def)

end
