(* ===== verification/Replicated_Log.thy ===== *)
theory Replicated_Log
  imports Cluster "HOL-Library.Sublist"
begin

text \<open>
  What a cluster promises, without how: a replicated log. A node holds ids and has a log; it may
  come to hold more, and it may append to its log ids that enough nodes hold, such that the ids of
  every range stand in its log in order and without gaps. A cluster is shown to be a replicated log
  by a simulation: its nodes hold what their applications store, and log what their linearizers
  log. What holds of every replicated log is then true of every cluster.
\<close>

section \<open>The specification\<close>

record 'p replicated_log =
  held :: "'p \<Rightarrow> UniqueU64BlobId set"
  logged :: "'p \<Rightarrow> UniqueU64BlobId list"

definition log_start :: "'p replicated_log" where
  "log_start = \<lparr>held = (\<lambda>_. {}), logged = (\<lambda>_. [])\<rparr>"

definition held_by :: "nat \<Rightarrow> 'p replicated_log \<Rightarrow> UniqueU64BlobId \<Rightarrow> bool" where
  "held_by n a k \<longleftrightarrow> (\<exists>Q. finite Q \<and> n \<le> card Q \<and> (\<forall>q \<in> Q. k \<in> held a q))"

definition in_order :: "UniqueU64BlobId list \<Rightarrow> bool" where
  "in_order ks \<longleftrightarrow> (\<forall>r. \<exists>m. filter (in_block r) ks = map (\<lambda>j. u64 (unat r * 1073741824 + j)) [0..<m])"

inductive log_step :: "nat \<Rightarrow> 'p replicated_log \<Rightarrow> 'p replicated_log \<Rightarrow> bool" for n where
  hold: "log_step n a (a\<lparr>held := (held a)(p := held a p \<union> K)\<rparr>)"
| append: "\<forall>k \<in> set new. held_by n a k \<Longrightarrow> in_order (logged a p @ new) \<Longrightarrow>
    log_step n a (a\<lparr>logged := (logged a)(p := logged a p @ new)\<rparr>)"

text \<open>Every id in a log is held by \<open>n\<close> nodes, and the logs are in order.\<close>

definition log_ok :: "nat \<Rightarrow> 'p replicated_log \<Rightarrow> bool" where
  "log_ok n a \<longleftrightarrow> (\<forall>p. in_order (logged a p) \<and> (\<forall>k \<in> set (logged a p). held_by n a k))"

lemma held_by_mono: "held_by n a k \<Longrightarrow> (\<And>q. held a q \<subseteq> held a' q) \<Longrightarrow> held_by n a' k"
  unfolding held_by_def by blast

lemma log_step_ok:
  assumes "log_step n a a'" and "log_ok n a"
  shows "log_ok n a'"
  using assms(1)
proof (cases rule: log_step.cases)
  case (hold p K)
  have "held_by n a k \<Longrightarrow> held_by n a' k" for k
    by (rule held_by_mono) (auto simp: hold)
  with assms(2) show ?thesis by (simp add: log_ok_def hold)
next
  case (append new p)
  have "held_by n a' k \<longleftrightarrow> held_by n a k" for k by (simp add: held_by_def append)
  with assms(2) append show ?thesis by (auto simp: log_ok_def)
qed

interpretation rlog: invariant_system "\<lambda>a. a = log_start" "log_step n" "log_ok n" for n
  by unfold_locales (simp add: log_ok_def log_start_def in_order_def, blast intro: log_step_ok)

text \<open>Of two logs in order one has, of every range, a prefix of what the other has.\<close>

lemma in_order_prefix:
  assumes "in_order ks" and "in_order ls"
  shows "prefix (filter (in_block r) ks) (filter (in_block r) ls) \<or>
    prefix (filter (in_block r) ls) (filter (in_block r) ks)"
proof -
  let ?f = "\<lambda>m. map (\<lambda>j. u64 (unat r * 1073741824 + j)) [0..<m]"
  have pre: "prefix (?f m) (?f n)" if "m \<le> n" for m n
    using that by (intro map_mono_prefix) (metis le_add_diff_inverse prefixI upt_add_eq_append zero_le)
  obtain m n where "filter (in_block r) ks = ?f m" "filter (in_block r) ls = ?f n"
    using assms unfolding in_order_def by blast
  then show ?thesis using pre by (metis nat_le_linear)
qed

section \<open>A cluster is a replicated log\<close>

definition log_of_cluster :: "('p, 'b, 'c, 'a) cluster \<Rightarrow> 'p replicated_log" where
  "log_of_cluster c = \<lparr>held = (\<lambda>p. dom (transactions (node_app c p))),
     logged = (\<lambda>p. sequence (linearizer (node_app c p)))\<rparr>"

text \<open>An event changes the store of a node or its log, never both.\<close>

lemma commit_log:
  assumes "commit_epoch_if_needed LogLineriazer_new_epoch sha256 co s = Inr s'"
  shows "transactions s' = transactions s \<and> prefix (sequence (linearizer s)) (sequence (linearizer s'))"
  using assms
  by (auto simp: commit_epoch_if_needed_def Let_def res_simps dest!: LogLineriazer_new_epoch_eq)

lemma app_step_log:
  assumes "app_step LogLineriazer_new_epoch sha256 alive e s = Some (Inr (s', out, resp))"
  shows "linearizer s' = linearizer s \<or>
    transactions s' = transactions s \<and> prefix (sequence (linearizer s)) (sequence (linearizer s'))"
proof (cases e)
  case (AdvertiseTick ro po dos)
  then show ?thesis
    using assms by (auto simp: advertise_offsets_and_request_missing_def Let_def res_simps
        recalculate_consensus_offsets_def split: if_splits)
next
  case (EpochTick co)
  then show ?thesis using assms commit_log [of sha256 co s s'] by (auto simp: res_simps)
next
  case (Payload ks msg)
  then show ?thesis
    using assms handle_inbox_frame [of alive ks msg s s'] by (auto simp: res_simps)
qed (use assms in auto)

lemma log_matches_in_order:
  assumes "log_matches m ks" and "valid_offsets m"
  shows "in_order ks"
  unfolding in_order_def
proof
  fix r
  show "\<exists>n. filter (in_block r) ks = map (\<lambda>j. u64 (unat r * 1073741824 + j)) [0..<n]"
  proof (cases "m r")
    case None
    then have "filter (in_block r) ks = map (\<lambda>j. u64 (unat r * 1073741824 + j)) [0..<0]"
      using assms(1) by (simp add: log_matches_def)
    then show ?thesis by blast
  next
    case (Some v)
    let ?b = "unat r * 1073741824"
    have "valid_pos r v" using assms(2) Some by (simp add: valid_offsets_def)
    then have small: "?b + unat v < 18446744073709551616" by (auto simp: valid_pos_def)
    have "map (\<lambda>j. u64 (?b + j)) [0..<Suc (unat v)] = map u64 [?b..<Suc (?b + unat v)]"
      by (rule nth_equalityI) (auto simp del: upt_Suc)
    then have "filter (in_block r) ks = map (\<lambda>j. u64 (?b + j)) [0..<Suc (unat v)]"
      using assms(1) Some small by (simp add: log_matches_def ids_between_def del: upt_Suc)
    then show ?thesis by blast
  qed
qed

lemma node_inv_log:
  assumes "node_inv (stores c) n p (node_app c p)"
  shows "in_order (logged (log_of_cluster c) p)"
    and "k \<in> set (logged (log_of_cluster c) p) \<Longrightarrow> held_by n (log_of_cluster c) k"
proof -
  let ?s = "node_app c p"
  have log: "log_matches (commited_offsets ?s) (sequence (linearizer ?s))"
      "valid_offsets (commited_offsets ?s)"
    using assms by (simp_all add: node_inv_def app_inv_def log_inv_def)
  show "in_order (logged (log_of_cluster c) p)"
    using log_matches_in_order [OF log] by (simp add: log_of_cluster_def)
  assume "k \<in> set (logged (log_of_cluster c) p)"
  then have "k \<in> set (sequence (linearizer ?s))" by (simp add: log_of_cluster_def)
  then obtain r v where rv: "commited_offsets ?s r = Some v" "in_block r k"
    "unat k mod 1073741824 \<le> unat v"
    using log_matches_mem [OF log, of k] by blast
  then have "quorum (stores c) n r v" using assms by (simp add: node_inv_def)
  then obtain Q where Q: "finite Q" "n \<le> card Q" "\<forall>q \<in> Q. holds_upto (stores c q) r v"
    unfolding quorum_def by blast
  have "unat k = unat r * 1073741824 + unat k mod 1073741824"
    using rv(2) div_mult_mod_eq [of "unat k" 1073741824] unfolding in_block_def by linarith
  with Q(3) rv(3) holds_uptoD have "\<forall>q \<in> Q. has_tx (stores c q) k" by blast
  with Q(1,2) show "held_by n (log_of_cluster c) k"
    by (auto simp: held_by_def log_of_cluster_def has_tx_def stores_def)
qed

lemma simulate_step:
  assumes inv: "cluster_inv to_vec n c" and codec: "codec to_vec from_slice"
    and step: "cluster_step to_vec from_slice sha256 c c'"
  shows "log_step n (log_of_cluster c) (log_of_cluster c')"
proof -
  have inv': "cluster_inv to_vec n c'" using cluster_step_inv [OF step codec inv] .
  from step show ?thesis
  proof (cases rule: cluster_step.cases)
    case (app p e s' out resp)
    let ?a = "log_of_cluster c" and ?s = "node_app c p"
    have grow: "dom (transactions ?s) \<subseteq> dom (transactions s')"
      using log_lin.app_step_ok [OF _ event_ok_cluster [OF inv app(2)], of sha256] app(3) inv
      by (auto simp: cluster_inv_def node_inv_def effects_def grows_def)
    from app_step_log [OF app(3)] show ?thesis
    proof
      assume "linearizer s' = linearizer ?s"
      then have "log_of_cluster c' = ?a\<lparr>held := (held ?a)(p := held ?a p \<union> dom (transactions s'))\<rparr>"
        using grow by (auto simp: app(1) log_of_cluster_def fun_eq_iff)
      then show ?thesis using log_step.hold by metis
    next
      assume *: "transactions s' = transactions ?s \<and>
        prefix (sequence (linearizer ?s)) (sequence (linearizer s'))"
      then obtain new where new: "sequence (linearizer s') = sequence (linearizer ?s) @ new"
        unfolding prefix_def by blast
      have abs: "log_of_cluster c' = ?a\<lparr>logged := (logged ?a)(p := logged ?a p @ new)\<rparr>"
        using * new by (auto simp: app(1) log_of_cluster_def fun_eq_iff)
      have "node_inv (stores c') n p (node_app c' p)" using inv' by (simp add: cluster_inv_def)
      note log = node_inv_log [OF this]
      show ?thesis
        unfolding abs
      proof (rule log_step.append)
        show "in_order (logged ?a p @ new)" using log(1) by (simp add: abs)
        show "\<forall>k \<in> set new. held_by n ?a k" using log(2) by (simp add: abs held_by_def)
      qed
    qed
  next
    case (net p e st' msgs commands)
    then have "log_of_cluster c' = (log_of_cluster c)\<lparr>held := (held (log_of_cluster c))(p := held (log_of_cluster c) p \<union> {})\<rparr>"
      by (auto simp: log_of_cluster_def fun_eq_iff)
    then show ?thesis using log_step.hold by metis
  qed
qed


lemma log_of_cluster_start: "log_of_cluster (cluster_start prms) = log_start"
  by (simp add: cluster_start_def log_of_cluster_def log_start_def App_new_def LogLineriazer_new_def)

interpretation cl: simulation "cluster_initial to_vec from_slice prms"
    "cluster_step to_vec from_slice sha256" "cluster_ok to_vec from_slice (consensus_nodes prms)"
    "\<lambda>a. a = log_start" "log_step (consensus_nodes prms)" log_of_cluster
  for to_vec from_slice prms sha256
  by unfold_locales
    (auto simp: cluster_initial_def cluster_ok_def log_of_cluster_start
      intro: cluster_inv_start cluster_step_inv simulate_step)

lemma reachable_log_ok:
  assumes "reachable to_vec from_slice sha256 prms c" and "codec to_vec from_slice"
    and "0 < consensus_nodes prms"
  shows "log_ok (consensus_nodes prms) (log_of_cluster c)"
  by (rule rlog.inv_reachable, rule cl.abs_reachable, rule reachable_clusters [OF assms])

end
