(* ===== verification/Progress.thy ===== *)
theory Progress
  imports Cluster
begin

text \<open>
  What a cluster can always do: steps that are enabled in every reachable cluster and bring the
  transactions a node misses to it. The orders its hash maps are iterated in exist, a message that
  was sent can arrive, and no handler on the way panics.
\<close>

section \<open>Events that are always possible\<close>

lemma finite_self_delays_loop:
  "self_delays_loop txs so offs result = Inr m \<Longrightarrow> finite (dom result) \<Longrightarrow> finite (dom m)"
proof (induction offs arbitrary: result)
  case (Cons ro offs)
  obtain r nodes where ro: "ro = (r, nodes)" by (cases ro)
  obtain d where d: "range_delay txs so r nodes = Inr d"
    using Cons.prems(1) by (auto simp: ro res_simps)
  show ?case
  proof (cases d)
    case None
    with Cons d show ?thesis by (simp add: ro)
  next
    case (Some pi)
    obtain p "is" where pi: "pi = (p, is)" by (cases pi)
    show ?thesis
      by (rule Cons.IH [of "case result p of Some ranges \<Rightarrow> result(p \<mapsto> ranges @ is) | None \<Rightarrow> result(p \<mapsto> is)"])
        (use Cons.prems d in \<open>simp_all add: ro Some pi split: option.split\<close>)
  qed
qed simp

lemma finite_self_delays: "self_delays txs so offs = Inr m \<Longrightarrow> finite (dom m)"
  unfolding self_delays_def by (erule finite_self_delays_loop) simp

lemma orders_exist:
  assumes "table_ok offs"
  shows "\<exists>ro po. orders_ok ro po offs"
proof -
  obtain ro where ro: "key_order offs ro"
    using assms key_order_exists [of offs] by (auto simp: table_ok_def)
  have "\<exists>ks. \<forall>nodes. offs r = Some nodes \<longrightarrow> key_order nodes ks" for r
    using assms key_order_exists by (cases "offs r") (auto simp: table_ok_def)
  then obtain po where "\<forall>r nodes. offs r = Some nodes \<longrightarrow> key_order nodes (po r)" by metis
  with ro show ?thesis by (auto simp: orders_ok_def)
qed

lemma bucket_order_exists: "\<exists>ks. key_order (buckets ts) ks"
  by (rule key_order_exists) (simp add: dom_buckets)

section \<open>Steps of a cluster\<close>

lemma app_progress:
  assumes "app_event c p e"
    and "app_step LogLineriazer_new_epoch sha256 True e (node_app c p) = Some (Inr (s', out, resp))"
  shows "\<exists>c'. inner_step to_vec from_slice sha256 c c' \<and> node_app c' = (node_app c)(p := s') \<and>
    to_net c' p = to_net c p \<union> set out"
  using inner_step.app [OF assms, of to_vec from_slice] by fastforce

text \<open>A message for one node, and what it is when it arrives there.\<close>

fun direct :: "'p \<Rightarrow> 'p Outbox \<Rightarrow> ('p \<times> 'p Inbox) option" where
  "direct p (Outbox_State st) = None"
| "direct p (Outbox_RequestMissingTxs q is) = Some (q, Inbox_RequestMissingTxs p is)"
| "direct p (Outbox_RequestedTxsForPeer q ts) = Some (q, Inbox_MissingTx ts)"

lemma direct_arrives:
  fixes c :: "('p :: linorder, 'b, 'c, 'a) cluster"
  assumes "m \<in> to_net c p" and "direct p m = Some (q, m')" and "q \<noteq> p"
  shows "\<exists>c'. (inner_step to_vec from_slice sha256)\<^sup>*\<^sup>* c c' \<and> node_app c' = node_app c \<and> m' \<in> to_app c' q"
proof -
  obtain req where req: "handle_receiver_outbox to_vec m p = [SendM2MRequest q req :: ('p, 'b, 'c, 'a) command]"
      "handle_receiver_outbox to_vec m (p2p_peer_id (node_net c p)) = [SendM2MRequest q req :: ('p, 'b, 'c, 'a) command]"
      "m' = (case req of GetMissingTx is \<Rightarrow> Inbox_RequestMissingTxs p is | M2M_MissingTx ts \<Rightarrow> Inbox_MissingTx ts)"
    using assms(2) by (cases m) auto
  let ?c = "c\<lparr>node_net := (node_net c)(p := node_net c p), to_app := (to_app c)(p := to_app c p \<union> set []),
    wire := wire c \<union> Pair p ` set [SendM2MRequest q req]\<rparr>"
  have 1: "inner_step to_vec from_slice sha256 c ?c"
    by (rule inner_step.net [where e = "From_App m"]) (use assms(1) req in simp_all)
  let ?e = "From_Swarm (M2MReqRes (RR_Message p (RR_Request req undefined))) :: ('p, 'b, 'c) p2p_event"
  have "net_event ?c q ?e" using assms(3) by simp
  moreover have "p2p_step to_vec from_slice True ?e (node_net ?c q) =
      Inr (node_net ?c q, [m'], [SendM2MResponse undefined Ack :: ('p, 'b, 'c, 'a) command])"
    using req(3) by (cases req) (simp_all add: send_expect_def)
  ultimately have "inner_step to_vec from_slice sha256 ?c
      (?c\<lparr>node_net := (node_net ?c)(q := node_net ?c q), to_app := (to_app ?c)(q := to_app ?c q \<union> set [m']),
         wire := wire ?c \<union> Pair q ` set [SendM2MResponse undefined Ack :: ('p, 'b, 'c, 'a) command]\<rparr>)"
    (is "inner_step _ _ _ _ ?d")
    by (rule inner_step.net) simp
  with 1 have "(inner_step to_vec from_slice sha256)\<^sup>*\<^sup>* c ?d"
    by (rule converse_rtranclp_into_rtranclp [OF _ r_into_rtranclp])
  then show ?thesis by (intro exI [of _ ?d] conjI) simp_all
qed

section \<open>Asking for what is missing\<close>

text \<open>The node with the largest offset of a range is asked for all ids of the range that are missing.\<close>

lemma range_asked:
  assumes inv: "app_inv log_of s" and ord: "orders_ok ro po (offsets s)"
    and m: "\<forall>p. ids_of (requested m p) =
      concat (map (delay_ids (transactions s) (self_offsets s) p) (offsets_entries ro po (offsets s)))"
    and v: "offset_of (offsets s) r q = Some v"
  obtains q' w where "offset_of (offsets s) r q' = Some w" and "unat v \<le> unat w"
    and "\<And>j. j \<le> unat v \<Longrightarrow> has_tx (transactions s) (u64 (unat r * 1073741824 + j)) \<or>
      u64 (unat r * 1073741824 + j) \<in> set (ids_of (requested m q'))"
proof -
  let ?offs = "offsets_entries ro po (offsets s)"
  obtain nodes where nodes: "offsets s r = Some nodes" "nodes q = Some v"
    using v by (auto simp: offset_of_def bind_eq_Some_conv)
  let ?es = "entries nodes (po r)"
  have key: "key_order (offsets s) ro" "key_order nodes (po r)"
    using ord nodes(1) by (simp_all add: orders_ok_def)
  have mem: "(r, ?es) \<in> set ?offs"
    using map_of_offsets_entries(2) [OF key(1), of po r] nodes(1) by (auto dest: map_of_SomeD)
  have qv: "(q, v) \<in> set ?es" using key(2) nodes(2) by (auto simp: set_entries key_order_def)
  then obtain q' w where max: "max_by_offset ?es = Some (q', w)" by (cases "max_by_offset ?es") auto
  have w: "offset_of (offsets s) r q' = Some w"
    using max_by_offset_Some(1) [OF max] offsets_entries_mem [OF ord mem] by blast
  have vw: "unat v \<le> unat w" using max_by_offset_Some(2) [OF max qv] by (simp add: unat_simps)
  have pos: "valid_pos r w" using w inv by (auto simp: app_inv_def table_inv_def table_ok_def)
  show thesis
  proof (rule that [OF w vw])
    fix j
    let ?k = "u64 (unat r * 1073741824 + j)"
    assume j: "j \<le> unat v"
    then have jw: "j \<le> unat w" using vw by simp
    show "has_tx (transactions s) ?k \<or> ?k \<in> set (ids_of (requested m q'))"
    proof (cases "has_tx (transactions s) ?k")
      case no: False
      have "next_start (self_offsets s) r \<le> j"
      proof (cases "self_offsets s r")
        case (Some u)
        then have "holds_upto (transactions s) r u"
          using inv by (simp add: app_inv_def store_inv_def offsets_sound_def)
        then show ?thesis using no Some by (auto simp: holds_upto_def next_start_def Suc_le_eq not_le)
      qed (simp add: next_start_def)
      then have "?k \<in> set (missing (transactions s) r (next_start (self_offsets s) r) (Suc (unat w)))"
        using no jw by (auto simp: missing_def simp del: upt_Suc)
      then have "?k \<in> set (delay_ids (transactions s) (self_offsets s) q' (r, ?es))"
        by (simp add: delay_ids_def max)
      with mem show ?thesis using m by force
    qed simp
  qed
qed

text \<open>A node can always advertise.\<close>

lemma advertises:
  assumes inv: "app_inv log_of s"
  obtains ro po dos m where "event_ok (AdvertiseTick ro po dos) s" and "orders_ok ro po (offsets s)"
    and "key_order m dos"
    and "\<forall>p. ids_of (requested m p) =
      concat (map (delay_ids (transactions s) (self_offsets s) p) (offsets_entries ro po (offsets s)))"
    and "\<And>new_epoch sha256. app_step new_epoch sha256 True (AdvertiseTick ro po dos) s =
      Some (Inr (recalculate_consensus_offsets ro po s, advertised s (entries m dos), []))"
proof -
  have tab: "table_ok (offsets s)" and so: "valid_offsets (self_offsets s)"
    using inv offsets_sound_valid by (auto simp: app_inv_def table_inv_def store_inv_def)
  obtain ro po where ord: "orders_ok ro po (offsets s)" using orders_exist [OF tab] by blast
  obtain m where m: "self_delays (transactions s) (self_offsets s) (offsets_entries ro po (offsets s)) = Inr m"
    "\<forall>p. ids_of (requested m p) =
      concat (map (delay_ids (transactions s) (self_offsets s) p) (offsets_entries ro po (offsets s)))"
    using self_delays_requests [OF so tab ord, of "transactions s"] by blast
  obtain dos where dos: "key_order m dos" using key_order_exists finite_self_delays [OF m(1)] by blast
  show thesis
    by (rule that [OF _ ord dos m(2)]) (use ord dos m(1) in \<open>simp_all add: advertise_eq [OF m(1)]\<close>)
qed

lemma asks:
  assumes inv: "app_inv log_of s" and v: "offset_of (offsets s) r q = Some v"
    and behind: "\<not> holds_upto (transactions s) r v"
  obtains ro po dos out q' "is"
  where "event_ok (AdvertiseTick ro po dos) s"
    and "app_step new_epoch sha256 True (AdvertiseTick ro po dos) s =
      Some (Inr (recalculate_consensus_offsets ro po s, out, []))"
    and "q' \<noteq> peer_id s" and "Outbox_RequestMissingTxs q' is \<in> set out"
    and "\<And>j. j \<le> unat v \<Longrightarrow> has_tx (transactions s) (u64 (unat r * 1073741824 + j)) \<or>
      u64 (unat r * 1073741824 + j) \<in> set (ids_of is)"
proof -
  obtain ro po dos m where ok: "event_ok (AdvertiseTick ro po dos) s" and ord: "orders_ok ro po (offsets s)"
    and dos: "key_order m dos"
    and m: "\<forall>p. ids_of (requested m p) =
      concat (map (delay_ids (transactions s) (self_offsets s) p) (offsets_entries ro po (offsets s)))"
    and step: "\<And>new_epoch sha256. app_step new_epoch sha256 True (AdvertiseTick ro po dos) s =
      Some (Inr (recalculate_consensus_offsets ro po s, advertised s (entries m dos), []))"
    by (rule advertises [OF inv]) blast
  obtain q' w where q': "offset_of (offsets s) r q' = Some w" "unat v \<le> unat w"
    "\<And>j. j \<le> unat v \<Longrightarrow> has_tx (transactions s) (u64 (unat r * 1073741824 + j)) \<or>
      u64 (unat r * 1073741824 + j) \<in> set (ids_of (requested m q'))"
    using range_asked [OF inv ord m v] by blast
  obtain j where j: "j \<le> unat v" "\<not> has_tx (transactions s) (u64 (unat r * 1073741824 + j))"
    using behind by (auto simp: holds_upto_def)
  then have "u64 (unat r * 1073741824 + j) \<in> set (ids_of (requested m q'))" using q'(3) by blast
  then obtain "is" where "is": "m q' = Some is" "requested m q' = is"
    by (cases "m q'") (auto simp: requested_def)
  have "q' \<noteq> peer_id s"
  proof
    assume "q' = peer_id s"
    then have "holds_upto (transactions s) r w"
      using inv q'(1) by (simp add: app_inv_def store_inv_def table_inv_def offsets_sound_def)
    then show False using j q'(2) by (simp add: holds_upto_def)
  qed
  moreover have "Outbox_RequestMissingTxs q' is \<in> set (advertised s (entries m dos))"
    using "is"(1) dos by (force simp: advertised_def set_entries key_order_def)
  ultimately show thesis using that ok step q'(3) "is"(2) by metis
qed

section \<open>The exchange\<close>

lemma app_moves:
  assumes inv: "cluster_inv to_vec n c" and codec: "codec to_vec from_slice" and e: "app_event c p e"
    and step: "app_step LogLineriazer_new_epoch sha256 True e (node_app c p) = Some (Inr (s', out, resp))"
  shows "\<exists>c'. inner_step to_vec from_slice sha256 c c' \<and> cluster_inv to_vec n c' \<and>
    node_app c' = (node_app c)(p := s') \<and> set out \<subseteq> to_net c' p"
proof -
  obtain c' where "inner_step to_vec from_slice sha256 c c'" "node_app c' = (node_app c)(p := s')"
    "to_net c' p = to_net c p \<union> set out"
    using app_progress [OF e step] by blast
  with inner_step_inv [OF _ codec inv] show ?thesis by blast
qed

lemma cluster_steps_inv:
  "(inner_step to_vec from_slice sha256)\<^sup>*\<^sup>* c c' \<Longrightarrow> codec to_vec from_slice \<Longrightarrow>
    cluster_inv to_vec n c \<Longrightarrow> cluster_inv to_vec n c'"
  by (induction rule: rtranclp_induct) (auto intro: inner_step_inv)

text \<open>A request for missing transactions that was sent can be answered, and the answer stored.\<close>

lemma request_served:
  fixes c :: "('p :: linorder, 'b, 'c, 'a) cluster"
  assumes inv: "cluster_inv to_vec n c" and codec: "codec to_vec from_slice"
    and req: "Outbox_RequestMissingTxs q is \<in> to_net c p" and "q \<noteq> p"
  obtains c' s' ts where "(inner_step to_vec from_slice sha256)\<^sup>*\<^sup>* c c'"
    and "node_app c' = (node_app c)(p := s')" and "tx_id ` set ts = set (ids_of is)"
    and "handled sequence (Inbox_MissingTx ts) (node_app c p) s'"
proof -
  let ?steps = "(inner_step to_vec from_slice sha256)\<^sup>*\<^sup>*"
  obtain c1 where c1: "?steps c c1" "node_app c1 = node_app c" "Inbox_RequestMissingTxs p is \<in> to_app c1 q"
    using direct_arrives [OF req _ \<open>q \<noteq> p\<close>, where to_vec = to_vec and from_slice = from_slice and ?sha256.0 = sha256] by auto
  note inv1 = cluster_steps_inv [OF c1(1) codec inv]
  have q: "committable is" "all_stored (transactions (node_app c q)) is"
    using cluster_invD(3) [OF inv1 c1(3)] by (simp_all add: stores_def c1(2))
  let ?ts = "map (the \<circ> transactions (node_app c q)) (ids_of is)"
  have "app_step LogLineriazer_new_epoch sha256 True (Payload [] (Inbox_RequestMissingTxs p is)) (node_app c1 q) =
      Some (Inr (node_app c1 q, [Outbox_RequestedTxsForPeer p ?ts], []))"
    by (simp add: c1(2) handle_request_missing_all [OF q])
  from app_moves [OF inv1 codec _ this] c1(3) obtain c2 where
    c2: "inner_step to_vec from_slice sha256 c1 c2" "cluster_inv to_vec n c2" "node_app c2 = node_app c"
      "Outbox_RequestedTxsForPeer p ?ts \<in> to_net c2 q"
    by (auto simp: c1(2))
  obtain c3 where c3: "?steps c2 c3" "node_app c3 = node_app c" "Inbox_MissingTx ?ts \<in> to_app c3 p"
    using direct_arrives [OF c2(4), where to_vec = to_vec and from_slice = from_slice and ?sha256.0 = sha256] \<open>q \<noteq> p\<close> c2(3) by auto
  note inv3 = cluster_steps_inv [OF c3(1) codec c2(2)]
  obtain ks where ks: "key_order (buckets ?ts) ks" using bucket_order_exists by blast
  let ?e = "Payload ks (Inbox_MissingTx ?ts)"
  have e: "app_event c3 p ?e" using c3(3) ks by simp
  have app: "app_inv sequence (node_app c p)" using inv by (simp add: cluster_inv_def node_inv_def)
  have ok: "payload_ok ks (Inbox_MissingTx ?ts) (node_app c p)"
    using event_ok_cluster [OF inv3 e] by (simp add: c3(2))
  obtain s' where s': "handle_inbox_message True ks (Inbox_MissingTx ?ts) (node_app c p) = Some (Inr (s', []))"
    "handled sequence (Inbox_MissingTx ?ts) (node_app c p) s'"
    using handle_inbox_ok [OF app ok] by (auto simp: answer_def)
  then have "app_step LogLineriazer_new_epoch sha256 True ?e (node_app c3 p) = Some (Inr (s', [], []))"
    by (simp add: c3(2))
  from app_moves [OF inv3 codec e this] obtain c4 where
    c4: "inner_step to_vec from_slice sha256 c3 c4" "node_app c4 = (node_app c)(p := s')"
    by (auto simp: c3(2))
  have "tx_map_wf (transactions (node_app c q))"
    using inv by (simp add: cluster_inv_def node_inv_def app_inv_def store_inv_def)
  then have ids: "tx_id ` set ?ts = set (ids_of is)"
    using q(2) by (force simp: all_stored_def tx_map_wf_def has_tx_def image_iff)
  have "?steps c c4" using c1(1) c2(1) c3(1) c4(1) by (meson rtranclp.rtrancl_into_rtrancl rtranclp_trans)
  from that [OF this c4(2) ids s'(2)] show thesis .
qed

section \<open>Catching up\<close>

text \<open>One offset a node knows of.\<close>

lemma catch_up_one:
  fixes c :: "('p :: linorder, 'b, 'c, 'a) cluster"
  assumes inv: "cluster_inv to_vec n c" and codec: "codec to_vec from_slice"
    and v: "offset_of (offsets (node_app c p)) r q = Some v"
  obtains c' s' where "(inner_step to_vec from_slice sha256)\<^sup>*\<^sup>* c c'"
    and "node_app c' = (node_app c)(p := s')" and "holds_upto (transactions s') r v"
    and "dom (transactions (node_app c p)) \<subseteq> dom (transactions s')"
    and "\<And>r q. q \<noteq> p \<Longrightarrow> offset_of (offsets s') r q = offset_of (offsets (node_app c p)) r q"
proof (cases "holds_upto (transactions (node_app c p)) r v")
  case True
  then show thesis by (intro that [of c "node_app c p"]) auto
next
  case False
  let ?s = "node_app c p"
  have app: "app_inv sequence ?s" and p: "peer_id ?s = p"
    using inv by (simp_all add: cluster_inv_def node_inv_def)
  obtain ro po dos out q' "is" where ask: "event_ok (AdvertiseTick ro po dos) ?s"
    "app_step LogLineriazer_new_epoch sha256 True (AdvertiseTick ro po dos) ?s =
      Some (Inr (recalculate_consensus_offsets ro po ?s, out, []))"
    "q' \<noteq> peer_id ?s" "Outbox_RequestMissingTxs q' is \<in> set out"
    "\<And>j. j \<le> unat v \<Longrightarrow> has_tx (transactions ?s) (u64 (unat r * 1073741824 + j)) \<or>
      u64 (unat r * 1073741824 + j) \<in> set (ids_of is)"
    using asks [OF app v False, of LogLineriazer_new_epoch sha256] by blast
  have "app_event c p (AdvertiseTick ro po dos)" using ask(1) by simp
  from app_moves [OF inv codec this ask(2)] obtain c1 where
    c1: "inner_step to_vec from_slice sha256 c c1" "cluster_inv to_vec n c1"
      "node_app c1 = (node_app c)(p := recalculate_consensus_offsets ro po ?s)" "set out \<subseteq> to_net c1 p"
    by blast
  have req: "Outbox_RequestMissingTxs q' is \<in> to_net c1 p" using ask(4) c1(4) by blast
  have q': "q' \<noteq> p" using ask(3) p by simp
  obtain c2 s' ts where c2: "(inner_step to_vec from_slice sha256)\<^sup>*\<^sup>* c1 c2"
    "node_app c2 = (node_app c1)(p := s')" "tx_id ` set ts = set (ids_of is)"
    "handled sequence (Inbox_MissingTx ts) (node_app c1 p) s'"
    by (rule request_served [OF c1(2) codec req q'])
  have same: "transactions (node_app c1 p) = transactions ?s" "offsets (node_app c1 p) = offsets ?s"
    "peer_id (node_app c1 p) = p"
    by (simp_all add: c1(3) recalculate_consensus_offsets_def p)
  have dom: "dom (transactions s') = dom (transactions ?s) \<union> set (ids_of is)"
    using c2(3,4) by (simp add: handled_def same)
  show thesis
  proof (rule that [of c2 s'])
    show "(inner_step to_vec from_slice sha256)\<^sup>*\<^sup>* c c2"
      using c1(1) c2(1) by (rule converse_rtranclp_into_rtranclp)
    show "node_app c2 = (node_app c)(p := s')" by (simp add: c2(2) c1(3))
    show "holds_upto (transactions s') r v"
      using ask(5) dom unfolding holds_upto_def has_tx_def by blast
    show "dom (transactions ?s) \<subseteq> dom (transactions s')" using dom by blast
    show "offset_of (offsets s') r q = offset_of (offsets ?s) r q" if "q \<noteq> p" for r q
      using c2(4) that by (simp add: handled_def same)
  qed
qed

text \<open>All offsets a node knows of, one after the other.\<close>

lemma catch_up_all:
  fixes c :: "('p :: linorder, 'b, 'c, 'a) cluster"
  assumes inv: "cluster_inv to_vec n c" and codec: "codec to_vec from_slice" and "finite F"
    and "\<forall>(r, q, v) \<in> F. offset_of (offsets (node_app c p)) r q = Some v"
  shows "\<exists>c' s'. (inner_step to_vec from_slice sha256)\<^sup>*\<^sup>* c c' \<and> node_app c' = (node_app c)(p := s') \<and>
    (\<forall>(r, q, v) \<in> F. holds_upto (transactions s') r v) \<and>
    dom (transactions (node_app c p)) \<subseteq> dom (transactions s') \<and>
    (\<forall>r q. q \<noteq> p \<longrightarrow> offset_of (offsets s') r q = offset_of (offsets (node_app c p)) r q)"
  using assms(3,4)
proof (induction F rule: finite_induct)
  case empty
  show ?case by (intro exI [of _ c] exI [of _ "node_app c p"]) simp
next
  case (insert x F)
  let ?steps = "(inner_step to_vec from_slice sha256)\<^sup>*\<^sup>*"
  obtain r q v where x: "x = (r, q, v)" by (cases x)
  have v: "offset_of (offsets (node_app c p)) r q = Some v"
    and known: "\<forall>(r, q, v) \<in> F. offset_of (offsets (node_app c p)) r q = Some v"
    using insert.prems x by simp_all
  obtain c1 s1 where c1: "?steps c c1" "node_app c1 = (node_app c)(p := s1)"
    "\<forall>(r, q, v) \<in> F. holds_upto (transactions s1) r v"
    "dom (transactions (node_app c p)) \<subseteq> dom (transactions s1)"
    "\<forall>r q. q \<noteq> p \<longrightarrow> offset_of (offsets s1) r q = offset_of (offsets (node_app c p)) r q"
    using insert.IH [OF known] by blast
  show ?case
  proof (cases "q = p")
    case True
    have "app_inv sequence (node_app c p)" "peer_id (node_app c p) = p"
      using inv by (simp_all add: cluster_inv_def node_inv_def)
    then have "holds_upto (transactions (node_app c p)) r v"
      using v True by (simp add: app_inv_def store_inv_def table_inv_def offsets_sound_def)
    then have "holds_upto (transactions s1) r v" using c1(4) holds_upto_mono by blast
    with c1 show ?thesis by (intro exI [of _ c1] exI [of _ s1]) (simp add: x)
  next
    case False
    have v1: "offset_of (offsets (node_app c1 p)) r q = Some v" using c1(2,5) v False by simp
    obtain c2 s2 where c2: "?steps c1 c2" "node_app c2 = (node_app c1)(p := s2)"
      "holds_upto (transactions s2) r v" "dom (transactions (node_app c1 p)) \<subseteq> dom (transactions s2)"
      "\<And>r q. q \<noteq> p \<Longrightarrow> offset_of (offsets s2) r q = offset_of (offsets (node_app c1 p)) r q"
      using catch_up_one [OF cluster_steps_inv [OF c1(1) codec inv] codec v1, of sha256] by blast
    have dom: "dom (transactions s1) \<subseteq> dom (transactions s2)" using c2(4) c1(2) by simp
    have "?steps c c2" using c1(1) c2(1) by (rule rtranclp_trans)
    moreover have "\<forall>(r, q, v) \<in> insert x F. holds_upto (transactions s2) r v"
      using c1(3) c2(3) holds_upto_mono [OF _ dom] by (auto simp: x)
    ultimately show ?thesis
      using c1(2,4,5) c2(2,5) dom by (intro exI [of _ c2] exI [of _ s2]) auto
  qed
qed

lemma finite_offsets:
  assumes "table_ok offs"
  shows "finite {(r, q, v). offset_of offs r q = Some v}"
proof -
  have "finite (\<Union>r \<in> dom offs. (\<lambda>q. (r, q, the (offset_of offs r q))) ` dom (the (offs r)))"
    using assms by (intro finite_UN_I finite_imageI) (auto simp: table_ok_def)
  moreover have "{(r, q, v). offset_of offs r q = Some v} \<subseteq>
      (\<Union>r \<in> dom offs. (\<lambda>q. (r, q, the (offset_of offs r q))) ` dom (the (offs r)))"
    by (force simp: offset_of_def bind_eq_Some_conv)
  ultimately show ?thesis by (rule rev_finite_subset)
qed

lemma catch_up:
  fixes c :: "('p :: linorder, 'b, 'c, 'a) cluster"
  assumes inv: "cluster_inv to_vec n c" and codec: "codec to_vec from_slice"
  shows "\<exists>c'. (inner_step to_vec from_slice sha256)\<^sup>*\<^sup>* c c' \<and>
    (\<forall>r q v. offset_of (offsets (node_app c p)) r q = Some v \<longrightarrow> holds_upto (stores c' p) r v)"
proof -
  let ?F = "{(r, q, v). offset_of (offsets (node_app c p)) r q = Some v}"
  have "table_ok (offsets (node_app c p))"
    using inv by (simp add: cluster_inv_def node_inv_def app_inv_def table_inv_def)
  note F = finite_offsets [OF this]
  obtain c' s' where "(inner_step to_vec from_slice sha256)\<^sup>*\<^sup>* c c'" "node_app c' = (node_app c)(p := s')"
    "\<forall>(r, q, v) \<in> ?F. holds_upto (transactions s') r v"
    using catch_up_all [OF inv codec F, of p sha256] by blast
  then show ?thesis by (intro exI [of _ c']) (auto simp: stores_def)
qed

end
