(* ===== verification/Channels.thy ===== *)
theory Channels
  imports Prelude Systems
begin

text \<open>
  \<open>common/src/duplex_channel.rs\<close> and \<open>common/src/invoker_handler.rs\<close>: how the parts of a process are
  joined. The channels are the crate \<open>tokio\<close>'s: a channel is known by a number, and a sender and a
  receiver with one number are the two ends of it. A one-shot channel carries at most one value.
\<close>

section \<open>A pair of endpoints\<close>

record Endpoint =
  sender :: nat
  receiver :: nat

text \<open>\<open>n\<close> and \<open>Suc n\<close> are the two channels the pair is made of.\<close>

definition create_a_b_duplex_pair :: "nat \<Rightarrow> Endpoint \<times> Endpoint" where
  "create_a_b_duplex_pair n =
     (let tx_request = n; rx_request = n; tx_response = Suc n; rx_response = Suc n in
      (\<lparr>sender = tx_request, receiver = rx_response\<rparr>, \<lparr>sender = tx_response, receiver = rx_request\<rparr>))"

section \<open>Invoker and handler\<close>

record 'req RequestWrapper =
  wrapper_request :: 'req
  wrapper_response :: nat

text \<open>Nothing sent yet, a value, no value to come, or a value that was taken out.\<close>

datatype 'res oneshot = Empty | Sent 'res | SenderDropped | Consumed

text \<open>
  The shared state: the queue between invoker and handler, the wrappers the handler has taken and
  not answered, and the one-shot channels made so far, numbered in the order of the requests.
\<close>

record ('req, 'res) invoker =
  queue :: "'req RequestWrapper list"
  taken :: "'req RequestWrapper list"
  oneshots :: "'res oneshot list"

definition create_invoker_handler_pair :: "('req, 'res) invoker" where
  "create_invoker_handler_pair = \<lparr>queue = [], taken = [], oneshots = []\<rparr>"

text \<open>\<open>request\<close> returns the number of the one-shot its future waits on.\<close>

definition invoke ::
    "bool \<Rightarrow> 'req \<Rightarrow> ('req, 'res) invoker \<Rightarrow> panic + (nat \<times> ('req, 'res) invoker)" where
  "invoke handler_alive req st =
     (let future = length (oneshots st) in
      if handler_alive
      then Inr (future, st\<lparr>queue := queue st @ [\<lparr>wrapper_request = req, wrapper_response = future\<rparr>],
             oneshots := oneshots st @ [Empty]\<rparr>)
      else Inl Unfinished)"

datatype 'res Poll = Ready 'res | Poll_Pending

text \<open>\<open>ResultFuture::poll\<close>; being ready takes the value out, and a future must not be polled after that.\<close>

definition poll ::
    "('req, 'res) invoker \<Rightarrow> nat \<Rightarrow> panic + ('res Poll \<times> ('req, 'res) invoker)" where
  "poll st future =
     (case oneshots st ! future of
        Sent res \<Rightarrow> Inr (Ready res, st\<lparr>oneshots := (oneshots st)[future := Consumed]\<rparr>)
      | SenderDropped \<Rightarrow> Inl Unfinished
      | Empty \<Rightarrow> Inr (Poll_Pending, st)
      | Consumed \<Rightarrow> Inl PolledAgain)"

text \<open>
  What the handler does: it takes the next wrapper from the queue, and answers any one it has, in
  any order. Dropping a wrapper unanswered closes its one-shot.
\<close>

definition recv :: "('req, 'res) invoker \<Rightarrow> ('req, 'res) invoker option" where
  "recv st = (case queue st of [] \<Rightarrow> None
     | w # ws \<Rightarrow> Some (st\<lparr>queue := ws, taken := taken st @ [w]\<rparr>))"

definition settle :: "nat \<Rightarrow> 'res oneshot \<Rightarrow> ('req, 'res) invoker \<Rightarrow> ('req, 'res) invoker" where
  "settle i res st = st\<lparr>taken := take i (taken st) @ drop (Suc i) (taken st),
     oneshots := (oneshots st)[wrapper_response (taken st ! i) := res]\<rparr>"

section \<open>Whose answer a future gets\<close>

text \<open>
  Runs with a handler that computes its answers with \<open>f\<close>. A state comes with what its invoker
  remembers: the futures it was given, each with its request, and what it got from those that were
  ready, which it does not poll again.
\<close>

record ('req, 'res) invoker_run =
  asked :: "(nat \<times> 'req) list"
  got :: "(nat \<times> 'res) list"
  interface :: "('req, 'res) invoker"

definition waits :: "('req, 'res) invoker_run \<Rightarrow> nat \<Rightarrow> 'req \<Rightarrow> bool" where
  "waits s future req \<longleftrightarrow> (future, req) \<in> set (asked s) \<and> future \<notin> fst ` set (got s)"

inductive invoker_step ::
    "('req \<Rightarrow> 'res) \<Rightarrow> ('req, 'res) invoker_run \<Rightarrow> ('req, 'res) invoker_run \<Rightarrow> bool"
  for f
where
  invoked: "invoke True req (interface s) = Inr (future, st) \<Longrightarrow>
    invoker_step f s (s\<lparr>asked := asked s @ [(future, req)], interface := st\<rparr>)"
| received: "recv (interface s) = Some st \<Longrightarrow> invoker_step f s (s\<lparr>interface := st\<rparr>)"
| answered: "i < length (taken (interface s)) \<Longrightarrow>
    invoker_step f s (s\<lparr>interface :=
      settle i (Sent (f (wrapper_request (taken (interface s) ! i)))) (interface s)\<rparr>)"
| polled: "waits s future req \<Longrightarrow> poll (interface s) future = Inr (res, st) \<Longrightarrow>
    invoker_step f s (s\<lparr>got := got s @ (case res of Ready r \<Rightarrow> [(future, r)] | Poll_Pending \<Rightarrow> []), interface := st\<rparr>)"

inductive_cases invoker_stepE: "invoker_step f s s'"

definition invoker_start :: "('req, 'res) invoker_run" where
  "invoker_start = \<lparr>asked = [], got = [], interface = create_invoker_handler_pair\<rparr>"

abbreviation invoker_reaches :: "('req \<Rightarrow> 'res) \<Rightarrow> ('req, 'res) invoker_run \<Rightarrow> bool" where
  "invoker_reaches f s \<equiv> (invoker_step f)\<^sup>*\<^sup>* invoker_start s"

text \<open>The wrappers that still wait for an answer.\<close>

definition waiting :: "('req, 'res) invoker \<Rightarrow> 'req RequestWrapper list" where
  "waiting st = taken st @ queue st"

text \<open>
  The \<open>i\<close>-th future has the \<open>i\<close>-th one-shot, and this is empty exactly as long as its wrapper waits, then holds
  the answer, and is consumed once the invoker got it.
\<close>

definition shot_ok :: "('req \<Rightarrow> 'res) \<Rightarrow> ('req, 'res) invoker_run \<Rightarrow> nat \<Rightarrow> bool" where
  "shot_ok f s i \<longleftrightarrow>
     (if i \<in> wrapper_response ` set (waiting (interface s)) then oneshots (interface s) ! i = Empty
      else if i \<in> fst ` set (got s) then oneshots (interface s) ! i = Consumed
      else oneshots (interface s) ! i = Sent (f (snd (asked s ! i))))"

definition invoker_inv :: "('req \<Rightarrow> 'res) \<Rightarrow> ('req, 'res) invoker_run \<Rightarrow> bool" where
  "invoker_inv f s \<longleftrightarrow> map fst (asked s) = [0..<length (asked s)] \<and>
     length (oneshots (interface s)) = length (asked s) \<and>
     distinct (map wrapper_response (waiting (interface s))) \<and>
     (\<forall>w \<in> set (waiting (interface s)). wrapper_response w < length (asked s) \<and>
        wrapper_request w = snd (asked s ! wrapper_response w) \<and> wrapper_response w \<notin> fst ` set (got s)) \<and>
     (\<forall>i < length (asked s). shot_ok f s i) \<and>
     (\<forall>(i, res) \<in> set (got s). i < length (asked s) \<and> res = f (snd (asked s ! i)))"

lemma asked_nth:
  assumes "map fst log = [0..<length log]"
  shows "(i, req) \<in> set log \<longleftrightarrow> i < length log \<and> snd (log ! i) = req"
proof -
  have fst: "fst (log ! j) = j" if "j < length log" for j
    using that arg_cong [OF assms, of "\<lambda>xs. xs ! j"] by simp
  show ?thesis
  proof
    assume "(i, req) \<in> set log"
    then obtain j where "j < length log" "log ! j = (i, req)" by (auto simp: in_set_conv_nth)
    with fst [of j] show "i < length log \<and> snd (log ! i) = req" by simp
  next
    assume i: "i < length log \<and> snd (log ! i) = req"
    then have "log ! i = (i, req)" using fst [of i] by (intro prod_eqI) simp_all
    with i show "(i, req) \<in> set log" by (metis nth_mem)
  qed
qed

lemma invoked_inv:
  assumes "invoke True req (interface s) = Inr (future, st)" and inv: "invoker_inv f s"
  shows "invoker_inv f (s\<lparr>asked := asked s @ [(future, req)], interface := st\<rparr>)" (is "invoker_inv f ?s")
proof -
  let ?w = "\<lparr>wrapper_request = req, wrapper_response = length (asked s)\<rparr>"
  have new: "future = length (asked s)"
    "st = (interface s)\<lparr>queue := queue (interface s) @ [?w], oneshots := oneshots (interface s) @ [Empty]\<rparr>"
    using assms by (auto simp: invoke_def Let_def invoker_inv_def)
  have waiting: "waiting st = waiting (interface s) @ [?w]" by (simp add: new(2) waiting_def)
  have shots: "oneshots st = oneshots (interface s) @ [Empty]" by (simp add: new(2))
  have old: "\<forall>w \<in> set (waiting (interface s)). wrapper_response w < length (asked s)"
    and got: "\<forall>(i, res) \<in> set (got s). i < length (asked s)"
    using inv by (auto simp: invoker_inv_def)
  have "shot_ok f ?s i" if "i < length (asked s)" for i
    using inv that by (auto simp: invoker_inv_def shot_ok_def waiting shots nth_append)
  moreover have "shot_ok f ?s (length (asked s))"
    using inv by (simp add: invoker_inv_def shot_ok_def waiting shots nth_append)
  ultimately have "\<forall>i < length (asked ?s). shot_ok f ?s i" by (simp add: less_Suc_eq)
  moreover have "distinct (map wrapper_response (waiting st))"
    using inv old by (auto simp: invoker_inv_def waiting)
  moreover have "wrapper_response w < length (asked ?s) \<and> wrapper_request w = snd (asked ?s ! wrapper_response w) \<and>
      wrapper_response w \<notin> fst ` set (got s)" if "w \<in> set (waiting st)" for w
    using inv that got by (auto simp: invoker_inv_def waiting nth_append)
  moreover have "\<forall>(i, res) \<in> set (got s). i < length (asked ?s) \<and> res = f (snd (asked ?s ! i))"
    using inv by (auto simp: invoker_inv_def nth_append)
  ultimately show ?thesis using inv new(1) by (simp add: invoker_inv_def shots)
qed

lemma received_inv:
  assumes "recv (interface s) = Some st" and "invoker_inv f s"
  shows "invoker_inv f (s\<lparr>interface := st\<rparr>)"
proof -
  have "waiting st = waiting (interface s)" "oneshots st = oneshots (interface s)"
    using assms(1) by (auto simp: waiting_def recv_def split: list.splits)
  with assms(2) show ?thesis by (simp add: invoker_inv_def shot_ok_def)
qed

lemma waiting_settle:
  assumes "i < length (taken st)"
  shows "\<exists>ws ws'. waiting st = ws @ taken st ! i # ws' \<and> waiting (settle i res st) = ws @ ws'"
proof -
  have "waiting st = (take i (taken st) @ taken st ! i # drop (Suc i) (taken st)) @ queue st"
    by (simp only: id_take_nth_drop [OF assms, symmetric] waiting_def)
  then show ?thesis
    by (intro exI [of _ "take i (taken st)"] exI [of _ "drop (Suc i) (taken st) @ queue st"])
      (simp add: waiting_def settle_def)
qed

lemma answered_inv:
  assumes inv: "invoker_inv f s" and i: "i < length (taken (interface s))"
  shows "invoker_inv f (s\<lparr>interface :=
    settle i (Sent (f (wrapper_request (taken (interface s) ! i)))) (interface s)\<rparr>)" (is "invoker_inv f ?s")
proof -
  let ?w = "taken (interface s) ! i"
  obtain ws ws' where ws: "waiting (interface s) = ws @ ?w # ws'" "waiting (interface ?s) = ws @ ws'"
    using waiting_settle [OF i] by fastforce
  have shots: "oneshots (interface ?s) = (oneshots (interface s))[wrapper_response ?w := Sent (f (wrapper_request ?w))]"
    by (simp add: settle_def)
  have w: "wrapper_response ?w < length (oneshots (interface s))" "wrapper_response ?w \<notin> fst ` set (got s)"
    "wrapper_request ?w = snd (asked s ! wrapper_response ?w)"
    "wrapper_response ?w \<notin> wrapper_response ` set (ws @ ws')"
    using inv ws(1) by (auto simp: invoker_inv_def)
  have "shot_ok f ?s j" if "j < length (asked s)" for j
  proof (cases "j = wrapper_response ?w")
    case True
    then show ?thesis using w unfolding shot_ok_def ws(2) shots by simp
  next
    case False
    moreover have "shot_ok f s j" using inv that by (simp add: invoker_inv_def)
    ultimately show ?thesis unfolding shot_ok_def ws shots by simp
  qed
  moreover have "\<forall>v \<in> set (ws @ ws'). wrapper_response v < length (asked s) \<and>
      wrapper_request v = snd (asked s ! wrapper_response v) \<and> wrapper_response v \<notin> fst ` set (got s)"
    "distinct (map wrapper_response (ws @ ws'))"
    using inv ws(1) by (simp_all add: invoker_inv_def)
  ultimately show ?thesis using inv unfolding invoker_inv_def ws(2) shots by simp
qed

lemma polled_inv:
  assumes inv: "invoker_inv f s" and w: "waits s future req" and poll: "poll (interface s) future = Inr (res, st)"
  shows "invoker_inv f (s\<lparr>got := got s @ (case res of Ready r \<Rightarrow> [(future, r)] | Poll_Pending \<Rightarrow> []), interface := st\<rparr>)"
    (is "invoker_inv f ?s")
proof -
  have log: "map fst (asked s) = [0..<length (asked s)]" using inv by (simp add: invoker_inv_def)
  have future: "future < length (asked s)" "snd (asked s ! future) = req" "future \<notin> fst ` set (got s)"
    using w asked_nth [OF log] by (auto simp: waits_def)
  have shot: "shot_ok f s future" using inv future(1) by (simp add: invoker_inv_def)
  show ?thesis
  proof (cases "future \<in> wrapper_response ` set (waiting (interface s))")
    case True
    then have "oneshots (interface s) ! future = Empty" using shot by (simp add: shot_ok_def)
    with inv poll show ?thesis by (auto simp: poll_def)
  next
    case False
    then have sent: "oneshots (interface s) ! future = Sent (f req)" using shot future by (simp add: shot_ok_def)
    then have res: "res = Ready (f req)" and shots: "oneshots st = (oneshots (interface s))[future := Consumed]"
      and waiting: "waiting st = waiting (interface s)"
      using poll by (auto simp: poll_def waiting_def)
    have "shot_ok f ?s j" if "j < length (asked s)" for j
    proof (cases "j = future")
      case True
      then show ?thesis using False future(1) inv by (simp add: shot_ok_def waiting shots res invoker_inv_def)
    next
      case False
      moreover have "shot_ok f s j" using inv that by (simp add: invoker_inv_def)
      ultimately show ?thesis by (auto simp: shot_ok_def waiting shots res)
    qed
    moreover have "\<forall>w \<in> set (waiting (interface s)). wrapper_response w \<notin> fst ` set (got ?s)"
      using inv False by (auto simp: invoker_inv_def res)
    moreover have "\<forall>(i, r) \<in> set (got ?s). i < length (asked s) \<and> r = f (snd (asked s ! i))"
      using inv future by (auto simp: invoker_inv_def res)
    ultimately show ?thesis using inv by (simp add: invoker_inv_def waiting shots)
  qed
qed

interpretation invokers: invariant_system "\<lambda>s. s = invoker_start" "invoker_step f" "invoker_inv f" for f
proof unfold_locales
  fix s s'
  assume "invoker_inv f s" and "invoker_step f s s'"
  then show "invoker_inv f s'"
    by (auto elim!: invoker_stepE intro: invoked_inv received_inv answered_inv polled_inv)
qed (simp add: invoker_inv_def waiting_def invoker_start_def create_invoker_handler_pair_def)

lemma invoker_start_inv: "invoker_inv f invoker_start"
  using invokers.inv_initial [of _ f] by simp

section \<open>Properties\<close>

text \<open>
  C35: in whatever order requests are made, taken and answered and futures
  polled, no two requests are given the same future, and what a future yielded is the answer to the request
  that returned it. Polling one that has not yielded yet never panics: it is pending, or ready with the
  answer to its own request, and ready it is once no request is waiting.
\<close>

theorem future_gets_its_answer:
  assumes "invoker_reaches f s"
  shows "distinct (map fst (asked s)) \<and>
    (\<forall>(future, res) \<in> set (got s). \<exists>req. (future, req) \<in> set (asked s) \<and> res = f req) \<and>
    (\<forall>(future, req) \<in> set (asked s). future \<notin> fst ` set (got s) \<longrightarrow>
      (\<exists>res st. poll (interface s) future = Inr (res, st) \<and> (res = Poll_Pending \<or> res = Ready (f req)) \<and>
        (queue (interface s) = [] \<and> taken (interface s) = [] \<longrightarrow> res = Ready (f req))))"
proof -
  have inv: "invoker_inv f s" using invokers.steps_inv [OF assms invoker_start_inv] .
  then have log: "map fst (asked s) = [0..<length (asked s)]" by (simp add: invoker_inv_def)
  have "distinct (map fst (asked s))" unfolding log by simp
  moreover have "\<exists>req. (future, req) \<in> set (asked s) \<and> res = f req" if "(future, res) \<in> set (got s)" for future res
    using inv that asked_nth [OF log, of future "snd (asked s ! future)"] by (auto simp: invoker_inv_def)
  moreover have "\<exists>res st. poll (interface s) future = Inr (res, st) \<and> (res = Poll_Pending \<or> res = Ready (f req)) \<and>
        (queue (interface s) = [] \<and> taken (interface s) = [] \<longrightarrow> res = Ready (f req))"
    if "(future, req) \<in> set (asked s)" "future \<notin> fst ` set (got s)" for future req
  proof -
    have future: "future < length (asked s)" "snd (asked s ! future) = req" using that(1) asked_nth [OF log] by auto
    then have "shot_ok f s future" using inv by (simp add: invoker_inv_def)
    with that(2) future(2) have "oneshots (interface s) ! future = Empty \<and> waiting (interface s) \<noteq> [] \<or>
        oneshots (interface s) ! future = Sent (f req)"
      by (auto simp: shot_ok_def split: if_splits)
    then show ?thesis by (auto simp: poll_def waiting_def)
  qed
  ultimately show ?thesis by blast
qed

text \<open>Two requests are made and taken, the second is answered, and its future polled.\<close>

definition two_requests :: "(nat, nat) invoker_run" where
  "two_requests = \<lparr>asked = [(0, 10), (1, 20)], got = [(1, 40)],
     interface = \<lparr>queue = [], taken = [\<lparr>wrapper_request = 10, wrapper_response = 0\<rparr>], oneshots = [Empty, Consumed]\<rparr>\<rparr>"

lemma two_requests_reached: "invoker_reaches ((*) 2) two_requests"
proof -
  let ?w0 = "\<lparr>wrapper_request = 10 :: nat, wrapper_response = 0\<rparr>"
  let ?w1 = "\<lparr>wrapper_request = 20 :: nat, wrapper_response = 1\<rparr>"
  let ?s = "\<lambda>l g q t os. \<lparr>asked = l, got = g, interface = \<lparr>queue = q, taken = t, oneshots = os :: nat oneshot list\<rparr>\<rparr>"
  let ?step = "invoker_step ((*) (2 :: nat))"
  have "?step invoker_start (?s [(0, 10)] [] [?w0] [] [Empty])"
    using invoker_step.invoked [of 10 invoker_start 0 _ "(*) 2"]
    by (simp add: invoker_start_def create_invoker_handler_pair_def invoke_def)
  moreover have "?step (?s [(0, 10)] [] [?w0] [] [Empty]) (?s [(0, 10), (1, 20)] [] [?w0, ?w1] [] [Empty, Empty])"
    using invoker_step.invoked [of 20 "?s [(0, 10)] [] [?w0] [] [Empty]" 1 _ "(*) 2"] by (simp add: invoke_def)
  moreover have "?step (?s [(0, 10), (1, 20)] [] [?w0, ?w1] [] [Empty, Empty])
      (?s [(0, 10), (1, 20)] [] [?w1] [?w0] [Empty, Empty])"
    using invoker_step.received [of "?s [(0, 10), (1, 20)] [] [?w0, ?w1] [] [Empty, Empty]" _ "(*) 2"] by (simp add: recv_def)
  moreover have "?step (?s [(0, 10), (1, 20)] [] [?w1] [?w0] [Empty, Empty])
      (?s [(0, 10), (1, 20)] [] [] [?w0, ?w1] [Empty, Empty])"
    using invoker_step.received [of "?s [(0, 10), (1, 20)] [] [?w1] [?w0] [Empty, Empty]" _ "(*) 2"] by (simp add: recv_def)
  moreover have "?step (?s [(0, 10), (1, 20)] [] [] [?w0, ?w1] [Empty, Empty])
      (?s [(0, 10), (1, 20)] [] [] [?w0] [Empty, Sent 40])"
    using invoker_step.answered [of 1 "?s [(0, 10), (1, 20)] [] [] [?w0, ?w1] [Empty, Empty]" "(*) 2"] by (simp add: settle_def)
  moreover have "?step (?s [(0, 10), (1, 20)] [] [] [?w0] [Empty, Sent 40]) two_requests"
    using invoker_step.polled [of "?s [(0, 10), (1, 20)] [] [] [?w0] [Empty, Sent 40]" 1 20 _ _ "(*) 2"]
    by (simp add: waits_def poll_def two_requests_def)
  ultimately show ?thesis by (meson rtranclp.rtrancl_into_rtrancl rtranclp.rtrancl_refl)
qed

theorem future_gets_its_answer_witness:
  "(\<exists>req. (1, req) \<in> set (asked two_requests) \<and> 40 = 2 * req) \<and>
   (\<exists>res st. poll (interface two_requests) 0 = Inr (res, st) \<and> (res = Poll_Pending \<or> res = Ready (2 * 10)))"
proof -
  have got: "(1, 40) \<in> set (got two_requests)" and asked: "(0, 10) \<in> set (asked two_requests)"
    "0 \<notin> fst ` set (got two_requests)"
    by (simp_all add: two_requests_def)
  show ?thesis using future_gets_its_answer [OF two_requests_reached] got asked by blast
qed

end
