(* ===== verification/Network_Setup.thy ===== *)
theory Network_Setup
  imports Node_P2P Channels
begin

text \<open>
  How the network layers of a node and of a gateway are made: \<open>P2P::new\<close> of
  \<open>maroon/src/network/p2p.rs\<close> and of \<open>gateway/src/p2p.rs\<close>, and the \<open>create_behaviour\<close> of the three
  request-response protocols of \<open>common/src\<close>.

  Keys, transports and behaviours are \<open>libp2p\<close>'s. A behaviour or a swarm is known by what the code
  makes it of; the record \<open>libp2p\<close> holds what the code learns from the crate: the key pair it
  generates, the peer id of a public key, and whether a step of the set-up succeeds.
\<close>

section \<open>The protocols\<close>

text \<open>Whether a peer takes requests of a protocol, makes them, or both.\<close>

datatype ProtocolSupport = Inbound | Outbound | Full

type_synonym behaviour = "(string \<times> ProtocolSupport) list"

definition gm_create_behaviour :: "ProtocolSupport \<Rightarrow> behaviour" where
  "gm_create_behaviour protocol = [(''/maroon/request/1.0.0'', protocol)]"

definition me_create_behaviour :: behaviour where
  "me_create_behaviour = [(''/maroon/meta_exchange/1.0.0'', Full)]"

definition m2m_create_behaviour :: behaviour where
  "m2m_create_behaviour = [(''/maroon/p2p_direct/1.0.0'', Full)]"

section \<open>What the crate is given and answers\<close>

text \<open>Durations are in seconds.\<close>

record PingConfig =
  ping_interval :: nat
  ping_timeout :: nat

datatype ValidationMode = Permissive

record GossipsubConfig =
  mesh_outbound_min :: nat
  mesh_n_low :: nat
  mesh_n :: nat
  validation_mode :: ValidationMode

record 'k Gossipsub =
  signed_with :: 'k
  gossipsub_config :: GossipsubConfig
  subscriptions :: "string list"

record ('k, 'p) libp2p =
  generated_keypair :: 'k
  peer_id_of :: "'k \<Rightarrow> 'p"
  noise_ok :: "'k \<Rightarrow> bool"
  gossipsub_config_ok :: "GossipsubConfig \<Rightarrow> bool"
  gossipsub_ok :: "'k \<Rightarrow> GossipsubConfig \<Rightarrow> bool"
  subscribe_ok :: "'k Gossipsub \<Rightarrow> string \<Rightarrow> bool"
  dns_system_ok :: bool

text \<open>A swarm: the key pair its transport authenticates with, its behaviour, its id, and when it drops an idle connection.\<close>

record ('k, 'p, 'behaviour) Swarm =
  swarm_auth :: 'k
  swarm_nodelay :: bool
  swarm_behaviour :: 'behaviour
  swarm_peer_id :: 'p
  idle_connection_timeout :: nat

definition ping_config :: PingConfig where
  "ping_config = \<lparr>ping_interval = 5, ping_timeout = 10\<rparr>"

definition Swarm_new :: "('k, 'p) libp2p \<Rightarrow> 'behaviour \<Rightarrow> 'p \<Rightarrow> panic + ('k, 'p, 'behaviour) Swarm" where
  "Swarm_new lib behaviour peer_id =
     (if dns_system_ok lib
      then Inr \<lparr>swarm_auth = generated_keypair lib, swarm_nodelay = True, swarm_behaviour = behaviour,
                 swarm_peer_id = peer_id, idle_connection_timeout = 60\<rparr>
      else Inl UnwrapFailed)"

section \<open>A node\<close>

record 'k MaroonBehaviour =
  maroon_ping :: PingConfig
  maroon_gossipsub :: "'k Gossipsub"
  maroon_request_response :: behaviour
  maroon_meta_exchange :: behaviour
  maroon_m2m_req_res :: behaviour

record ('k, 'p) NodeP2P =
  nodep2p_peer_id :: 'p
  nodep2p_node_urls :: "string list"
  nodep2p_self_url :: string
  nodep2p_swarm :: "('k, 'p, 'k MaroonBehaviour) Swarm"
  nodep2p_topic :: string
  nodep2p_endpoint :: Endpoint

definition node_gossipsub_config :: GossipsubConfig where
  "node_gossipsub_config =
     \<lparr>mesh_outbound_min = 1, mesh_n_low = 1, mesh_n = 2, validation_mode = Permissive\<rparr>"

text \<open>
  \<open>P2P::new\<close>: every step of the set-up that fails is an error of the function, but for the DNS
  transport (in \<open>Swarm_new\<close>), whose failure is unwrapped.
\<close>

definition P2P_new ::
    "('k, 'p) libp2p \<Rightarrow> string list \<Rightarrow> string \<Rightarrow> Endpoint \<Rightarrow> panic + (start_error + ('k, 'p) NodeP2P)"
where
  "P2P_new lib node_urls self_url interface_endpoint =
     (let kp = generated_keypair lib;
          peer_id = peer_id_of lib kp;
          gossipsub = \<lparr>signed_with = kp, gossipsub_config = node_gossipsub_config, subscriptions = []\<rparr>;
          node_p2p_topic = ''node-p2p'' in
      if \<not> noise_ok lib kp then Inr (Inl NoiseError)
      else if \<not> gossipsub_config_ok lib node_gossipsub_config then Inr (Inl GossipsubConfigError)
      else if \<not> gossipsub_ok lib kp node_gossipsub_config then Inr (Inl GossipsubError)
      else if \<not> subscribe_ok lib gossipsub node_p2p_topic then Inr (Inl SubscriptionError)
      else
        (let behaviour = \<lparr>maroon_ping = ping_config,
               maroon_gossipsub = gossipsub\<lparr>subscriptions := subscriptions gossipsub @ [node_p2p_topic]\<rparr>,
               maroon_request_response = gm_create_behaviour Inbound,
               maroon_meta_exchange = me_create_behaviour,
               maroon_m2m_req_res = m2m_create_behaviour\<rparr> in
         rbind (Swarm_new lib behaviour peer_id) (\<lambda>swarm.
           Inr (Inr \<lparr>nodep2p_peer_id = peer_id, nodep2p_node_urls = node_urls, nodep2p_self_url = self_url,
                     nodep2p_swarm = swarm, nodep2p_topic = node_p2p_topic,
                     nodep2p_endpoint = interface_endpoint\<rparr>))))"

text \<open>What the loop of the layer starts with.\<close>

definition start_event_loop :: "('k, 'p) NodeP2P \<Rightarrow> Endpoint \<times> 'p P2P" where
  "start_event_loop self = (nodep2p_endpoint self, start_state (nodep2p_peer_id self))"

section \<open>A gateway\<close>

record GatewayBehaviour =
  gateway_ping :: PingConfig
  gateway_request_response :: behaviour
  gateway_meta_exchange :: behaviour

record ('k, 'p) GatewayP2P =
  gatewayp2p_node_urls :: "string list"
  gatewayp2p_swarm :: "('k, 'p, GatewayBehaviour) Swarm"
  gatewayp2p_endpoint :: Endpoint

definition gw_P2P_new ::
    "('k, 'p) libp2p \<Rightarrow> string list \<Rightarrow> Endpoint \<Rightarrow> panic + (start_error + ('k, 'p) GatewayP2P)"
where
  "gw_P2P_new lib node_urls interface_endpoint =
     (let kp = generated_keypair lib;
          peer_id = peer_id_of lib kp in
      if \<not> noise_ok lib kp then Inr (Inl NoiseError)
      else
        (let behaviour = \<lparr>gateway_ping = ping_config,
               gateway_request_response = gm_create_behaviour Outbound,
               gateway_meta_exchange = me_create_behaviour\<rparr> in
         rbind (Swarm_new lib behaviour peer_id) (\<lambda>swarm.
           Inr (Inr \<lparr>gatewayp2p_node_urls = node_urls, gatewayp2p_swarm = swarm,
                     gatewayp2p_endpoint = interface_endpoint\<rparr>))))"

text \<open>The loop starts with no node connected.\<close>

definition gw_start_event_loop :: "('k, 'p) GatewayP2P \<Rightarrow> Endpoint \<times> 'p set" where
  "gw_start_event_loop self = (gatewayp2p_endpoint self, {})"

section \<open>What comes out\<close>

abbreviation own_id :: "('k, 'p) libp2p \<Rightarrow> 'p" where
  "own_id lib \<equiv> peer_id_of lib (generated_keypair lib)"

lemmas behaviour_defs = gm_create_behaviour_def me_create_behaviour_def m2m_create_behaviour_def

lemma P2P_new_ok [res_simps]:
  "P2P_new lib urls url ep = Inr (Inr self) \<longleftrightarrow>
     noise_ok lib (generated_keypair lib) \<and> gossipsub_config_ok lib node_gossipsub_config \<and>
     gossipsub_ok lib (generated_keypair lib) node_gossipsub_config \<and>
     subscribe_ok lib \<lparr>signed_with = generated_keypair lib, gossipsub_config = node_gossipsub_config,
       subscriptions = []\<rparr> ''node-p2p'' \<and> dns_system_ok lib \<and>
     self = \<lparr>nodep2p_peer_id = peer_id_of lib (generated_keypair lib), nodep2p_node_urls = urls,
       nodep2p_self_url = url, nodep2p_swarm = nodep2p_swarm self, nodep2p_topic = ''node-p2p'', nodep2p_endpoint = ep\<rparr> \<and>
     nodep2p_swarm self = \<lparr>swarm_auth = generated_keypair lib, swarm_nodelay = True,
       swarm_behaviour = \<lparr>maroon_ping = ping_config,
         maroon_gossipsub = \<lparr>signed_with = generated_keypair lib, gossipsub_config = node_gossipsub_config,
           subscriptions = [''node-p2p'']\<rparr>,
         maroon_request_response = gm_create_behaviour Inbound, maroon_meta_exchange = me_create_behaviour,
         maroon_m2m_req_res = m2m_create_behaviour\<rparr>,
       swarm_peer_id = peer_id_of lib (generated_keypair lib), idle_connection_timeout = 60\<rparr>"
  by (cases self) (auto simp: P2P_new_def Swarm_new_def Let_def)

lemma gw_P2P_new_ok [res_simps]:
  "gw_P2P_new lib urls ep = Inr (Inr self) \<longleftrightarrow>
     noise_ok lib (generated_keypair lib) \<and> dns_system_ok lib \<and>
     self = \<lparr>gatewayp2p_node_urls = urls, gatewayp2p_swarm = \<lparr>swarm_auth = generated_keypair lib,
         swarm_nodelay = True, swarm_behaviour = \<lparr>gateway_ping = ping_config,
           gateway_request_response = gm_create_behaviour Outbound, gateway_meta_exchange = me_create_behaviour\<rparr>,
         swarm_peer_id = peer_id_of lib (generated_keypair lib), idle_connection_timeout = 60\<rparr>,
       gatewayp2p_endpoint = ep\<rparr>"
  by (cases self) (auto simp: gw_P2P_new_def Swarm_new_def Let_def)

text \<open>A set-up in which nothing fails.\<close>

definition sets_up :: "('k, 'p) libp2p \<Rightarrow> bool" where
  "sets_up lib \<longleftrightarrow> noise_ok lib (generated_keypair lib) \<and> gossipsub_config_ok lib node_gossipsub_config \<and>
     gossipsub_ok lib (generated_keypair lib) node_gossipsub_config \<and>
     subscribe_ok lib \<lparr>signed_with = generated_keypair lib, gossipsub_config = node_gossipsub_config,
       subscriptions = []\<rparr> ''node-p2p'' \<and> dns_system_ok lib"

lemma sets_upD:
  assumes "sets_up lib"
  shows "\<exists>self. P2P_new lib urls url ep = Inr (Inr self) \<and>
      start_event_loop self = (ep, start_state (peer_id_of lib (generated_keypair lib)))"
    and "\<exists>self. gw_P2P_new lib urls ep = Inr (Inr self) \<and> gw_start_event_loop self = (ep, {}) \<and>
      gatewayp2p_node_urls self = urls"
  using assms
  by (auto simp: sets_up_def P2P_new_def gw_P2P_new_def Swarm_new_def Let_def start_event_loop_def gw_start_event_loop_def)

definition libp2p_of :: "'p \<Rightarrow> (unit, 'p) libp2p" where
  "libp2p_of p = \<lparr>generated_keypair = (), peer_id_of = (\<lambda>_. p), noise_ok = (\<lambda>_. True),
     gossipsub_config_ok = (\<lambda>_. True), gossipsub_ok = (\<lambda>_ _. True), subscribe_ok = (\<lambda>_ _. True), dns_system_ok = True\<rparr>"

lemma sets_up_libp2p_of [simp]: "sets_up (libp2p_of p)" "peer_id_of (libp2p_of p) k = p"
  by (simp_all add: sets_up_def libp2p_of_def)

section \<open>Who can ask whom\<close>

text \<open>A request gets through if one side makes requests of a protocol that the other takes.\<close>

definition can_request :: "behaviour \<Rightarrow> behaviour \<Rightarrow> bool" where
  "can_request from_behaviour to_behaviour \<longleftrightarrow>
     (\<exists>(name, support) \<in> set from_behaviour. \<exists>(name', support') \<in> set to_behaviour.
        name = name' \<and> support \<noteq> Inbound \<and> support' \<noteq> Outbound)"

text \<open>
  Gateways can send transactions to nodes, nodes neither to gateways nor to each other; both sides
  can ask the other for its role, and nodes each other for transactions.
\<close>

lemma protocols_fit:
  assumes "P2P_new lib urls url ep = Inr (Inr node)" and "P2P_new lib2 urls2 url2 ep2 = Inr (Inr node2)"
    and "gw_P2P_new lib' urls' ep' = Inr (Inr gw)"
  shows "can_request (gateway_request_response (swarm_behaviour (gatewayp2p_swarm gw)))
      (maroon_request_response (swarm_behaviour (nodep2p_swarm node)))"
    and "\<not> can_request (maroon_request_response (swarm_behaviour (nodep2p_swarm node)))
      (gateway_request_response (swarm_behaviour (gatewayp2p_swarm gw)))"
    and "\<not> can_request (maroon_request_response (swarm_behaviour (nodep2p_swarm node)))
      (maroon_request_response (swarm_behaviour (nodep2p_swarm node2)))"
    and "can_request (maroon_meta_exchange (swarm_behaviour (nodep2p_swarm node)))
      (gateway_meta_exchange (swarm_behaviour (gatewayp2p_swarm gw)))"
    and "can_request (maroon_meta_exchange (swarm_behaviour (nodep2p_swarm node)))
      (maroon_meta_exchange (swarm_behaviour (nodep2p_swarm node2)))"
    and "can_request (maroon_m2m_req_res (swarm_behaviour (nodep2p_swarm node)))
      (maroon_m2m_req_res (swarm_behaviour (nodep2p_swarm node2)))"
  using assms by (simp_all add: res_simps can_request_def behaviour_defs)

end
