(* ===== verification/Gateways.thy ===== *)
theory Gateways
  imports Network_Setup
begin

text \<open>
  The gateway (\<open>gateway/src\<close>): its network layer (\<open>p2p.rs\<close>), which sends every request to every
  connected node, its interface (\<open>core.rs\<close>), and the program (\<open>main.rs\<close>) that sends a hundred
  transactions of one range. Crates are modelled as in \<open>Node_P2P\<close>.
\<close>

section \<open>The network layer\<close>

datatype ('p, 'c, 'a) gw_command =
    GW_SendRequest 'p GMRequest
  | GW_SendMEResponse 'c MEResponse
  | GW_Dial 'a

datatype ('p, 'c) gw_event =
    GW_RequestResponse "('p, GMRequest, GMResponse, 'c) rr_event"
  | GW_MetaExchange "('p, MERequest, MEResponse, 'c) rr_event"
  | GW_Ping
  | GW_ConnectionEstablished 'p
  | GW_ConnectionClosed 'p nat
  | GW_OutgoingConnectionError
  | GW_Other

fun gw_handle_request_response ::
    "bool \<Rightarrow> ('p, GMRequest, GMResponse, 'c) rr_event \<Rightarrow> panic + GMResponse list" where
  "gw_handle_request_response listening (RR_Message peer (RR_Response response)) =
     (if listening then Inr [response] else Inl UnwrapFailed)"
| "gw_handle_request_response listening (RR_Message peer (RR_Request request channel)) = Inr []"
| "gw_handle_request_response listening RR_Other = Inr []"

text \<open>The set of connected nodes is \<open>maroon_peer_ids\<close>; the responses go to the channel of \<open>core.rs\<close>.\<close>

fun gw_handle_swarm_event ::
    "bool \<Rightarrow> ('p, 'c) gw_event \<Rightarrow> 'p set \<Rightarrow>
      panic + ('p set \<times> GMResponse list \<times> ('p, 'c, 'a) gw_command list)"
where
  "gw_handle_swarm_event listening (GW_RequestResponse gm_request_response) maroon_peer_ids =
     rbind (gw_handle_request_response listening gm_request_response) (\<lambda>responses.
       Inr (maroon_peer_ids, responses, []))"
| "gw_handle_swarm_event listening (GW_MetaExchange meta_exchange) maroon_peer_ids =
     (case meta_exchange of
        RR_Message _ (RR_Request _ channel) \<Rightarrow>
          Inr (maroon_peer_ids, [], [GW_SendMEResponse channel \<lparr>response_role = Gateway\<rparr>])
      | _ \<Rightarrow> Inr (maroon_peer_ids, [], []))"
| "gw_handle_swarm_event listening (GW_ConnectionEstablished peer) maroon_peer_ids =
     Inr (insert peer maroon_peer_ids, [], [])"
| "gw_handle_swarm_event listening (GW_ConnectionClosed peer num_established) maroon_peer_ids =
     Inr (maroon_peer_ids - {peer}, [], [])"
| "gw_handle_swarm_event listening _ maroon_peer_ids = Inr (maroon_peer_ids, [], [])"

datatype ('p, 'c) gw_input = GW_Request "'p list" GMRequest | GW_Swarm "('p, 'c) gw_event"

text \<open>
  One round of the loop. A request comes with the order in which the set of nodes is iterated.
\<close>

fun gw_step ::
    "bool \<Rightarrow> ('p, 'c) gw_input \<Rightarrow> 'p set \<Rightarrow>
      panic + ('p set \<times> GMResponse list \<times> ('p, 'c, 'a) gw_command list)"
where
  "gw_step listening (GW_Request order request) maroon_peer_ids =
     Inr (maroon_peer_ids, [], map (\<lambda>peer_id. GW_SendRequest peer_id request) order)"
| "gw_step listening (GW_Swarm event) maroon_peer_ids =
     gw_handle_swarm_event listening event maroon_peer_ids"

fun gw_loop ::
    "bool \<Rightarrow> ('p, 'c) gw_input list \<Rightarrow> 'p set \<Rightarrow>
      panic + ('p set \<times> GMResponse list \<times> ('p, 'c, 'a) gw_command list)"
where
  "gw_loop listening [] maroon_peer_ids = Inr (maroon_peer_ids, [], [])"
| "gw_loop listening (i # is) maroon_peer_ids =
     rbind (gw_step listening i maroon_peer_ids) (\<lambda>(ids, responses, commands).
     rbind (gw_loop listening is ids) (\<lambda>(ids, responses', commands').
       Inr (ids, responses @ responses', commands @ commands')))"

fun gw_prepare ::
    "(string \<Rightarrow> 'a option) \<Rightarrow> ('a \<Rightarrow> bool) \<Rightarrow> string list \<Rightarrow>
      ('p, 'c, 'a) gw_command list \<times> (start_error + unit)"
where
  "gw_prepare parse can_dial [] = ([], Inr ())"
| "gw_prepare parse can_dial (url # urls) =
     (case parse url of
        None \<Rightarrow> ([], Inl ParseError)
      | Some addr \<Rightarrow>
          if can_dial addr
          then (let (cs, res) = gw_prepare parse can_dial urls in (GW_Dial addr # cs, res))
          else ([GW_Dial addr], Inl DialError))"

section \<open>The gateway\<close>

text \<open>
  \<open>requests\<close> is what was sent into the channel to the network layer, which \<open>p2p\<close> is until it runs.
\<close>

record ('k, 'p) Gateway =
  p2p_channels :: Endpoint
  requests :: "GMRequest list"
  p2p :: "('k, 'p) GatewayP2P option"

definition Gateway_new ::
    "('k, 'p) libp2p \<Rightarrow> (string \<Rightarrow> 'a option) \<Rightarrow> ('a \<Rightarrow> bool) \<Rightarrow> string list \<Rightarrow>
      ('p, 'c, 'a) gw_command list \<times> (panic + (start_error + ('k, 'p) Gateway))"
where
  "Gateway_new lib parse can_dial node_urls =
     (let (a2b_endpoint, b2a_endpoint) = create_a_b_duplex_pair 0 in
      case gw_P2P_new lib node_urls b2a_endpoint of
        Inl p \<Rightarrow> ([], Inl p)
      | Inr (Inl e) \<Rightarrow> ([], Inr (Inl e))
      | Inr (Inr layer) \<Rightarrow>
          (let (cs, res) = gw_prepare parse can_dial (gatewayp2p_node_urls layer) in
           (cs, Inr (rbind res (\<lambda>_.
             Inr \<lparr>p2p_channels = a2b_endpoint, requests = [], p2p = Some layer\<rparr>)))))"

text \<open>Taking the layer out hands it to the task that runs its loop, from the state given here.\<close>

definition start_in_background ::
    "('k, 'p) Gateway \<Rightarrow> panic + ((Endpoint \<times> 'p set) \<times> ('k, 'p) Gateway)" where
  "start_in_background self =
     (case p2p self of
        None \<Rightarrow> Inl CalledTwice
      | Some layer \<Rightarrow> Inr (gw_start_event_loop layer, self\<lparr>p2p := None\<rparr>))"

definition send_request :: "bool \<Rightarrow> GMRequest \<Rightarrow> ('k, 'p) Gateway \<Rightarrow> ('k, 'p) Gateway \<times> MEResponse" where
  "send_request alive req self =
     (self\<lparr>requests := requests self @ endpoint_send alive req\<rparr>, \<lparr>response_role = Node\<rparr>)"

section \<open>The program\<close>

text \<open>\<open>split(',')\<close>: the pieces between the commas, one more than there are commas.\<close>

fun split_urls :: "string \<Rightarrow> string list" where
  "split_urls [] = [[]]"
| "split_urls (c # s) =
     (if c = CHR '','' then [] # split_urls s
      else (case split_urls s of piece # pieces \<Rightarrow> (c # piece) # pieces | [] \<Rightarrow> [[c]]))"

fun send_transactions ::
    "bool \<Rightarrow> KeyRange \<Rightarrow> nat list \<Rightarrow> ('k, 'p) Gateway \<Rightarrow> ('k, 'p) Gateway \<times> (panic + unit)"
where
  "send_transactions alive key_range [] gw = (gw, Inr ())"
| "send_transactions alive key_range (i # is) gw =
     (case unique_blob_id_from_range_and_offset key_range (u64 i) of
        Inl p \<Rightarrow> (gw, Inl p)
      | Inr blob_id \<Rightarrow>
          (let (gw, _) = send_request alive (GM_NewTransaction (Transaction blob_id Created)) gw in
           send_transactions alive key_range is gw))"

text \<open>
  \<open>main\<close>: the environment variables are arguments, \<open>None\<close> where they are not set; \<open>parse_u64\<close> is the
  standard library's. The result has the dialed addresses, the requests that were sent, and whether
  the program panicked or returned an error. \<open>send_request\<close> never returns an error.
\<close>

definition default_urls :: string where
  "default_urls =
     ''/ip4/127.0.0.1/tcp/3000,/ip4/127.0.0.1/tcp/3001,/ip4/127.0.0.1/tcp/3002''"

definition gateway_main ::
    "('k, 'p) libp2p \<Rightarrow> (string \<Rightarrow> 'a option) \<Rightarrow> ('a \<Rightarrow> bool) \<Rightarrow> (string \<Rightarrow> u64 option) \<Rightarrow> bool \<Rightarrow>
      string option \<Rightarrow> string option \<Rightarrow>
      ('p, 'c, 'a) gw_command list \<times> GMRequest list \<times> (panic + (start_error + unit))"
where
  "gateway_main lib parse can_dial parse_u64 alive env_urls env_range =
     (let node_urls = split_urls (case env_urls of None \<Rightarrow> default_urls | Some s \<Rightarrow> s) in
      case parse_u64 (case env_range of None \<Rightarrow> ''0'' | Some s \<Rightarrow> s) of
        None \<Rightarrow> ([], [], Inl UnwrapFailed)
      | Some key_range \<Rightarrow>
          (case Gateway_new lib parse can_dial node_urls of
             (cs, Inl p) \<Rightarrow> (cs, [], Inl p)
           | (cs, Inr (Inl e)) \<Rightarrow> (cs, [], Inr (Inl e))
           | (cs, Inr (Inr gw)) \<Rightarrow>
               (case start_in_background gw of
                  Inl p \<Rightarrow> (cs, requests gw, Inl p)
                | Inr (layer, gw) \<Rightarrow>
                    (let (gw, res) = send_transactions alive key_range [0..<100] gw in
                     (cs, requests gw, rbind res (\<lambda>_. Inr (Inr ())))))))"

section \<open>What a gateway sends\<close>

definition new_tx :: "KeyRange \<Rightarrow> nat \<Rightarrow> GMRequest" where
  "new_tx g i = GM_NewTransaction (Transaction (u64 (unat g * 1073741824 + i)) Created)"

lemma send_transactions_ok:
  assumes "\<forall>i \<in> set is. unat g * 1073741824 + i < 18446744073709551616"
  shows "send_transactions True g is gw = (gw\<lparr>requests := requests gw @ map (new_tx g) is\<rparr>, Inr ())"
  using assms
proof (induction "is" arbitrary: gw)
  case (Cons i "is")
  then have i: "unat g * 1073741824 + i < 18446744073709551616" by simp
  then have "unique_blob_id_from_range_and_offset g (u64 i) = Inr (u64 (unat g * 1073741824 + i))"
    by (simp add: unique_blob_id_eq_Inr)
  with Cons show ?case
    by (simp add: send_request_def endpoint_send_def new_tx_def)
qed simp

text \<open>The set of nodes after a run is the nodes whose last connection event was not a close.\<close>

fun connected_after :: "'p \<Rightarrow> ('p, 'c) gw_input list \<Rightarrow> bool \<Rightarrow> bool" where
  "connected_after q [] b = b"
| "connected_after q (GW_Swarm (GW_ConnectionEstablished p) # is) b =
     connected_after q is (q = p \<or> b)"
| "connected_after q (GW_Swarm (GW_ConnectionClosed p n) # is) b =
     connected_after q is (q \<noteq> p \<and> b)"
| "connected_after q (_ # is) b = connected_after q is b"

lemma gw_step_ids:
  assumes "gw_step listening i ids = Inr (ids', responses, commands)"
  shows "q \<in> ids' \<longleftrightarrow> connected_after q [i] (q \<in> ids)"
proof (cases i)
  case (GW_Swarm ev)
  with assms show ?thesis
    by (cases ev) (auto simp: res_simps split: rr_event.splits rr_message.splits)
qed (use assms in simp)

lemma connected_after_Cons: "connected_after q (i # is) b = connected_after q is (connected_after q [i] b)"
  by (cases "(q, i # is, b)" rule: connected_after.cases) auto

lemma gw_prepare_ok:
  "\<forall>url \<in> set urls. \<exists>addr. parse url = Some addr \<and> can_dial addr \<Longrightarrow>
     gw_prepare parse can_dial urls =
       (map (\<lambda>url. GW_Dial (the (parse url))) urls :: ('p, 'c, 'a) gw_command list, Inr ())"
  by (induction urls) auto

lemma Gateway_new_ok:
  assumes "sets_up lib" and "\<forall>url \<in> set urls. \<exists>addr. parse url = Some addr \<and> can_dial addr"
  shows "\<exists>gw. Gateway_new lib parse can_dial urls =
      (map (\<lambda>url. GW_Dial (the (parse url))) urls :: ('p, 'c, 'a) gw_command list, Inr (Inr gw)) \<and>
    requests gw = [] \<and> start_in_background gw = Inr ((\<lparr>sender = 1, receiver = 0\<rparr>, {}), gw\<lparr>p2p := None\<rparr>)"
proof -
  obtain layer where layer: "gw_P2P_new lib urls \<lparr>sender = 1, receiver = 0\<rparr> = Inr (Inr layer)"
    "gw_start_event_loop layer = (\<lparr>sender = 1, receiver = 0\<rparr>, {})" "gatewayp2p_node_urls layer = urls"
    using sets_upD(2) [OF assms(1)] by blast
  then show ?thesis
    by (simp add: Gateway_new_def create_a_b_duplex_pair_def Let_def gw_prepare_ok [OF assms(2)] start_in_background_def)
qed

section \<open>Properties\<close>

text \<open>
  After any events, the nodes a gateway sends requests to are exactly those whose last
  connection event was not a close.
\<close>

lemma gw_loop_ids:
  assumes "gw_loop listening is ids = Inr (ids', responses, commands :: ('p, 'c, 'a) gw_command list)"
  shows "q \<in> ids' \<longleftrightarrow> connected_after q is (q \<in> ids)"
  using assms
proof (induction "is" arbitrary: ids responses commands)
  case Nil
  then show ?case by simp
next
  case (Cons i "is")
  from Cons.prems obtain mid resp1 resp2 and cmd1 cmd2 :: "('p, 'c, 'a) gw_command list" where
    i: "gw_step listening i ids = Inr (mid, resp1, cmd1)"
    "gw_loop listening is mid = Inr (ids', resp2, cmd2)"
    by (auto simp: res_simps)
  show ?case
    unfolding connected_after_Cons [of q i] gw_step_ids [OF i(1), symmetric] by (rule Cons.IH [OF i(2)])
qed

text \<open>Every request comes with an order of the nodes that are connected when it is taken.\<close>

fun gw_orders_ok :: "('p, 'c) gw_input list \<Rightarrow> 'p set \<Rightarrow> bool" where
  "gw_orders_ok [] ids \<longleftrightarrow> True"
| "gw_orders_ok (i # is) ids \<longleftrightarrow>
     (case i of GW_Request order _ \<Rightarrow> distinct order \<and> set order = ids | _ \<Rightarrow> True) \<and>
     (case gw_step True i ids of
        Inr (ids', _, _ :: ('p, 'c, unit) gw_command list) \<Rightarrow> gw_orders_ok is ids' | Inl _ \<Rightarrow> True)"

text \<open>The responses and the requests for a role that come in.\<close>

fun response_in :: "('p, 'c) gw_input \<Rightarrow> GMResponse list" where
  "response_in (GW_Swarm (GW_RequestResponse (RR_Message _ (RR_Response response)))) = [response]"
| "response_in _ = []"

fun role_asked :: "('p, 'c) gw_input \<Rightarrow> 'c list" where
  "role_asked (GW_Swarm (GW_MetaExchange (RR_Message _ (RR_Request _ channel)))) = [channel]"
| "role_asked _ = []"

lemma gw_step_eq:
  "gw_step True i ids = Inr ({q. connected_after q [i] (q \<in> ids)}, response_in i,
     (case i of GW_Request order request \<Rightarrow> map (\<lambda>p. GW_SendRequest p request) order | _ \<Rightarrow> []) @
     map (\<lambda>channel. GW_SendMEResponse channel \<lparr>response_role = Gateway\<rparr>) (role_asked i))"
proof (cases i)
  case (GW_Swarm ev)
  show ?thesis
  proof (cases ev)
    case (GW_RequestResponse e)
    then show ?thesis by (cases e rule: rr_event.exhaust; cases "case e of RR_Message _ m \<Rightarrow> m | _ \<Rightarrow> undefined") (auto simp: GW_Swarm)
  next
    case (GW_MetaExchange e)
    then show ?thesis by (cases e rule: rr_event.exhaust; cases "case e of RR_Message _ m \<Rightarrow> m | _ \<Rightarrow> undefined") (auto simp: GW_Swarm)
  qed (auto simp: GW_Swarm)
qed simp

lemma count_requests:
  "distinct order \<Longrightarrow> count_list (map (\<lambda>p. GW_SendRequest p request) order) (GW_SendRequest q request') =
     (if request' = request \<and> q \<in> set order then 1 else 0)"
  by (induction order) auto

text \<open>How often a request is taken while a node is connected.\<close>

fun deliveries :: "'p \<Rightarrow> GMRequest \<Rightarrow> ('p, 'c) gw_input list \<Rightarrow> bool \<Rightarrow> nat" where
  "deliveries p request [] connected = 0"
| "deliveries p request (i # is) connected =
     (case i of GW_Request _ request' \<Rightarrow> if request' = request \<and> connected then 1 else 0 | _ \<Rightarrow> 0) +
     deliveries p request is (connected_after p [i] connected)"

lemma deliveries_card:
  "deliveries p request is b =
     card {k. k < length is \<and> (\<exists>order. is ! k = GW_Request order request) \<and> connected_after p (take k is) b}"
proof (induction "is" arbitrary: b)
  case (Cons i "is")
  let ?K = "\<lambda>is b. {k. k < length is \<and> (\<exists>order. is ! k = GW_Request order request) \<and> connected_after p (take k is) b}"
  let ?now = "if \<exists>order. i = GW_Request order request \<and> b then {0 :: nat} else {}"
  let ?later = "Suc ` ?K is (connected_after p [i] b)"
  have later: "Suc k \<in> ?later \<longleftrightarrow> k \<in> ?K is (connected_after p [i] b)" for k by (rule inj_image_mem_iff) simp
  have "?K (i # is) b = ?now \<union> ?later"
  proof (rule set_eqI)
    fix k
    show "k \<in> ?K (i # is) b \<longleftrightarrow> k \<in> ?now \<union> ?later"
    proof (cases k)
      case 0
      then show ?thesis by simp
    next
      case (Suc j)
      have "connected_after p (take k (i # is)) b = connected_after p (take j is) (connected_after p [i] b)"
        unfolding Suc take_Suc_Cons by (rule connected_after_Cons)
      then show ?thesis unfolding Un_iff Suc later by simp
    qed
  qed
  moreover have "card (?now \<union> ?later) = card ?now + card ?later"
    by (rule card_Un_disjoint) auto
  moreover have "card ?later = deliveries p request is (connected_after p [i] b)"
    by (simp add: card_image Cons.IH)
  ultimately show ?case by (auto split: gw_input.splits)
qed simp

lemma gw_loop_deliveries:
  assumes "gw_orders_ok is ids"
  shows "\<exists>ids' (commands :: ('p, 'c, 'a) gw_command list).
    gw_loop True is ids = Inr (ids', concat (map response_in is), commands) \<and>
    (\<forall>p request. count_list commands (GW_SendRequest p request) = deliveries p request is (p \<in> ids)) \<and>
    filter (\<lambda>c. \<exists>channel role. c = GW_SendMEResponse channel role) commands =
      map (\<lambda>channel. GW_SendMEResponse channel \<lparr>response_role = Gateway\<rparr>) (concat (map role_asked is))"
  using assms
proof (induction "is" arbitrary: ids)
  case (Cons i "is")
  let ?ids = "{q. connected_after q [i] (q \<in> ids)}"
  let ?now = "(case i of GW_Request order request \<Rightarrow> map (\<lambda>p. GW_SendRequest p request) order | _ \<Rightarrow> []) @
     map (\<lambda>channel. GW_SendMEResponse channel \<lparr>response_role = Gateway\<rparr>) (role_asked i) :: ('p, 'c, 'a) gw_command list"
  have "gw_orders_ok is ?ids" using Cons.prems unfolding gw_orders_ok.simps gw_step_eq by simp
  from Cons.IH [OF this] obtain ids' and commands :: "('p, 'c, 'a) gw_command list" where
    rest: "gw_loop True is ?ids = Inr (ids', concat (map response_in is), commands)"
    "\<forall>p request. count_list commands (GW_SendRequest p request) = deliveries p request is (p \<in> ?ids)"
    "filter (\<lambda>c. \<exists>channel role. c = GW_SendMEResponse channel role) commands =
      map (\<lambda>channel. GW_SendMEResponse channel \<lparr>response_role = Gateway\<rparr>) (concat (map role_asked is))" by blast
  have "gw_loop True (i # is) ids = Inr (ids', concat (map response_in (i # is)), ?now @ commands)"
    unfolding gw_loop.simps gw_step_eq by (simp add: rest(1))
  moreover have "count_list (?now @ commands) (GW_SendRequest p request) = deliveries p request (i # is) (p \<in> ids)" for p request
  proof (cases i)
    case (GW_Request order request')
    then have "distinct order" "set order = ids" using Cons.prems by simp_all
    then show ?thesis using rest(2) by (simp add: GW_Request count_requests)
  next
    case (GW_Swarm ev)
    have "count_list (map (\<lambda>channel. GW_SendMEResponse channel r) cs) (GW_SendRequest p request) = 0" for r and cs :: "'c list"
      by (induction cs) simp_all
    then show ?thesis using rest(2) by (simp add: GW_Swarm)
  qed
  moreover have "filter (\<lambda>c. \<exists>channel role. c = GW_SendMEResponse channel role) ?now =
      map (\<lambda>channel. GW_SendMEResponse channel \<lparr>response_role = Gateway\<rparr>) (role_asked i)"
    by (auto simp: filter_map comp_def filter_empty_conv split: gw_input.splits)
  then have "filter (\<lambda>c. \<exists>channel role. c = GW_SendMEResponse channel role) (?now @ commands) =
      map (\<lambda>channel. GW_SendMEResponse channel \<lparr>response_role = Gateway\<rparr>) (concat (map role_asked (i # is)))"
    using rest(3) by simp
  ultimately show ?case by blast
qed simp

text \<open>
  C10: from the moment it is set up, whatever it is asked and the swarm reports,
  a gateway's network layer returns as long as its responses are taken, and it has sent a request to a node
  exactly as often as the request came in while the node was connected, that is, while its last connection
  event was an established one; it hands on every response in order, and answers every node
  that asks for its role.
\<close>

theorem gateway_sends_to_the_connected:
  fixes "is" :: "('p, 'c) gw_input list"
  assumes "gw_P2P_new lib urls ep = Inr (Inr layer)" and "gw_start_event_loop layer = (ep', ids)"
    and "gw_orders_ok is ids"
  shows "\<exists>ids' (commands :: ('p, 'c, 'a) gw_command list).
    gw_loop True is ids = Inr (ids', concat (map response_in is), commands) \<and>
    (\<forall>p request. count_list commands (GW_SendRequest p request) =
       card {k. k < length is \<and> (\<exists>order. is ! k = GW_Request order request) \<and> connected_after p (take k is) False}) \<and>
    filter (\<lambda>c. \<exists>channel role. c = GW_SendMEResponse channel role) commands =
      map (\<lambda>channel. GW_SendMEResponse channel \<lparr>response_role = Gateway\<rparr>) (concat (map role_asked is))"
proof -
  have "ids = {}" using assms(2) by (simp add: gw_start_event_loop_def)
  with gw_loop_deliveries [OF assms(3)] show ?thesis by (simp add: deliveries_card)
qed

theorem gateway_sends_to_the_connected_witness:
  "\<exists>ids' (commands :: (nat, unit, unit) gw_command list).
     gw_loop True [GW_Swarm (GW_ConnectionEstablished 1), GW_Swarm (GW_ConnectionEstablished 2),
       GW_Request [2, 1] (GM_NewTransaction (Transaction 0 Created)), GW_Swarm (GW_ConnectionClosed 1 0),
       GW_Request [2] (GM_NewTransaction (Transaction 0 Created))] {} = Inr (ids', [], commands) \<and>
     count_list commands (GW_SendRequest 1 (GM_NewTransaction (Transaction 0 Created))) = 1 \<and>
     count_list commands (GW_SendRequest 2 (GM_NewTransaction (Transaction 0 Created))) = 2"
proof -
  let ?r = "GM_NewTransaction (Transaction 0 Created)"
  let ?is = "[GW_Swarm (GW_ConnectionEstablished 1), GW_Swarm (GW_ConnectionEstablished 2),
       GW_Request [2, 1] ?r, GW_Swarm (GW_ConnectionClosed 1 0), GW_Request [2] ?r] :: (nat, unit) gw_input list"
  obtain layer where layer: "gw_P2P_new (libp2p_of (5 :: nat)) [] \<lparr>sender = 1, receiver = 0\<rparr> = Inr (Inr layer)"
    "gw_start_event_loop layer = (\<lparr>sender = 1, receiver = 0\<rparr>, {})"
    using sets_upD(2) [OF sets_up_libp2p_of(1) [of 5]] by blast
  have "gw_orders_ok ?is {}" by auto
  from gateway_sends_to_the_connected [OF layer this] obtain ids' and commands :: "(nat, unit, unit) gw_command list" where
    run: "gw_loop True ?is {} = Inr (ids', concat (map response_in ?is), commands)"
    and count: "\<And>p. count_list commands (GW_SendRequest p ?r) =
       card {k. k < length ?is \<and> (\<exists>order. ?is ! k = GW_Request order ?r) \<and> connected_after p (take k ?is) False}"
    by blast
  have "count_list commands (GW_SendRequest 1 ?r) = 1" "count_list commands (GW_SendRequest 2 ?r) = 2"
    unfolding count deliveries_card [symmetric] by simp_all
  with run show ?thesis by simp
qed

definition some_inputs :: "(nat, unit) gw_input list" where
  "some_inputs = [GW_Swarm (GW_ConnectionEstablished 1), GW_Swarm (GW_ConnectionEstablished 2),
     GW_Request [2, 1] (GM_NewTransaction (Transaction 0 Created)), GW_Swarm (GW_ConnectionClosed 1 0)]"

lemma gw_loop_ids_witness:
  "\<exists>ids' responses (commands :: (nat, unit, unit) gw_command list).
     gw_loop True some_inputs {} = Inr (ids', responses, commands) \<and> 2 \<in> ids' \<and> 1 \<notin> ids'"
proof -
  obtain ids' responses and commands :: "(nat, unit, unit) gw_command list" where
    run: "gw_loop True some_inputs {} = Inr (ids', responses, commands)" by (simp add: some_inputs_def)
  from gw_loop_ids [OF run, of 1] gw_loop_ids [OF run, of 2] have "2 \<in> ids'" "1 \<notin> ids'"
    by (simp_all add: some_inputs_def)
  with run show ?thesis by blast
qed

text \<open>
  C37: with a network layer that can be set up, addresses that can be dialed and a range up to the last one, the gateway program
  dials every address and sends a hundred transactions, of the offsets 0 to 99 of the range in
  order; a node accepts the ids of all of them if and only if the range is below the last.
\<close>

theorem gateway_sends_a_hundred:
  assumes "sets_up lib" and "\<forall>url \<in> set (split_urls urls). \<exists>addr. parse url = Some addr \<and> can_dial addr"
    and "parse_u64 s = Some g" and "g \<le> MAX_BLOCK_INDEX"
  shows "gateway_main lib parse can_dial parse_u64 True (Some urls) (Some s) =
      (map (\<lambda>url. GW_Dial (the (parse url))) (split_urls urls) :: ('p, 'c, 'a) gw_command list,
       map (new_tx g) [0..<100], Inr (Inr ())) \<and>
    ((\<forall>i < 100. valid_id (u64 (unat g * 1073741824 + i))) \<longleftrightarrow> g < MAX_BLOCK_INDEX)"
proof -
  have g: "unat g \<le> 17179869183" using assms(4) by (simp add: word_le_nat_alt unat_consts)
  then have "\<forall>i \<in> set [0..<100]. unat g * 1073741824 + i < 18446744073709551616" by simp
  note ok = send_transactions_ok [OF this]
  obtain gw where "Gateway_new lib parse can_dial (split_urls urls) =
      (map (\<lambda>url. GW_Dial (the (parse url))) (split_urls urls) :: ('p, 'c, 'a) gw_command list, Inr (Inr gw))"
    "requests gw = []" "start_in_background gw = Inr ((\<lparr>sender = 1, receiver = 0\<rparr>, {}), gw\<lparr>p2p := None\<rparr>)"
    using Gateway_new_ok [OF assms(1,2)] by blast
  then have "gateway_main lib parse can_dial parse_u64 True (Some urls) (Some s) =
      (map (\<lambda>url. GW_Dial (the (parse url))) (split_urls urls) :: ('p, 'c, 'a) gw_command list,
       map (new_tx g) [0..<100], Inr (Inr ()))"
    by (simp add: gateway_main_def Let_def assms(3) ok del: upt.simps)
  moreover have "(\<forall>i < 100. valid_id (u64 (unat g * 1073741824 + i))) \<longleftrightarrow> g < MAX_BLOCK_INDEX"
  proof
    assume "\<forall>i < 100. valid_id (u64 (unat g * 1073741824 + i))"
    then have "valid_id (u64 (unat g * 1073741824 + 1))" by (rule allE [of _ 1]) simp
    then show "g < MAX_BLOCK_INDEX" using g by (simp add: valid_id_def word_less_nat_alt unat_consts)
  next
    assume "g < MAX_BLOCK_INDEX"
    then show "\<forall>i < 100. valid_id (u64 (unat g * 1073741824 + i))"
      by (simp add: valid_id_def word_less_nat_alt unat_consts)
  qed
  ultimately show ?thesis ..
qed

theorem gateway_sends_a_hundred_witness:
  "gateway_main (libp2p_of 1) Some (\<lambda>_. True) (\<lambda>_. Some 7) True (Some ''a,b'') (Some ''7'') =
      ([GW_Dial ''a'', GW_Dial ''b''] :: (nat, unit, string) gw_command list,
       map (new_tx 7) [0..<100], Inr (Inr ())) \<and>
    valid_id (u64 (unat (7 :: u64) * 1073741824 + 99))"
proof -
  have urls: "\<forall>url \<in> set (split_urls ''a,b''). \<exists>addr. Some url = Some addr \<and> True" by simp
  have range: "(\<lambda>_ :: string. Some (7 :: u64)) ''7'' = Some 7" by simp
  have less: "7 < MAX_BLOCK_INDEX" by (simp add: MAX_BLOCK_INDEX_eval)
  note all = gateway_sends_a_hundred [OF sets_up_libp2p_of(1) [of "1 :: nat"] urls range less_imp_le [OF less]]
  have "gateway_main (libp2p_of 1) Some (\<lambda>_. True) (\<lambda>_. Some 7) True (Some ''a,b'') (Some ''7'') =
      (map (\<lambda>url. GW_Dial (the (Some url))) (split_urls ''a,b'') :: (nat, unit, string) gw_command list,
       map (new_tx 7) [0..<100], Inr (Inr ()))"
    by (rule all [THEN conjunct1])
  moreover have "\<forall>i < 100. valid_id (u64 (unat (7 :: u64) * 1073741824 + i))"
    by (rule all [THEN conjunct2, THEN iffD2, OF less])
  moreover from this have "valid_id (u64 (unat (7 :: u64) * 1073741824 + 99))" by (rule allE [of _ 99]) simp
  ultimately show ?thesis by (simp del: upt.simps)
qed

text \<open>
  A gateway's network layer can be started once; a second start panics.
\<close>

lemma start_only_once:
  "(case start_in_background gw of
      Inl p \<Rightarrow> p2p gw = None \<and> p = CalledTwice
    | Inr (layer, gw') \<Rightarrow> (\<exists>l. p2p gw = Some l \<and> layer = gw_start_event_loop l) \<and> start_in_background gw' = Inl CalledTwice)"
  by (simp add: start_in_background_def split: option.split)

end
