(* ===== verification/Stack.thy ===== *)
theory Stack
  imports Node_Run Gateways
begin

text \<open>
  How a node is put together and started (\<open>maroon/src/stack.rs\<close>, \<open>maroon/src/main.rs\<close>): the
  network layer and the application get the two endpoints of one pair of channels and one peer id.
\<close>

text \<open>
  The peer id of the network layer is that of the application; the task with the layer's loop is
  spawned, so the result has what that loop starts with. The application's end of the pair of invoker
  and handler, and the invoker that is returned with it, are the one state of \<open>Channels\<close>.
\<close>

definition create_stack ::
    "('k, 'p) libp2p \<Rightarrow> (string \<Rightarrow> 'a option) \<Rightarrow> ('a \<Rightarrow> bool) \<Rightarrow> ('a \<Rightarrow> bool) \<Rightarrow> string list \<Rightarrow> string \<Rightarrow>
      Params \<Rightarrow> ('p, 'b, 'c, 'a) command list \<times>
        (panic + (start_error + (Endpoint \<times> 'p P2P) \<times> (Endpoint \<times> ('p, LogLineriazer) App) \<times>
          (Request, Response) invoker))"
where
  "create_stack lib parse can_listen can_dial node_urls self_url prms =
     (let (a2b_endpoint, b2a_endpoint) = create_a_b_duplex_pair 0 in
      case P2P_new lib node_urls self_url a2b_endpoint of
        Inl p \<Rightarrow> ([], Inl p)
      | Inr (Inl e) \<Rightarrow> ([], Inr (Inl e))
      | Inr (Inr layer) \<Rightarrow>
          (let my_id = nodep2p_peer_id layer;
               (cs, res) = prepare parse can_listen can_dial (nodep2p_self_url layer) (nodep2p_node_urls layer) in
           (cs, Inr (rbind res (\<lambda>_.
             let state_interface = create_invoker_handler_pair in
             Inr (start_event_loop layer, (b2a_endpoint, App_new my_id prms), state_interface))))))"

datatype main_error = NotSet string | StartError start_error

text \<open>
  \<open>main\<close> up to the event loop. The environment variables are arguments; a missing address is an
  error that \<open>main\<close> returns, a number that does not parse, or is zero for \<open>CONSENSUS_NODES\<close>, a panic.
  \<open>TICK\<close> is parsed, and its value not used.
\<close>

definition maroon_main ::
    "('k, 'p) libp2p \<Rightarrow> (string \<Rightarrow> 'a option) \<Rightarrow> ('a \<Rightarrow> bool) \<Rightarrow> ('a \<Rightarrow> bool) \<Rightarrow>
      (string \<Rightarrow> u64 option) \<Rightarrow> (string \<Rightarrow> nat option) \<Rightarrow>
      string option \<Rightarrow> string option \<Rightarrow> string option \<Rightarrow> string option \<Rightarrow>
      ('p, 'b, 'c, 'a) command list \<times>
        (panic + (main_error + (Endpoint \<times> 'p P2P) \<times> (Endpoint \<times> ('p, LogLineriazer) App)))"
where
  "maroon_main lib parse can_listen can_dial parse_u64 parse_usize
      env_node_urls env_self_url env_tick env_consensus_nodes =
     (case env_node_urls of
        None \<Rightarrow> ([], Inr (Inl (NotSet ''NODE_URLS'')))
      | Some urls \<Rightarrow>
          (case env_self_url of
             None \<Rightarrow> ([], Inr (Inl (NotSet ''SELF_URL'')))
           | Some self_url \<Rightarrow>
               (case parse_u64 (case env_tick of None \<Rightarrow> ''60'' | Some s \<Rightarrow> s) of
                  None \<Rightarrow> ([], Inl UnwrapFailed)
                | Some tick \<Rightarrow>
                    (case parse_usize (case env_consensus_nodes of None \<Rightarrow> ''2'' | Some s \<Rightarrow> s) of
                       None \<Rightarrow> ([], Inl UnwrapFailed)
                     | Some 0 \<Rightarrow> ([], Inl UnwrapFailed)
                     | Some (Suc n) \<Rightarrow>
                         (let prms = set_consensus_nodes Params_default (Suc n);
                              (cs, res) = create_stack lib parse can_listen can_dial
                                            (split_urls urls) self_url prms in
                          (cs, rbind res (\<lambda>res.
                            Inr (case res of Inl e \<Rightarrow> Inl (StartError e)
                                 | Inr (layer, node, _) \<Rightarrow> Inr (layer, node)))))))))"

lemma create_stack_eq:
  assumes "create_stack lib parse can_listen can_dial urls self_url prms = (cs, Inr (Inr ((ep, net), (ep', s), si)))"
  shows "sender ep = receiver ep' \<and> receiver ep = sender ep' \<and> sender ep \<noteq> sender ep' \<and>
     si = create_invoker_handler_pair \<and> (\<exists>my_id. my_id = peer_id_of lib (generated_keypair lib) \<and> net = start_state my_id \<and> s = App_new my_id prms)"
proof -
  obtain layer where "P2P_new lib urls self_url \<lparr>sender = 0, receiver = 1\<rparr> = Inr (Inr layer)"
    and res: "start_event_loop layer = (ep, net)" "ep' = \<lparr>sender = 1, receiver = 0\<rparr>" "s = App_new (nodep2p_peer_id layer) prms"
      "si = create_invoker_handler_pair"
    using assms
    by (auto simp: create_stack_def create_a_b_duplex_pair_def Let_def rbind_eq_Inr split: sum.splits prod.splits)
  then have "nodep2p_peer_id layer = peer_id_of lib (generated_keypair lib)"
    "nodep2p_endpoint layer = \<lparr>sender = 0, receiver = 1\<rparr>"
    unfolding P2P_new_ok by (metis NodeP2P.select_convs)+
  with res show ?thesis by (simp add: start_event_loop_def) (metis Endpoint.select_convs n_not_Suc_n)
qed

lemma create_stack_ok:
  assumes "sets_up lib" and "prepare parse can_listen can_dial self_url urls = (cs, Inr ())"
  shows "create_stack lib parse can_listen can_dial urls self_url prms =
    (cs, Inr (Inr ((\<lparr>sender = 0, receiver = 1\<rparr>, start_state (peer_id_of lib (generated_keypair lib))),
       (\<lparr>sender = 1, receiver = 0\<rparr>, App_new (peer_id_of lib (generated_keypair lib)) prms),
       create_invoker_handler_pair)))"
proof -
  obtain layer where layer: "P2P_new lib urls self_url \<lparr>sender = 0, receiver = 1\<rparr> = Inr (Inr layer)"
    "start_event_loop layer = (\<lparr>sender = 0, receiver = 1\<rparr>, start_state (peer_id_of lib (generated_keypair lib)))"
    using sets_upD(1) [OF assms(1)] by blast
  then have "nodep2p_peer_id layer = peer_id_of lib (generated_keypair lib)"
    "nodep2p_self_url layer = self_url" "nodep2p_node_urls layer = urls"
    unfolding P2P_new_ok by (metis NodeP2P.select_convs)+
  with layer assms(2) show ?thesis by (simp add: create_stack_def create_a_b_duplex_pair_def Let_def)
qed

lemma maroon_main_eq:
  assumes "maroon_main lib parse can_listen can_dial parse_u64 parse_usize e1 e2 e3 e4 =
    (cs, Inr (Inr ((ep, net), (ep', s))))"
  shows "\<exists>urls self_url n si. create_stack lib parse can_listen can_dial urls self_url
      (set_consensus_nodes Params_default (Suc n)) = (cs, Inr (Inr ((ep, net), (ep', s), si)))"
proof -
  have res: "rbind res (\<lambda>res. Inr (case res of Inl e \<Rightarrow> Inl (StartError e)
      | Inr (layer, node, _) \<Rightarrow> Inr (layer, node))) = Inr (Inr (layer, node)) \<longleftrightarrow>
    (\<exists>si. res = Inr (Inr (layer, node, si)))"
    for res :: "panic + start_error + (Endpoint \<times> 'a P2P) \<times> (Endpoint \<times> ('a, LogLineriazer) App) \<times> (Request, Response) invoker"
      and layer node
    by (cases res) (auto split: sum.splits)
  show ?thesis
    using assms unfolding maroon_main_def
    by (auto simp: Let_def res split: option.splits nat.splits prod.splits)
qed

lemma P2P_new_outcome:
  "case P2P_new lib urls self_url ep of
     Inl p \<Rightarrow> p = UnwrapFailed \<and> \<not> sets_up lib
   | Inr (Inl e) \<Rightarrow> \<not> sets_up lib
   | Inr (Inr layer) \<Rightarrow> sets_up lib \<and> nodep2p_self_url layer = self_url \<and> nodep2p_node_urls layer = urls"
  by (simp add: P2P_new_def Swarm_new_def sets_up_def Let_def)

lemma create_stack_outcome:
  fixes lib :: "('k, 'p) libp2p" and parse :: "string \<Rightarrow> 'a option"
  shows "case create_stack lib parse can_listen can_dial urls self_url prms of
     (cs :: ('p, 'b, 'c, 'a) command list, Inl p) \<Rightarrow> p = UnwrapFailed \<and> \<not> sets_up lib
   | (cs, Inr (Inl e)) \<Rightarrow> \<not> (sets_up lib \<and> can_prepare parse can_listen can_dial self_url urls)
   | (cs, Inr (Inr r)) \<Rightarrow> sets_up lib \<and> can_prepare parse can_listen can_dial self_url urls"
proof (cases "P2P_new lib urls self_url \<lparr>sender = 0, receiver = 1\<rparr>")
  case (Inl p)
  then show ?thesis
    using P2P_new_outcome [where lib = lib and urls = urls and self_url = self_url and ep = "\<lparr>sender = 0, receiver = 1\<rparr>"]
    by (simp add: create_stack_def create_a_b_duplex_pair_def)
next
  case (Inr r)
  show ?thesis
  proof (cases r)
    case (Inl e)
    then show ?thesis
      using P2P_new_outcome [where lib = lib and urls = urls and self_url = self_url and ep = "\<lparr>sender = 0, receiver = 1\<rparr>"] Inr
      by (simp add: create_stack_def create_a_b_duplex_pair_def)
  next
    case (Inr layer)
    obtain cs :: "('p, 'b, 'c, 'a) command list" and res where prep: "prepare parse can_listen can_dial self_url urls = (cs, res)" by fastforce
    have "sets_up lib" "nodep2p_self_url layer = self_url" "nodep2p_node_urls layer = urls"
      using P2P_new_outcome [where lib = lib and urls = urls and self_url = self_url and ep = "\<lparr>sender = 0, receiver = 1\<rparr>"] Inr \<open>P2P_new _ _ _ _ = _\<close>
      by simp_all
    moreover have "snd (prepare parse can_listen can_dial self_url urls :: ('p, 'b, 'c, 'a) command list \<times> _) = Inr () \<longleftrightarrow>
        can_prepare parse can_listen can_dial self_url urls" by (rule prepare_ok)
    ultimately show ?thesis
      using prep Inr \<open>P2P_new _ _ _ _ = _\<close>
      by (cases res) (simp_all add: create_stack_def create_a_b_duplex_pair_def Let_def)
  qed
qed

definition can_start ::
    "('k, 'p) libp2p \<Rightarrow> (string \<Rightarrow> 'a option) \<Rightarrow> ('a \<Rightarrow> bool) \<Rightarrow> ('a \<Rightarrow> bool) \<Rightarrow>
      (string \<Rightarrow> u64 option) \<Rightarrow> (string \<Rightarrow> nat option) \<Rightarrow>
      string option \<Rightarrow> string option \<Rightarrow> string option \<Rightarrow> string option \<Rightarrow> bool"
where
  "can_start lib parse can_listen can_dial parse_u64 parse_usize
      env_node_urls env_self_url env_tick env_consensus_nodes \<longleftrightarrow>
     (case (env_node_urls, env_self_url) of
        (Some urls, Some self_url) \<Rightarrow>
          parse_u64 (case env_tick of None \<Rightarrow> ''60'' | Some s \<Rightarrow> s) \<noteq> None \<and>
          (case parse_usize (case env_consensus_nodes of None \<Rightarrow> ''2'' | Some s \<Rightarrow> s) of
             Some n \<Rightarrow> 0 < n | None \<Rightarrow> False) \<and>
          sets_up lib \<and> can_prepare parse can_listen can_dial self_url (split_urls urls)
      | _ \<Rightarrow> False)"

lemma maroon_main_outcome:
  fixes lib :: "('k, 'p) libp2p" and parse :: "string \<Rightarrow> 'a option"
  shows "case maroon_main lib parse can_listen can_dial parse_u64 parse_usize e1 e2 e3 e4 of
     (cs :: ('p, 'b, 'c, 'a) command list, Inl p) \<Rightarrow> p = UnwrapFailed \<and> \<not> can_start lib parse can_listen can_dial parse_u64 parse_usize e1 e2 e3 e4
   | (cs, Inr (Inl e)) \<Rightarrow> \<not> can_start lib parse can_listen can_dial parse_u64 parse_usize e1 e2 e3 e4
   | (cs, Inr (Inr r)) \<Rightarrow> can_start lib parse can_listen can_dial parse_u64 parse_usize e1 e2 e3 e4"
proof (cases "\<exists>urls self_url n. e1 = Some urls \<and> e2 = Some self_url \<and>
    parse_u64 (case e3 of None \<Rightarrow> ''60'' | Some s \<Rightarrow> s) \<noteq> None \<and>
    parse_usize (case e4 of None \<Rightarrow> ''2'' | Some s \<Rightarrow> s) = Some (Suc n)")
  case True
  then obtain urls self_url tick n where env: "e1 = Some urls" "e2 = Some self_url"
    "parse_u64 (case e3 of None \<Rightarrow> ''60'' | Some s \<Rightarrow> s) = Some tick"
    "parse_usize (case e4 of None \<Rightarrow> ''2'' | Some s \<Rightarrow> s) = Some (Suc n)" by blast
  let ?prms = "set_consensus_nodes Params_default (Suc n)"
  obtain cs :: "('p, 'b, 'c, 'a) command list" and res where "create_stack lib parse can_listen can_dial (split_urls urls) self_url ?prms = (cs, res)"
    by fastforce
  with env create_stack_outcome [where 'b = 'b and 'c = 'c and lib = lib and parse = parse and can_listen = can_listen and can_dial = can_dial
        and urls = "split_urls urls" and self_url = self_url and prms = ?prms]
  show ?thesis
  proof (cases res)
    case (Inr r)
    with env \<open>create_stack _ _ _ _ _ _ _ = _\<close> create_stack_outcome [where 'b = 'b and 'c = 'c and lib = lib and parse = parse
        and can_listen = can_listen and can_dial = can_dial and urls = "split_urls urls" and self_url = self_url and prms = ?prms]
    show ?thesis by (cases r) (simp_all add: maroon_main_def can_start_def split_def)
  qed (simp add: maroon_main_def can_start_def)
next
  case False
  then show ?thesis
    by (auto simp: maroon_main_def can_start_def split: option.splits nat.splits)
qed

section \<open>Properties\<close>

text \<open>
  C36: \<open>main\<close> reaches its event loop exactly if both addresses are set, the numbers parse
  (that of the consensus nodes to a positive one), the network layer can be set up and the addresses can
  be listened on and dialed; otherwise it returns an error or unwraps one. When it does, the
  application and its network layer are on opposite ends of the same two channels and share one peer
  id, that id is the only live node the layer knows, and the application satisfies the invariant its
  handlers keep.
\<close>

theorem main_starts_well:
  fixes lib :: "('k, 'p) libp2p" and parse :: "string \<Rightarrow> 'a option"
  shows "case maroon_main lib parse can_listen can_dial parse_u64 parse_usize e1 e2 e3 e4 of
     (cs :: ('p, 'b, 'c, 'a) command list, Inl p) \<Rightarrow> p = UnwrapFailed \<and> \<not> can_start lib parse can_listen can_dial parse_u64 parse_usize e1 e2 e3 e4
   | (cs, Inr (Inl e)) \<Rightarrow> \<not> can_start lib parse can_listen can_dial parse_u64 parse_usize e1 e2 e3 e4
   | (cs, Inr (Inr ((ep, net), (ep', s)))) \<Rightarrow>
       can_start lib parse can_listen can_dial parse_u64 parse_usize e1 e2 e3 e4 \<and>
       sender ep = receiver ep' \<and> receiver ep = sender ep' \<and> sender ep \<noteq> sender ep' \<and>
       p2p_peer_id net = peer_id s \<and> alive_peer_ids net = {peer_id s} \<and> app_inv sequence s"
proof -
  have "sender ep = receiver ep' \<and> receiver ep = sender ep' \<and> sender ep \<noteq> sender ep' \<and>
      p2p_peer_id net = peer_id s \<and> alive_peer_ids net = {peer_id s} \<and> app_inv sequence s"
    if main: "maroon_main lib parse can_listen can_dial parse_u64 parse_usize e1 e2 e3 e4 =
      (cs, Inr (Inr ((ep, net), (ep', s))))" for cs :: "('p, 'b, 'c, 'a) command list" and ep net ep' s
  proof -
    obtain urls self_url n si where "create_stack lib parse can_listen can_dial urls self_url
        (set_consensus_nodes Params_default (Suc n)) = (cs, Inr (Inr ((ep, net), (ep', s), si)))"
      using maroon_main_eq [OF main] by blast
    from create_stack_eq [OF this] obtain my_id where
      eps: "sender ep = receiver ep'" "receiver ep = sender ep'" "sender ep \<noteq> sender ep'"
      and net: "net = start_state my_id" and s: "s = App_new my_id (set_consensus_nodes Params_default (Suc n))"
      by blast
    have "app_inv sequence s" unfolding s by (rule app_inv_new) (simp add: set_consensus_nodes_def)
    with eps show ?thesis by (simp add: net s start_state_def App_new_def)
  qed
  note wired = this
  note out = maroon_main_outcome [where 'b = 'b and 'c = 'c and lib = lib and parse = parse and can_listen = can_listen
      and can_dial = can_dial and ?parse_u64.0 = parse_u64 and parse_usize = parse_usize
      and ?e1.0 = e1 and ?e2.0 = e2 and ?e3.0 = e3 and ?e4.0 = e4]
  obtain cs :: "('p, 'b, 'c, 'a) command list" and res where
    main: "maroon_main lib parse can_listen can_dial parse_u64 parse_usize e1 e2 e3 e4 = (cs, res)" by fastforce
  consider p where "res = Inl p" | e where "res = Inr (Inl e)" | ep net ep' s where "res = Inr (Inr ((ep, net), (ep', s)))"
    by (metis obj_sumE surj_pair)
  then show ?thesis
  proof cases
    case 3
    with wired main out show ?thesis by simp
  qed (use main out in simp_all)
qed

theorem main_starts_well_witness:
  "\<exists>(cs :: (nat, unit, unit, string) command list) ep net ep' s.
     maroon_main (libp2p_of (5 :: nat)) Some (\<lambda>_. True) (\<lambda>_. True) (\<lambda>_. Some 60) (\<lambda>_. Some 2)
       (Some ''a,b'') (Some ''a'') None None = (cs, Inr (Inr ((ep, net), (ep', s)))) \<and>
     sender ep = receiver ep' \<and> p2p_peer_id net = peer_id s \<and> app_inv sequence s"
proof -
  obtain ep net ep' s and cs :: "(nat, unit, unit, string) command list" where
    run: "maroon_main (libp2p_of (5 :: nat)) Some (\<lambda>_. True) (\<lambda>_. True) (\<lambda>_. Some 60) (\<lambda>_. Some 2)
       (Some ''a,b'') (Some ''a'') None None = (cs, Inr (Inr ((ep, net), (ep', s))))"
    by (simp add: maroon_main_def create_stack_ok prepare_def Let_def numeral_2_eq_2)
  have "can_start (libp2p_of (5 :: nat)) Some (\<lambda>_. True) (\<lambda>_. True) (\<lambda>_. Some 60) (\<lambda>_. Some 2)
      (Some ''a,b'') (Some ''a'') None None \<and>
    sender ep = receiver ep' \<and> receiver ep = sender ep' \<and> sender ep \<noteq> sender ep' \<and>
    p2p_peer_id net = peer_id s \<and> alive_peer_ids net = {peer_id s} \<and> app_inv sequence s"
    using main_starts_well [where 'b = unit and 'c = unit and lib = "libp2p_of (5 :: nat)" and parse = Some and can_listen = "\<lambda>_. True"
      and can_dial = "\<lambda>_. True" and ?parse_u64.0 = "\<lambda>_. Some 60" and parse_usize = "\<lambda>_. Some 2"
      and ?e1.0 = "Some ''a,b''" and ?e2.0 = "Some ''a''" and ?e3.0 = None and ?e4.0 = None]
    unfolding run prod.case sum.case .
  with run show ?thesis by blast
qed

text \<open>
  C32: from the moment a node is put together, whatever the swarm reports and the
  application sends, the network layer returns, and the node itself is in every set of live nodes it
  tells the application, each of them finite, so that the application's search for its own position
  succeeds. All that is asked of the swarm is that it never names the node itself as the other end.
\<close>

theorem told_nodes_contain_self:
  fixes lib :: "('k, 'p :: linorder) libp2p" and es :: "('p, 'b, 'c) p2p_event list"
  assumes "create_stack lib parse can_listen can_dial urls self_url prms =
      (cs :: ('p, 'b, 'c, 'a) command list, Inr (Inr ((ep, net), (ep', s), si)))"
    and "\<forall>ev. From_Swarm ev \<in> set es \<longrightarrow> peer_id s \<notin> event_peers ev"
  shows "\<exists>net' sent (commands :: ('p, 'b, 'c, 'a) command list).
    p2p_loop to_vec from_slice True es net = Inr (net', sent, commands) \<and>
    (\<forall>ns. Inbox_Nodes ns \<in> set sent \<longrightarrow> finite ns \<and> peer_id s \<in> ns \<and>
      (\<forall>s' :: ('p, LogLineriazer) App. peer_id s' = peer_id s \<longrightarrow>
        handle_inbox_message alive ks (Inbox_Nodes ns) s' = Some (Inr (s', []))))"
proof -
  have net: "net = start_state (peer_id s)"
    using create_stack_eq [OF assms(1)] by (auto simp: App_new_def)
  have "p2p_inv net" unfolding net by (rule p2p_inv_start)
  moreover have "\<forall>ev. From_Swarm ev \<in> set es \<longrightarrow> p2p_peer_id net \<notin> event_peers ev" using assms(2) by (simp add: net)
  ultimately obtain net' sent and commands :: "('p, 'b, 'c, 'a) command list" where
    "p2p_loop to_vec from_slice True es net = Inr (net', sent, commands)"
    "\<forall>ns. Inbox_Nodes ns \<in> set sent \<longrightarrow> finite ns \<and> peer_id s \<in> ns"
    using loop_tells [of net es to_vec from_slice] by (auto simp: net)
  moreover have "handle_inbox_message alive ks (Inbox_Nodes ns) s' = Some (Inr (s', []))"
    if "finite ns" "peer_id s \<in> ns" "peer_id s' = peer_id s" for ns and s' :: "('p, LogLineriazer) App"
    using recalculate_order_returns [OF that(1,2)] that(3) by auto
  ultimately show ?thesis by blast
qed

theorem told_nodes_contain_self_witness:
  "\<exists>net' sent (commands :: (nat, nat GossipMessage, unit, string) command list).
     p2p_loop Some Some True
       [From_Swarm (MetaExchange (RR_Message 7 (RR_Request \<lparr>request_role = Node\<rparr> ()))), From_Swarm (ConnectionClosed 7 0)]
       (start_state (5 :: nat)) = Inr (net', sent, commands) \<and>
     Inbox_Nodes {5} \<in> set sent \<and> recalculate_order 5 {5 :: nat} \<noteq> Inl NoSelfPeer"
proof -
  let ?es = "[From_Swarm (MetaExchange (RR_Message 7 (RR_Request \<lparr>request_role = Node\<rparr> ()))),
    From_Swarm (ConnectionClosed 7 0)] :: (nat, nat GossipMessage, unit) p2p_event list"
  have prep: "prepare Some (\<lambda>_. True) (\<lambda>_. True) ''a'' [''a''] =
      ([ListenOn ''a''] :: (nat, nat GossipMessage, unit, string) command list, Inr ())"
    by (simp add: prepare_def)
  note stack = create_stack_ok [OF sets_up_libp2p_of(1) [of 5] prep, of Params_default]
  have "\<forall>ev. From_Swarm ev \<in> set ?es \<longrightarrow> peer_id (App_new (own_id (libp2p_of (5 :: nat))) Params_default) \<notin> event_peers ev"
    by (simp add: App_new_def)
  from told_nodes_contain_self [OF stack this, of Some Some True "[]"] obtain net' sent
    and commands :: "(nat, nat GossipMessage, unit, string) command list" where
    run: "p2p_loop Some Some True ?es (start_state 5) = Inr (net', sent, commands)"
    and tells: "\<forall>ns. Inbox_Nodes ns \<in> set sent \<longrightarrow> finite ns \<and> 5 \<in> ns"
    by (auto simp: App_new_def)
  have "Inbox_Nodes {5} \<in> set sent"
    using run by (auto simp: Let_def start_state_def endpoint_send_def)
  with run tells show ?thesis by (fastforce simp: recalculate_order_def)
qed

end
