(* ===== verification/Example_Run.thy ===== *)
theory Example_Run
  imports Node_Run
begin

text \<open>
  One run of a node, evaluated step by step: node 5, for which one node is a consensus, takes the
  transactions 1 and 0, advertises, and commits. The witnesses of the properties of runs use it.
\<close>

lemma small_ids:
  "range_from_unique_blob_id 0 = Inr 0" "range_from_unique_blob_id 1 = Inr 0"
  "range_offset_from_unique_blob_id 0 = Inr (0, 0)" "range_offset_from_unique_blob_id 1 = Inr (0, 1)"
  "unique_blob_id_from_range_and_offset 0 0 = Inr 0"
  "u64_add 0 1 = Inr 1" "u64_add 1 1 = Inr 2" "u64_add 0 2 = Inr 2"
  "new_from_range_and_offsets 0 0 1 = Inr (ClosedInterval 0 1)"
  "ids_count (ClosedInterval 0 1) = Inr 2"
  by (simp_all add: res_simps)

lemma small_iter: "interval_iter (ClosedInterval 0 1) = Inr [0, 1]"
  by (simp add: interval_iter_eq interval_ids_def ids_between_def)

definition ex_params :: Params where
  "ex_params = set_consensus_nodes Params_default 1"

definition tx0 :: Transaction where "tx0 = Transaction 0 Created"
definition tx1 :: Transaction where "tx1 = Transaction 1 Created"

definition ex0 :: "(nat, LogLineriazer) App" where
  "ex0 = App_new 5 ex_params"

definition ex1 :: "(nat, LogLineriazer) App" where
  "ex1 = ex0\<lparr>transactions := [1 \<mapsto> tx1]\<rparr>"

definition ex2 :: "(nat, LogLineriazer) App" where
  "ex2 = ex1\<lparr>self_offsets := [0 \<mapsto> 1], transactions := [1 \<mapsto> tx1, 0 \<mapsto> tx0], offsets := [0 \<mapsto> [5 \<mapsto> 1]]\<rparr>"

definition ex3 :: "(nat, LogLineriazer) App" where
  "ex3 = ex2\<lparr>consensus_offset := [0 \<mapsto> 1]\<rparr>"

definition ex_epoch :: Epoch where
  "ex_epoch = Epoch_new toy_hash [ClosedInterval 0 1] None"

definition ex4 :: "(nat, LogLineriazer) App" where
  "ex4 = ex3\<lparr>commited_offsets := [0 \<mapsto> 1], epochs := [ex_epoch], linearizer := \<lparr>sequence = [0, 1]\<rparr>\<rparr>"

lemmas ex_defs = ex4_def ex3_def ex2_def ex1_def ex0_def ex_params_def ex_epoch_def tx0_def tx1_def
lemmas ex_evals = App_new_def txs_to_range_tx_map_def update_self_offset_def small_ids update_range_def entries_def
  advance_key.simps [of _ 0] advance_key.simps [of _ 1] has_tx_def move_offset_pointer_def

lemma ex4_free: "\<not> block_full (transactions ex4) r"
proof -
  have "dom (transactions ex4) \<subseteq> {0, 1}" by (auto simp: ex_defs)
  moreover have "card {0, 1 :: u64} < 1073741824" by simp
  ultimately show ?thesis using not_full [of "{0, 1}"] by simp
qed

abbreviation ex_step where
  "ex_step \<equiv> app_step LogLineriazer_new_epoch toy_hash True"

lemma ex_step1: "ex_step (Payload [0] (Inbox_NewTransaction tx1)) ex0 = Some (Inr (ex1, [], []))"
  by (simp add: ex_defs ex_evals)

lemma ex_step2: "ex_step (Payload [0] (Inbox_NewTransaction tx0)) ex1 = Some (Inr (ex2, [], []))"
  by (simp add: ex_defs ex_evals)

lemma ex_step3: "ex_step (AdvertiseTick [0] (\<lambda>_. [5]) []) ex2 =
    Some (Inr (ex3, [Outbox_State \<lparr>node_offsets = [0 \<mapsto> 1]\<rparr>], []))"
  by (simp add: ex_defs App_new_def advertise_offsets_and_request_missing_def
      recalculate_consensus_offsets_def entries_def offsets_entries_def consensus_maximum_def
      set_consensus_nodes_def Params_default_def self_delays_def range_delay_def endpoint_send_def)

lemma ex_step4: "ex_step (EpochTick [0]) ex3 = Some (Inr (ex4, [], []))"
  by (simp add: ex_defs App_new_def commit_epoch_if_needed_def entries_def small_ids small_iter
      LogLineriazer_new_epoch_def LogLineriazer_new_def Epoch_new_def Let_def)

definition ex_events :: "nat event list" where
  "ex_events = [Payload [0] (Inbox_NewTransaction tx1), Payload [0] (Inbox_NewTransaction tx0),
     AdvertiseTick [0] (\<lambda>_. [5]) [], EpochTick [0], Shutdown]"

lemma ex_loop:
  "\<exists>rs'. loop_until_shutdown LogLineriazer_new_epoch toy_hash True ex_events
     \<lparr>app = ex0, sent = [], responses = []\<rparr> = Some (Inr rs') \<and> app rs' = ex4"
  by (simp add: ex_events_def ex_step1 ex_step2 ex_step3 ex_step4 del: app_step.simps)

lemma ex_ok1: "event_ok (Payload [0] (Inbox_NewTransaction tx1)) (s :: (nat, LogLineriazer) App)"
  by (auto simp: tx1_def valid_id_def key_order_def dom_buckets block_of_def)

lemma ex_ok2: "event_ok (Payload [0] (Inbox_NewTransaction tx0)) (s :: (nat, LogLineriazer) App)"
  by (auto simp: tx0_def valid_id_def key_order_def dom_buckets block_of_def)

lemma ex_ok3: "event_ok (AdvertiseTick [0] (\<lambda>_. [5]) []) ex2"
  by (simp add: ex_defs App_new_def orders_ok_def key_order_def entries_def offsets_entries_def
      self_delays_def range_delay_def)

lemma ex_ok4: "event_ok (EpochTick [0]) ex3"
  by (simp add: ex_defs App_new_def key_order_def)

lemma ex_events_ok: "events_ok LogLineriazer_new_epoch toy_hash ex_events ex0"
  by (simp add: ex_events_def ex_step1 ex_step2 ex_step3 ex_step4 ex_ok1 ex_ok2 ex_ok3 ex_ok4
      del: app_step.simps event_ok.simps) simp

lemma ex_params_pos: "0 < consensus_nodes ex_params"
  by (simp add: ex_params_def set_consensus_nodes_def)

lemma ex2_inv: "app_inv sequence ex2"
proof -
  have 0: "app_inv sequence ex0" unfolding ex0_def by (rule app_inv_new [OF ex_params_pos])
  from log_lin.app_step_ok [OF this ex_ok1, of toy_hash] ex_step1 have "app_inv sequence ex1" by auto
  from log_lin.app_step_ok [OF this ex_ok2, of toy_hash] ex_step2 show ?thesis by auto
qed

end
