(* ===== verification/Node_Properties.thy ===== *)
theory Node_Properties
  imports Example_Run
begin

text \<open>
  The properties of a node's application: its handlers one by one, and whole runs of its event loop.
\<close>

section \<open>Requests for missing transactions\<close>

lemma collect_interval_panics:
  assumes "collect_interval txs p e resp = Some res"
  shows "res = Inl pn \<longrightarrow> unat e = 18446744073709551615"
proof (rule collect_interval.raw_induct [where
      P = "\<lambda>txs p e _ res. res = Inl pn \<longrightarrow> unat e = 18446744073709551615", OF _ assms])
  fix f txs p e resp res
  assume IH: "\<And>txs p e resp res. f txs p e resp = Some res \<Longrightarrow> res = Inl pn \<longrightarrow> unat e = 18446744073709551615"
    and eq: "(if p \<le> e then case txs p of None \<Rightarrow> f txs p e resp
        | Some tx \<Rightarrow> (case u64_add p 1 of Inl pn \<Rightarrow> Some (Inl pn) | Inr n \<Rightarrow> f txs n e (resp @ [tx]))
       else Some (Inr resp)) = Some res"
  show "res = Inl pn \<longrightarrow> unat e = 18446744073709551615"
  proof (cases "p \<le> e \<and> (\<exists>q. u64_add p 1 = Inl q)")
    case True
    then have "unat e = 18446744073709551615"
      using unat_less_u64 [of e] by (auto simp: u64_add_Inl word_le_nat_alt)
    then show ?thesis by simp
  next
    case False
    with eq IH show ?thesis
      by (auto split: if_splits option.splits sum.splits)
  qed
qed

lemma collect_intervals_panics:
  "collect_intervals txs is resp = Some (Inl pn) \<Longrightarrow> \<exists>i \<in> set is. unat (right i) = 18446744073709551615"
  by (induction "is" arbitrary: resp)
    (auto split: option.splits sum.splits dest: collect_interval_panics)

lemma handle_request_missing_hangs:
  assumes "committable is" and "\<not> all_stored txs is"
  shows "handle_request_missing alive txs p is = None"
proof -
  obtain n where sum: "sum_ids_count 0 is = Inr n"
    using sum_ids_count_returns [of "is" 0] committable_few_ids [OF assms(1)] assms(1)
    by (auto simp: committable_def)
  have "collect_intervals txs is [] = None"
  proof (cases "collect_intervals txs is []")
    case (Some res)
    show ?thesis
    proof (cases res)
      case (Inl pn)
      with Some collect_intervals_panics [of txs "is" "[]" pn] assms(1) show ?thesis
        by (auto simp: committable_def valid_id_def)
    next
      case (Inr ts)
      with Some collect_intervals_returns assms(2) show ?thesis by blast
    qed
  qed
  then show ?thesis by (simp add: handle_request_missing_def sum)
qed

section \<open>The position among the live nodes\<close>

lemma length_takeWhile_sorted:
  fixes xs :: "'a :: linorder list"
  assumes "sorted xs" and "distinct xs" and "p \<in> set xs"
  shows "length (takeWhile (\<lambda>x. x \<noteq> p) xs) = card {x \<in> set xs. x < p}"
proof -
  have "takeWhile (\<lambda>x. x \<noteq> p) xs = filter (\<lambda>x. x < p) xs"
    using assms
  proof (induction xs)
    case (Cons x xs)
    show ?case
    proof (cases "x = p")
      case True
      then have "filter (\<lambda>x. x < p) xs = []" using Cons.prems(1) by (auto simp: filter_empty_conv not_less)
      then show ?thesis by (simp add: True)
    next
      case False
      then have "x < p" using Cons.prems by (auto simp: order_less_le)
      with Cons False show ?thesis by simp
    qed
  qed simp
  then show ?thesis
    using distinct_card [of "filter (\<lambda>x. x < p) xs"] assms(2) by simp
qed

section \<open>Properties\<close>

text \<open>
  C18: a request for missing transactions, in intervals that are not inverted and ask for no id
  twice, is answered if and only if all of them are stored, with exactly the transactions asked for
  in the order of the intervals. Otherwise the handler never returns: its loop continues at the
  missing id without moving on.
\<close>

theorem request_answered_iff_stored:
  assumes "committable is"
  shows "handle_request_missing True txs p is =
    (if \<forall>k \<in> set (ids_of is). txs k \<noteq> None
     then Some (Inr [Outbox_RequestedTxsForPeer p (map (\<lambda>k. the (txs k)) (ids_of is))])
     else None)"
  using handle_request_missing_all [OF assms, of txs p] handle_request_missing_hangs [OF assms, of txs True p]
  by (auto simp: all_stored_def has_tx_def comp_def)

theorem request_answered_iff_stored_witness:
  "handle_request_missing True [0 \<mapsto> Transaction 0 Created] (7 :: nat) [ClosedInterval 0 1] = None \<and>
   handle_request_missing True [0 \<mapsto> Transaction 0 Created] (7 :: nat) [ClosedInterval 0 0] =
     Some (Inr [Outbox_RequestedTxsForPeer 7 [Transaction 0 Created]])"
proof -
  have "committable [ClosedInterval 0 1]" "committable [ClosedInterval 0 0]"
    by (simp_all add: committable_def valid_id_def interval_ids_def ids_between_def)
  from this [THEN request_answered_iff_stored, of "[0 \<mapsto> Transaction 0 Created]" "7 :: nat"] show ?thesis
    by (simp add: interval_ids_def ids_between_def)
qed

text \<open>
  C29: a transaction whose id is above the first id of the last block makes the node panic,
  whether a gateway sends it or another node does, and whatever else the message holds.
\<close>

theorem invalid_transaction_panics:
  assumes "\<exists>t \<in> set ts. \<not> valid_id (tx_id t)"
  shows "handle_inbox_message alive ks (Inbox_MissingTx ts) s = Some (Inl OutOfRange) \<and>
    (\<forall>t. \<not> valid_id (tx_id t) \<longrightarrow>
       handle_inbox_message alive ks (Inbox_NewTransaction t) s = Some (Inl OutOfRange))"
proof -
  have "txs_to_range_tx_map us = Inl OutOfRange" if "\<exists>t \<in> set us. \<not> valid_id (tx_id t)" for us
    using that by (simp add: txs_to_range_tx_map_def group_by_range_invalid)
  then show ?thesis using assms by (simp add: update_self_offset_def)
qed

theorem invalid_transaction_panics_witness:
  "handle_inbox_message True [0] (Inbox_MissingTx [Transaction 0 Created, Transaction 18446744073709551615 Created])
     (App_new (3 :: nat) Params_default) = Some (Inl OutOfRange)"
  by (rule invalid_transaction_panics [THEN conjunct1]) (simp add: valid_id_def)

text \<open>
  A state heard from a node replaces what is known of that node in the ranges the state
  names, and nothing else of what is known.
\<close>

lemma state_moves_one_node:
  assumes "key_order (node_offsets st) ks"
  shows "\<exists>s'. handle_inbox_message alive ks (Inbox_State p st) s = Some (Inr (s', [])) \<and>
    s' = s\<lparr>offsets := offsets s'\<rparr> \<and>
    (\<forall>r q. offset_of (offsets s') r q =
       (case node_offsets st r of Some v \<Rightarrow> if q = p then Some v else offset_of (offsets s) r q
        | None \<Rightarrow> offset_of (offsets s) r q))"
proof -
  let ?kvs = "entries (node_offsets st) ks"
  have "offset_of (move_pointers p ?kvs (offsets s)) r q =
      (case node_offsets st r of Some v \<Rightarrow> if q = p then Some v else offset_of (offsets s) r q
       | None \<Rightarrow> offset_of (offsets s) r q)" for r q
    by (simp add: offset_of_move_pointers [OF key_orderD(4) [OF assms]] map_of_entries [OF assms]
        split: option.split)
  then show ?thesis by (auto simp: inbox_state_loop)
qed

lemma state_moves_one_node_witness:
  "\<exists>s'. handle_inbox_message True [1] (Inbox_State 4 \<lparr>node_offsets = [1 \<mapsto> 9]\<rparr>)
      (App_new (3 :: nat) Params_default) = Some (Inr (s', [])) \<and>
    offset_of (offsets s') 1 4 = Some 9 \<and> offset_of (offsets s') 1 3 = None"
proof -
  have "key_order (node_offsets \<lparr>node_offsets = [1 \<mapsto> 9]\<rparr>) [1]" by (simp add: key_order_def)
  from state_moves_one_node [OF this, of True "4 :: nat" "App_new 3 Params_default"] show ?thesis
    by (fastforce simp: App_new_def offset_of_def)
qed

text \<open>
  \<open>recalculate_order\<close> returns the number of live nodes with a smaller peer id if the node
  itself is among the live nodes, and panics if it is not.
\<close>

lemma recalculate_order_rank:
  assumes "finite ns"
  shows "recalculate_order p ns = (if p \<in> ns then Inr (card {q \<in> ns. q < p}) else Inl NoSelfPeer)"
  using length_takeWhile_sorted [of "sorted_list_of_set ns" p] assms
  by (simp add: recalculate_order_def Let_def)

lemma recalculate_order_rank_witness:
  "recalculate_order 5 {3, 5, 9, 4 :: nat} = Inr (card {q \<in> {3, 5, 9, 4 :: nat}. q < 5})"
  using recalculate_order_rank [of "{3, 5, 9, 4 :: nat}" 5] by simp

text \<open>
  In a state with the invariant, a new transaction with an accepted id is stored, and
  what the node tells about itself stays consistent: its own offsets promise only stored
  transactions, and the table of offsets shows the node's own offsets under its own peer id.
\<close>

lemma new_transaction_stored:
  assumes "app_inv log_of s" and "valid_id (tx_id t)" and "key_order (buckets [t]) ks"
  shows "\<exists>s'. handle_inbox_message alive ks (Inbox_NewTransaction t) s = Some (Inr (s', [])) \<and>
    dom (transactions s') = insert (tx_id t) (dom (transactions s)) \<and>
    offsets_sound (self_offsets s') (transactions s') \<and>
    (\<forall>r. offset_of (offsets s') r (peer_id s') = self_offsets s' r)"
proof -
  obtain ts ups where u: "set ts = {t}" "app_inv log_of (stored ts ups s)"
    "handle_inbox_message alive ks (Inbox_NewTransaction t) s = Some (Inr (stored ts ups s, []))"
    using handle_new_transaction [OF assms] by blast
  then show ?thesis by (simp add: app_inv_def store_inv_def table_inv_def dom_store_all)
qed

lemma new_transaction_stored_witness:
  "\<exists>s'. handle_inbox_message True [0] (Inbox_NewTransaction tx0) ex0 = Some (Inr (s', [])) \<and>
     dom (transactions s') = insert 0 (dom (transactions ex0)) \<and>
     offsets_sound (self_offsets s') (transactions s') \<and>
     (\<forall>r. offset_of (offsets s') r (peer_id s') = self_offsets s' r)"
proof -
  have "app_inv sequence ex0" unfolding ex0_def by (rule app_inv_new [OF ex_params_pos])
  moreover have "valid_id (tx_id tx0)" "key_order (buckets [tx0]) [0]"
    using ex_ok2 [of ex0] by simp_all
  ultimately show ?thesis using new_transaction_stored [of sequence ex0 tx0 "[0]" True] by (simp add: tx0_def)
qed

text \<open>
  C24: in a state with the invariant, committing returns. It appends exactly one epoch, an empty
  one where there is nothing to commit; the log only grows at its end; and the committed offset of
  a range becomes the consensus offset exactly where that is at least two past it, so that committed
  offsets never go back.
\<close>

theorem commit_appends:
  assumes "app_inv sequence s" and "key_order (consensus_offset s) co"
  shows "\<exists>s' e new. commit_epoch_if_needed LogLineriazer_new_epoch sha256 co s = Inr s' \<and>
    epochs s' = epochs s @ [e] \<and> sequence (linearizer s') = sequence (linearizer s) @ new \<and>
    (\<forall>r. commited_offsets s' r = (case consensus_offset s r of
       Some v \<Rightarrow> if next_start (commited_offsets s) r < unat v then Some v else commited_offsets s r
     | None \<Rightarrow> commited_offsets s r))"
proof -
  obtain lin where lin: "LogLineriazer_new_epoch (linearizer s) (next_epoch sha256 co s) = Inr lin"
    using log_lin.commit_returns [OF assms] by (auto simp: commit_epoch_eq [OF assms] res_simps)
  then have "commit_epoch_if_needed LogLineriazer_new_epoch sha256 co s = Inr (committed sha256 co lin s)"
    by (simp add: commit_epoch_eq [OF assms])
  with LogLineriazer_new_epoch_eq [OF lin] show ?thesis
    by (intro exI [of _ "committed sha256 co lin s"])
      (auto simp: committed_def map_add_def map_of_fresh [OF assms(2)] split: option.split)
qed

theorem commit_appends_witness:
  "\<exists>s' e new. commit_epoch_if_needed LogLineriazer_new_epoch toy_hash [0] ex3 = Inr s' \<and>
    epochs s' = epochs ex3 @ [e] \<and> sequence (linearizer s') = sequence (linearizer ex3) @ new \<and>
    commited_offsets s' 0 = Some 1 \<and> sequence (linearizer s') = [0, 1]"
proof -
  have inv: "app_inv sequence ex3"
    using log_lin.app_step_ok [OF ex2_inv ex_ok3, of toy_hash] ex_step3 by auto
  have ord: "key_order (consensus_offset ex3) [0]" using ex_ok4 by simp
  have co: "consensus_offset ex3 0 = Some 1" "commited_offsets ex3 0 = None" by (simp_all add: ex_defs App_new_def)
  obtain s' e new where s': "commit_epoch_if_needed LogLineriazer_new_epoch toy_hash [0] ex3 = Inr s'"
    "epochs s' = epochs ex3 @ [e]" "sequence (linearizer s') = sequence (linearizer ex3) @ new"
    "commited_offsets s' 0 = (case consensus_offset ex3 0 of
       Some v \<Rightarrow> if next_start (commited_offsets ex3) 0 < unat v then Some v else commited_offsets ex3 0
     | None \<Rightarrow> commited_offsets ex3 0)"
    using commit_appends [OF inv ord, of toy_hash] by blast
  moreover have "s' = ex4" using s'(1) ex_step4 by simp
  then have "sequence (linearizer s') = [0, 1]" by (simp add: ex_defs)
  moreover have "commited_offsets s' 0 = Some 1" using s'(4) by (simp add: co next_start_def)
  ultimately show ?thesis by blast
qed

text \<open>
  After advertising, the consensus offset of a range is the largest offset that as many
  nodes as the parameters ask for have reached, as far as the node knows; where no offset is reached
  by so many, the consensus offset stays what it was.
\<close>

lemma consensus_offset_recalculated:
  assumes "app_inv log_of s" and "orders_ok ro po (offsets s)"
  shows "consensus_offset (recalculate_consensus_offsets ro po s) r = Some v \<longleftrightarrow>
    (let reached = \<lambda>w. case offsets s r of None \<Rightarrow> False
           | Some nodes \<Rightarrow> consensus_nodes (params s) \<le> card (supporters nodes w) in
     if \<exists>w. reached w then reached v \<and> (\<forall>w. reached w \<longrightarrow> w \<le> v) else consensus_offset s r = Some v)"
proof -
  let ?n = "consensus_nodes (params s)"
  have ord: "key_order (offsets s) ro" using assms(2) by (simp add: orders_ok_def)
  have pos: "0 < ?n" using assms(1) by (simp add: app_inv_def)
  show ?thesis
  proof (cases "offsets s r")
    case None
    then show ?thesis by (simp add: recalculate_consensus_offset [OF ord])
  next
    case (Some nodes)
    then have key: "key_order nodes (po r)" using assms(2) by (simp add: orders_ok_def)
    show ?thesis
    proof (cases "consensus_maximum (entries nodes (po r)) ?n")
      case None
      then have "\<not> ?n \<le> card (supporters nodes w)" for w
      proof -
        have "card (supporters nodes w) \<le> length (entries nodes (po r))"
          by (metis card_supporters [OF key] length_filter_le length_map)
        then show ?thesis using None by (simp add: consensus_maximum_eq_None)
      qed
      with None Some show ?thesis by (simp add: recalculate_consensus_offset [OF ord])
    next
      case (Some v')
      note sup = consensus_maximum_supported [OF key pos Some]
      have "v' = v \<longleftrightarrow> ?n \<le> card (supporters nodes v) \<and> (\<forall>w. ?n \<le> card (supporters nodes w) \<longrightarrow> w \<le> v)"
        unfolding sup [symmetric] by (meson order.antisym order.refl order.trans)
      moreover have "\<exists>w. ?n \<le> card (supporters nodes w)" using sup by blast
      ultimately show ?thesis
        using Some \<open>offsets s r = Some nodes\<close> by (simp add: recalculate_consensus_offset [OF ord])
    qed
  qed
qed

lemma consensus_offset_recalculated_witness:
  "consensus_nodes (params ex2) \<le> card (supporters [5 :: nat \<mapsto> 1 :: KeyOffset] 1)"
proof -
  have ord: "orders_ok [0] (\<lambda>_. [5]) (offsets ex2)" using ex_ok3 by simp
  have "consensus_offset (recalculate_consensus_offsets [0] (\<lambda>_. [5]) ex2) 0 = Some 1"
    using ex_step3 by (simp add: advertise_offsets_and_request_missing_def Let_def res_simps ex3_def split: if_splits)
  moreover have "offsets ex2 0 = Some [5 \<mapsto> 1]" "consensus_offset ex2 0 = None"
    by (simp_all add: ex_defs App_new_def)
  ultimately show ?thesis
    using consensus_offset_recalculated [OF ex2_inv ord, of 0 1] by (simp add: Let_def split: if_splits)
qed

text \<open>
  C14: from a new node, for any sequence of events the environment may bring, the event loop
  neither panics nor hangs, and the log it leaves is exact: restricted to any range, it is the ids
  of the range from offset 0 to the committed offset, in ascending order and without a gap; no id
  is in the log twice.
\<close>

theorem event_loop_exact_log:
  assumes "0 < consensus_nodes prms" and "events_ok LogLineriazer_new_epoch sha256 es (App_new p prms)"
  shows "\<exists>rs'. loop_until_shutdown LogLineriazer_new_epoch sha256 True es
      \<lparr>app = App_new p prms, sent = [], responses = []\<rparr> = Some (Inr rs') \<and>
    (\<forall>r. filter (in_block r) (sequence (linearizer (app rs'))) =
       (case commited_offsets (app rs') r of None \<Rightarrow> []
        | Some v \<Rightarrow> map (\<lambda>j. u64 (unat r * 1073741824 + j)) [0..<Suc (unat v)])) \<and>
    distinct (sequence (linearizer (app rs')))"
proof -
  let ?rs = "\<lparr>app = App_new p prms, sent = [], responses = []\<rparr>"
  have "app_inv sequence (app ?rs)" using app_inv_new [OF assms(1)] by simp
  moreover have "events_ok LogLineriazer_new_epoch sha256 es (app ?rs)" using assms(2) by simp
  ultimately obtain rs' where
    rs': "loop_until_shutdown LogLineriazer_new_epoch sha256 True es ?rs = Some (Inr rs')"
      "app_inv sequence (app rs')"
    using log_lin.loop_ok [of ?rs sha256 es] by auto
  then have log: "log_matches (commited_offsets (app rs')) (sequence (linearizer (app rs')))"
    and val: "valid_offsets (commited_offsets (app rs'))"
    by (simp_all add: app_inv_def log_inv_def)
  have "filter (in_block r) (sequence (linearizer (app rs'))) =
       (case commited_offsets (app rs') r of None \<Rightarrow> []
        | Some v \<Rightarrow> map (\<lambda>j. u64 (unat r * 1073741824 + j)) [0..<Suc (unat v)])" for r
  proof (cases "commited_offsets (app rs') r")
    case (Some v)
    let ?b = "unat r * 1073741824"
    have "valid_pos r v" using val Some by (simp add: valid_offsets_def)
    then have "ids_between (u64 ?b) (u64 (?b + unat v)) = map u64 [?b + 0..<?b + Suc (unat v)]"
      by (simp add: ids_between_def valid_pos_def del: upt_Suc)
    also have "\<dots> = map (\<lambda>j. u64 (?b + j)) [0..<Suc (unat v)]" by (rule map_upt_shift [symmetric])
    finally show ?thesis using log Some by (simp add: log_matches_def)
  qed (use log in \<open>simp add: log_matches_def\<close>)
  with rs'(1) log_matches_distinct [OF log] show ?thesis by blast
qed

theorem event_loop_exact_log_witness:
  "\<exists>rs'. loop_until_shutdown LogLineriazer_new_epoch toy_hash True ex_events
      \<lparr>app = App_new 5 ex_params, sent = [], responses = []\<rparr> = Some (Inr rs') \<and>
    filter (in_block 0) (sequence (linearizer (app rs'))) = [0, 1]"
proof -
  from event_loop_exact_log [OF ex_params_pos ex_events_ok [unfolded ex0_def]] obtain rs' where
    rs': "loop_until_shutdown LogLineriazer_new_epoch toy_hash True ex_events
        \<lparr>app = App_new 5 ex_params, sent = [], responses = []\<rparr> = Some (Inr rs')"
      "filter (in_block 0) (sequence (linearizer (app rs'))) =
         (case commited_offsets (app rs') 0 of None \<Rightarrow> []
          | Some v \<Rightarrow> map (\<lambda>j. u64 (unat (0 :: u64) * 1073741824 + j)) [0..<Suc (unat v)])"
    by blast
  then have "app rs' = ex4" using ex_loop unfolding ex0_def by simp
  with rs' show ?thesis by (simp add: ex4_def)
qed

text \<open>
  C21: whatever events come, good or bad, a node that has not panicked has a history that checks:
  every epoch is hashed over its increments and the hash of the epoch before it, and the log is the
  replay of the epochs, each contributing the ids of its sorted increments.
\<close>

theorem history_checks:
  assumes "loop_until_shutdown LogLineriazer_new_epoch sha256 alive es
      \<lparr>app = App_new p prms, sent = [], responses = []\<rparr> = Some (Inr rs')"
  shows "chained sha256 None (epochs (app rs')) \<and>
    sequence (linearizer (app rs')) = concat (map (\<lambda>e. ids_of (sort (increments e))) (epochs (app rs')))"
proof -
  have "history_inv sha256 (app \<lparr>app = App_new p prms, sent = [], responses = []\<rparr>)"
    by (simp add: history_inv_def App_new_def LogLineriazer_new_def replay_def)
  from loop_history [OF assms this] show ?thesis by (simp add: history_inv_def replay_def)
qed

theorem history_checks_witness:
  "\<exists>rs'. loop_until_shutdown LogLineriazer_new_epoch toy_hash True ex_events
      \<lparr>app = App_new 5 ex_params, sent = [], responses = []\<rparr> = Some (Inr rs') \<and>
    chained toy_hash None (epochs (app rs')) \<and>
    sequence (linearizer (app rs')) = concat (map (\<lambda>e. ids_of (sort (increments e))) (epochs (app rs')))"
proof -
  obtain rs' where rs': "loop_until_shutdown LogLineriazer_new_epoch toy_hash True ex_events
      \<lparr>app = App_new 5 ex_params, sent = [], responses = []\<rparr> = Some (Inr rs')"
    using ex_loop unfolding ex0_def by blast
  from history_checks [OF this] rs' show ?thesis by blast
qed

end
