(* ===== verification/Agreement.thy ===== *)
theory Agreement
  imports Progress
begin

text \<open>
  What enough nodes store can get into the log of every node: the nodes advertise, their offsets
  reach the node, it computes the consensus offsets, and commits. All of these steps are enabled
  in every reachable cluster.
\<close>

section \<open>Hearing of an offset\<close>

lemma gossip_arrives:
  fixes c :: "('p :: linorder, 'b, 'c, 'a) cluster"
  assumes "net_inv q (node_net c q)" and "Outbox_State st \<in> to_net c q" and "p \<noteq> q"
    and data: "to_vec \<lparr>gossip_peer_id = q, gossip_payload = Gossip_State st\<rparr> = Some data"
    and "codec to_vec from_slice"
  shows "\<exists>c'. (inner_step to_vec from_slice sha256)\<^sup>*\<^sup>* c c' \<and> node_app c' = node_app c \<and>
    Inbox_State q st \<in> to_app c' p"
proof -
  have out: "handle_receiver_outbox to_vec (Outbox_State st) (p2p_peer_id (node_net c q)) =
      [Publish data :: ('p, 'b, 'c, 'a) command]"
    using assms(1) data by (simp add: net_inv_def)
  have decoded: "from_slice data = Some \<lparr>gossip_peer_id = q, gossip_payload = Gossip_State st\<rparr>"
    using assms(5) data by (simp add: codec_def)
  let ?c = "c\<lparr>node_net := (node_net c)(q := node_net c q), to_app := (to_app c)(q := to_app c q \<union> set []),
    wire := wire c \<union> Pair q ` set [Publish data]\<rparr>"
  have 1: "inner_step to_vec from_slice sha256 c ?c"
    by (rule inner_step.net [where e = "From_App (Outbox_State st)"]) (use assms(2) out in simp_all)
  have "net_event ?c p (From_Swarm (Gossipsub_Message data))" using assms(3) by auto
  moreover have "p2p_step to_vec from_slice True (From_Swarm (Gossipsub_Message data)) (node_net ?c p) =
      Inr (node_net ?c p, [Inbox_State q st], [] :: ('p, 'b, 'c, 'a) command list)"
    using decoded by (simp add: endpoint_send_def)
  ultimately have "inner_step to_vec from_slice sha256 ?c
      (?c\<lparr>node_net := (node_net ?c)(p := node_net ?c p), to_app := (to_app ?c)(p := to_app ?c p \<union> set [Inbox_State q st]),
         wire := wire ?c \<union> Pair p ` set []\<rparr>)"
    (is "inner_step _ _ _ _ ?d")
    by (rule inner_step.net) simp
  with 1 have "(inner_step to_vec from_slice sha256)\<^sup>*\<^sup>* c ?d"
    by (rule converse_rtranclp_into_rtranclp [OF _ r_into_rtranclp])
  then show ?thesis by (intro exI [of _ ?d] conjI) simp_all
qed

text \<open>What steps of advertising and hearing leave alone.\<close>

definition same_stores :: "('p, 'b, 'c, 'a) cluster \<Rightarrow> ('p, 'b, 'c, 'a) cluster \<Rightarrow> bool" where
  "same_stores c c' \<longleftrightarrow> (\<forall>q. transactions (node_app c' q) = transactions (node_app c q) \<and>
     self_offsets (node_app c' q) = self_offsets (node_app c q))"

lemma same_stores_trans: "same_stores c c' \<Longrightarrow> same_stores c' c'' \<Longrightarrow> same_stores c c''"
  by (simp add: same_stores_def)

text \<open>What advertising does to the node itself.\<close>

definition readvertised :: "('p, 'l) App \<Rightarrow> ('p, 'l) App \<Rightarrow> bool" where
  "readvertised s s' \<longleftrightarrow>
     s' = s \<or> (\<exists>ro po. orders_ok ro po (offsets s) \<and> s' = recalculate_consensus_offsets ro po s)"

lemma hear_one:
  fixes c :: "('p :: linorder, 'b, 'c, 'a) cluster"
  assumes inv: "cluster_inv to_vec n c" and codec: "codec to_vec from_slice"
    and total: "\<And>m. to_vec m \<noteq> None" and "q \<noteq> p"
  obtains c' where "(inner_step to_vec from_slice sha256)\<^sup>*\<^sup>* c c'" and "same_stores c c'"
    and "\<And>r v. self_offsets (node_app c q) r = Some v \<Longrightarrow> offset_of (offsets (node_app c' p)) r q = Some v"
    and "\<And>r q'. q' \<noteq> q \<Longrightarrow> offset_of (offsets (node_app c' p)) r q' = offset_of (offsets (node_app c p)) r q'"
    and "\<And>p'. p' \<noteq> p \<Longrightarrow> readvertised (node_app c p') (node_app c' p')"
    and "consensus_offset (node_app c' p) = consensus_offset (node_app c p)"
proof -
  let ?steps = "(inner_step to_vec from_slice sha256)\<^sup>*\<^sup>*"
  let ?st = "\<lparr>node_offsets = self_offsets (node_app c q)\<rparr>"
  have "app_inv sequence (node_app c q)" using inv by (simp add: cluster_inv_def node_inv_def)
  then obtain ro po dos m where ok: "event_ok (AdvertiseTick ro po dos) (node_app c q)"
    and ord: "orders_ok ro po (offsets (node_app c q))"
    and step: "app_step LogLineriazer_new_epoch sha256 True (AdvertiseTick ro po dos) (node_app c q) =
      Some (Inr (recalculate_consensus_offsets ro po (node_app c q),
        advertised (node_app c q) (entries m dos), []))"
    by (rule advertises) blast
  have "app_event c q (AdvertiseTick ro po dos)" using ok by simp
  from app_moves [OF inv codec this step] obtain c1 where
    c1: "inner_step to_vec from_slice sha256 c c1" "cluster_inv to_vec n c1"
      "node_app c1 = (node_app c)(q := recalculate_consensus_offsets ro po (node_app c q))"
      "Outbox_State ?st \<in> to_net c1 q"
    by (auto simp: advertised_def)
  obtain data where "to_vec \<lparr>gossip_peer_id = q, gossip_payload = Gossip_State ?st\<rparr> = Some data"
    using total by blast
  from gossip_arrives [OF cluster_invD(2) [OF c1(2)] c1(4) \<open>q \<noteq> p\<close> [symmetric] this codec] obtain c2 where
    c2: "?steps c1 c2" "node_app c2 = node_app c1" "Inbox_State q ?st \<in> to_app c2 p"
    by blast
  note inv2 = cluster_steps_inv [OF c2(1) codec c1(2)]
  obtain ks where "key_order (node_offsets ?st) ks"
    using key_order_exists [of "node_offsets ?st"] by auto
  then have e: "app_event c2 p (Payload ks (Inbox_State q ?st))" using c2(3) by simp
  have p: "node_app c2 p = node_app c p" using \<open>q \<noteq> p\<close> by (simp add: c2(2) c1(3))
  have app: "app_inv sequence (node_app c p)" using inv by (simp add: cluster_inv_def node_inv_def)
  have ok: "payload_ok ks (Inbox_State q ?st) (node_app c p)"
    using event_ok_cluster [OF inv2 e] by (simp add: p)
  obtain s' where s': "handle_inbox_message True ks (Inbox_State q ?st) (node_app c p) = Some (Inr (s', []))"
    "s' = (node_app c p)\<lparr>offsets := offsets s'\<rparr>"
    "\<forall>r q'. offset_of (offsets s') r q' =
       (if q' = q then case node_offsets ?st r of Some v \<Rightarrow> Some v | None \<Rightarrow> offset_of (offsets (node_app c p)) r q'
        else offset_of (offsets (node_app c p)) r q')"
    using handle_state [OF app ok, of True] by blast
  then have "app_step LogLineriazer_new_epoch sha256 True (Payload ks (Inbox_State q ?st)) (node_app c2 p) =
      Some (Inr (s', [], []))" by (simp add: p)
  from app_moves [OF inv2 codec e this] obtain c3 where
    c3: "inner_step to_vec from_slice sha256 c2 c3" "node_app c3 = (node_app c2)(p := s')" by blast
  have same: "transactions s' = transactions (node_app c p)" "self_offsets s' = self_offsets (node_app c p)"
    "consensus_offset s' = consensus_offset (node_app c p)"
    by (subst s'(2), simp)+
  show thesis
  proof (rule that [of c3])
    show "?steps c c3"
      using c1(1) c2(1) c3(1) by (meson converse_rtranclp_into_rtranclp rtranclp.rtrancl_into_rtrancl)
    show "same_stores c c3"
      using same by (simp add: same_stores_def c3(2) c2(2) c1(3) recalculate_consensus_offsets_def)
    show "readvertised (node_app c p') (node_app c3 p')" if "p' \<noteq> p" for p'
      using that ord by (auto simp: readvertised_def c3(2) c2(2) c1(3))
  qed (simp_all add: c3(2) s'(3) same)
qed

lemma hear_all:
  fixes c :: "('p :: linorder, 'b, 'c, 'a) cluster"
  assumes inv: "cluster_inv to_vec n c" and codec: "codec to_vec from_slice"
    and total: "\<And>m. to_vec m \<noteq> None" and "finite Q"
  shows "\<exists>c'. (inner_step to_vec from_slice sha256)\<^sup>*\<^sup>* c c' \<and> same_stores c c' \<and>
    (\<forall>q \<in> Q. \<forall>r v. self_offsets (node_app c q) r = Some v \<longrightarrow> offset_of (offsets (node_app c' p)) r q = Some v)"
  using assms(4)
proof (induction Q rule: finite_induct)
  case empty
  show ?case by (intro exI [of _ c]) (simp add: same_stores_def)
next
  case (insert q Q)
  let ?steps = "(inner_step to_vec from_slice sha256)\<^sup>*\<^sup>*"
  obtain c1 where c1: "?steps c c1" "same_stores c c1"
    "\<forall>q \<in> Q. \<forall>r v. self_offsets (node_app c q) r = Some v \<longrightarrow> offset_of (offsets (node_app c1 p)) r q = Some v"
    using insert.IH by blast
  note inv1 = cluster_steps_inv [OF c1(1) codec inv]
  show ?case
  proof (cases "q = p")
    case True
    have "peer_id (node_app c1 p) = p" "table_inv (node_app c1 p)"
      using cluster_invD(1) [OF inv1, of p] by (simp_all add: node_inv_def app_inv_def)
    then have "offset_of (offsets (node_app c1 p)) r p = self_offsets (node_app c1 p) r" for r
      by (simp add: table_inv_def)
    then show ?thesis
      using c1 True by (intro exI [of _ c1]) (simp add: same_stores_def)
  next
    case False
    obtain c2 where c2: "?steps c1 c2" "same_stores c1 c2"
      "\<And>r v. self_offsets (node_app c1 q) r = Some v \<Longrightarrow> offset_of (offsets (node_app c2 p)) r q = Some v"
      "\<And>r q'. q' \<noteq> q \<Longrightarrow> offset_of (offsets (node_app c2 p)) r q' = offset_of (offsets (node_app c1 p)) r q'"
      by (rule hear_one [OF inv1 codec total False, of sha256]) blast
    have "?steps c c2" using c1(1) c2(1) by (rule rtranclp_trans)
    moreover have "same_stores c c2" using c1(2) c2(2) by (rule same_stores_trans)
    moreover have "self_offsets (node_app c1 q) = self_offsets (node_app c q)"
      using c1(2) by (simp add: same_stores_def)
    moreover have "offset_of (offsets (node_app c2 p)) r q' = Some v"
      if "q' \<in> Q" "self_offsets (node_app c q') r = Some v" for q' r v
      using that c1(3) c2(4) insert.hyps(2) by metis
    ultimately show ?thesis
      using c2(3) by (intro exI [of _ c2]) simp
  qed
qed

section \<open>Committing what was heard\<close>

text \<open>Advertising raises the consensus offset to what enough nodes are known to have.\<close>

lemma recalculated_reaches:
  assumes inv: "app_inv log_of s" and ord: "orders_ok ro po (offsets s)"
    and "finite Q" and Q: "consensus_nodes (params s) \<le> card Q"
    and v: "\<forall>q \<in> Q. \<exists>w. offset_of (offsets s) r q = Some w \<and> v \<le> w"
  shows "\<exists>w. consensus_offset (recalculate_consensus_offsets ro po s) r = Some w \<and> v \<le> w"
proof -
  have pos: "0 < consensus_nodes (params s)" using inv by (simp add: app_inv_def)
  then obtain q where "q \<in> Q" using Q by fastforce
  then obtain nodes where nodes: "offsets s r = Some nodes"
    using v by (auto simp: offset_of_def bind_eq_Some_conv)
  have key: "key_order (offsets s) ro" "key_order nodes (po r)"
    using ord nodes by (simp_all add: orders_ok_def)
  have sup: "Q \<subseteq> supporters nodes v"
    using v nodes by (auto simp: supporters_def offset_of_def)
  have fin: "finite (supporters nodes v)"
    by (rule finite_subset [OF _ key_orderD(5) [OF key(2)]]) (auto simp: supporters_def)
  have many: "consensus_nodes (params s) \<le> card (supporters nodes v)"
    using Q card_mono [OF fin sup] by simp
  have "card (supporters nodes v) \<le> card (dom nodes)"
    by (rule card_mono [OF key_orderD(5) [OF key(2)]]) (auto simp: supporters_def)
  then obtain w where w: "consensus_maximum (entries nodes (po r)) (consensus_nodes (params s)) = Some w"
    using many length_entries [OF key(2)] consensus_maximum_eq_None
    by (metis linorder_not_less not_None_eq order_trans)
  then show ?thesis
    using consensus_maximum_supported [OF key(2) pos w, of v] many
    by (simp add: recalculate_consensus_offset [OF key(1)] nodes w)
qed

text \<open>Committing puts all ids up to the consensus offset in the log, but possibly its own id.\<close>

lemma committed_logs:
  assumes inv: "app_inv log_of s" and ord: "key_order (consensus_offset s) co"
    and inv': "app_inv log_of (committed sha256 co lin s)"
    and w: "consensus_offset s r = Some w" and j: "j < unat w"
  shows "u64 (unat r * 1073741824 + j) \<in> set (log_of lin)"
proof -
  let ?m = "commited_offsets (committed sha256 co lin s)"
  have m: "?m r = (if next_start (commited_offsets s) r < unat w then Some w else commited_offsets s r)"
    by (simp add: committed_def map_add_def map_of_fresh [OF ord] w)
  obtain u where u: "?m r = Some u" "j \<le> unat u"
  proof (cases "next_start (commited_offsets s) r < unat w")
    case True
    then show thesis using that [of w] j m by simp
  next
    case False
    then obtain u where "commited_offsets s r = Some u" "unat w \<le> Suc (unat u)"
      using j by (cases "commited_offsets s r") (simp_all add: next_start_def)
    then show thesis using that [of u] j m False by simp
  qed
  have log: "log_matches ?m (log_of lin)" "valid_offsets ?m"
    using inv' by (simp_all add: app_inv_def log_inv_def committed_def)
  then have pos: "valid_pos r u" using u(1) by (simp add: valid_offsets_def)
  then have k: "unat (u64 (unat r * 1073741824 + j)) = unat r * 1073741824 + j" "j < 1073741824"
    using u(2) by (simp_all add: valid_pos_def)
  then have "in_block r (u64 (unat r * 1073741824 + j))"
      "unat (u64 (unat r * 1073741824 + j)) mod 1073741824 \<le> unat u"
    using u(2) by (simp_all add: in_block_def div_mod_blob)
  with u(1) log_matches_mem [OF log] show ?thesis by blast
qed

lemma agree:
  fixes c :: "('p :: linorder, 'b, 'c, 'a) cluster"
  assumes inv: "cluster_inv to_vec n c" and codec: "codec to_vec from_slice"
    and Q: "finite Q" "n \<le> card Q"
    and v: "\<forall>q \<in> Q. \<exists>w. offset_of (offsets (node_app c p)) r q = Some w \<and> v \<le> w"
  obtains c' where "(inner_step to_vec from_slice sha256)\<^sup>*\<^sup>* c c'"
    and "\<And>j. j < unat v \<Longrightarrow>
      u64 (unat r * 1073741824 + j) \<in> set (sequence (linearizer (node_app c' p)))"
proof -
  let ?s = "node_app c p"
  have app: "app_inv sequence ?s" and n: "consensus_nodes (params ?s) = n"
    using inv by (simp_all add: cluster_inv_def node_inv_def)
  obtain ro po dos m where ok: "event_ok (AdvertiseTick ro po dos) ?s" and ord: "orders_ok ro po (offsets ?s)"
    and step: "app_step LogLineriazer_new_epoch sha256 True (AdvertiseTick ro po dos) ?s =
      Some (Inr (recalculate_consensus_offsets ro po ?s, advertised ?s (entries m dos), []))"
    using app by (rule advertises) blast
  let ?s1 = "recalculate_consensus_offsets ro po ?s"
  have "app_event c p (AdvertiseTick ro po dos)" using ok by simp
  from app_moves [OF inv codec this step] obtain c1 where
    c1: "inner_step to_vec from_slice sha256 c c1" "cluster_inv to_vec n c1" "node_app c1 p = ?s1"
    by auto
  obtain w where w: "consensus_offset ?s1 r = Some w" "v \<le> w"
    using recalculated_reaches [OF app ord Q(1) _ v] Q(2) n by blast
  have app1: "app_inv sequence ?s1" by (rule recalculate_inv [OF app ord])
  then obtain co where co: "key_order (consensus_offset ?s1) co"
    using key_order_exists [of "consensus_offset ?s1"] by (auto simp: app_inv_def log_inv_def)
  obtain lin where lin: "commit_epoch_if_needed LogLineriazer_new_epoch sha256 co ?s1 =
      Inr (committed sha256 co lin ?s1)" "app_inv sequence (committed sha256 co lin ?s1)"
    using log_lin.commit_returns [OF app1 co] by blast
  have "app_event c1 p (EpochTick co)" using co c1(3) by simp
  moreover have "app_step LogLineriazer_new_epoch sha256 True (EpochTick co) (node_app c1 p) =
      Some (Inr (committed sha256 co lin ?s1, [], []))" by (simp add: c1(3) lin(1))
  ultimately obtain c2 where
    c2: "inner_step to_vec from_slice sha256 c1 c2" "node_app c2 p = committed sha256 co lin ?s1"
    using app_moves [OF c1(2) codec] by (metis fun_upd_same)
  show thesis
  proof (rule that [of c2])
    show "(inner_step to_vec from_slice sha256)\<^sup>*\<^sup>* c c2"
      using c1(1) c2(1) by (rule converse_rtranclp_into_rtranclp [OF _ r_into_rtranclp])
    show "u64 (unat r * 1073741824 + j) \<in> set (sequence (linearizer (node_app c2 p)))" if "j < unat v" for j
      using committed_logs [OF app1 co lin(2) w(1), of j] w(2) that
      by (simp add: c2(2)) (simp add: committed_def unat_simps)
  qed
qed

text \<open>All together.\<close>

lemma stored_gets_logged:
  fixes c :: "('p :: linorder, 'b, 'c, 'a) cluster"
  assumes inv: "cluster_inv to_vec n c" and codec: "codec to_vec from_slice"
    and total: "\<And>m. to_vec m \<noteq> None" and Q: "finite Q" "n \<le> card Q" and pos: "valid_pos r v"
    and stored: "\<forall>q \<in> Q. holds_upto (stores c q) r v"
    and free: "\<forall>q \<in> Q. \<forall>r. \<not> block_full (stores c q) r"
  obtains c' where "(inner_step to_vec from_slice sha256)\<^sup>*\<^sup>* c c'"
    and "\<And>j. j < unat v \<Longrightarrow>
      u64 (unat r * 1073741824 + j) \<in> set (sequence (linearizer (node_app c' p)))"
proof -
  let ?steps = "(inner_step to_vec from_slice sha256)\<^sup>*\<^sup>*"
  obtain c1 where c1: "?steps c c1"
    "\<forall>q \<in> Q. \<forall>r v. self_offsets (node_app c q) r = Some v \<longrightarrow> offset_of (offsets (node_app c1 p)) r q = Some v"
    using hear_all [OF inv codec total Q(1)] by blast
  have "\<exists>w. offset_of (offsets (node_app c1 p)) r q = Some w \<and> v \<le> w" if q: "q \<in> Q" for q
  proof -
    have "exact_inv (node_app c q)" "tx_map_wf (transactions (node_app c q))"
      using cluster_invD(1) [OF inv, of q] by (simp_all add: node_inv_def app_inv_def store_inv_def)
    then obtain w where "self_offsets (node_app c q) r = Some w" "v \<le> w"
      using exact_reaches [of _ "transactions (node_app c q)" r v] free stored q pos
      unfolding exact_inv_def stores_def by blast
    with c1(2) q show ?thesis by blast
  qed
  then have v: "\<forall>q \<in> Q. \<exists>w. offset_of (offsets (node_app c1 p)) r q = Some w \<and> v \<le> w" by blast
  obtain c2 where c2: "?steps c1 c2" "\<And>j. j < unat v \<Longrightarrow>
      u64 (unat r * 1073741824 + j) \<in> set (sequence (linearizer (node_app c2 p)))"
    using agree [OF cluster_steps_inv [OF c1(1) codec inv] codec Q v, of sha256] by blast
  show thesis by (rule that [OF rtranclp_trans [OF c1(1) c2(1)]]) (rule c2(2))
qed

end
