(* ===== verification/Example_Cluster.thy ===== *)
theory Example_Cluster
  imports Agreement Example_Run
begin

text \<open>
  The run of \<open>Example_Run\<close> as a run of a cluster: two transactions reach node 5 from a gateway, and
  its application stores them, advertises and commits. Encoding is the identity.
\<close>

type_synonym ex_cluster = "(nat, nat GossipMessage, unit, unit) cluster"

abbreviation ex_reachable :: "ex_cluster \<Rightarrow> bool" where
  "ex_reachable \<equiv> reachable Some Some toy_hash ex_params"

lemma ex_codec: "\<forall>(m :: nat GossipMessage) b. Some m = Some b \<longrightarrow> Some b = Some m"
  by simp

lemma ex_cluster_net:
  assumes "ex_reachable c" and "valid_id (tx_id t)"
  shows "\<exists>c'. ex_reachable c' \<and> node_app c' = node_app c \<and>
    to_app c' 5 = insert (Inbox_NewTransaction t) (to_app c 5)"
proof -
  let ?c' = "c\<lparr>node_net := (node_net c)(5 := node_net c 5),
         to_app := (to_app c)(5 := to_app c 5 \<union> set [Inbox_NewTransaction t]),
         wire := wire c \<union> Pair 5 ` set [SendGMResponse () Acknowledged]\<rparr>"
  let ?e = "From_Swarm (RequestResponse (RR_Message 6 (RR_Request (GM_NewTransaction t) ())))"
  have "net_event c 5 ?e" using assms(2) by simp
  moreover have "p2p_step Some Some True ?e (node_net c 5) =
      Inr (node_net c 5, [Inbox_NewTransaction t], [SendGMResponse () Acknowledged :: (nat, nat GossipMessage, unit, unit) command])"
    by (simp add: endpoint_send_def)
  ultimately have "cluster_step Some Some toy_hash c ?c'"
    by (rule cluster_step.net)
  with assms(1) have "ex_reachable ?c'"
    by (rule rtranclp.rtrancl_into_rtrancl)
  then show ?thesis by (intro exI [of _ ?c'] conjI) simp_all
qed

lemma ex_cluster_app:
  assumes "ex_reachable c" and "app_event c 5 e" and "ex_step e (node_app c 5) = Some (Inr (s', out, resp))"
  shows "\<exists>c'. cluster_step Some Some toy_hash c c' \<and> ex_reachable c' \<and> node_app c' 5 = s' \<and>
    node_app c' 6 = node_app c 6 \<and> to_app c' = to_app c"
proof -
  let ?c' = "c\<lparr>node_app := (node_app c)(5 := s'), to_net := (to_net c)(5 := to_net c 5 \<union> set out)\<rparr>"
  have step: "cluster_step Some Some toy_hash c ?c'"
    using assms(2,3) by (rule cluster_step.app)
  with assms(1) have "ex_reachable ?c'"
    by (rule rtranclp.rtrancl_into_rtrancl)
  with step show ?thesis by (intro exI [of _ ?c'] conjI) simp_all
qed

lemma ex_cluster_msgs:
  "\<exists>c. ex_reachable c \<and> node_app c 5 = ex0 \<and> Inbox_NewTransaction tx0 \<in> to_app c 5 \<and>
     Inbox_NewTransaction tx1 \<in> to_app c 5 \<and> node_app c 6 = App_new 6 ex_params"
proof -
  have v: "valid_id (tx_id tx1)" "valid_id (tx_id tx0)" by (simp_all add: tx0_def tx1_def valid_id_def)
  have "ex_reachable (cluster_start ex_params)" by simp
  from ex_cluster_net [OF this v(1)] obtain c1 where c1: "ex_reachable c1"
    "node_app c1 = node_app (cluster_start ex_params :: ex_cluster)" "Inbox_NewTransaction tx1 \<in> to_app c1 5" by auto
  from ex_cluster_net [OF c1(1) v(2)] c1(2,3) show ?thesis
    by (fastforce simp: cluster_start_def ex0_def)
qed

lemma ex_cluster_commits:
  "\<exists>c c'. ex_reachable c \<and> cluster_step Some Some toy_hash c c' \<and> ex_reachable c' \<and>
     node_app c 5 = ex3 \<and> node_app c' 5 = ex4 \<and> Inbox_NewTransaction tx0 \<in> to_app c' 5 \<and>
     node_app c' 6 = App_new 6 ex_params"
proof -
  obtain c2 where c2: "ex_reachable c2" "node_app c2 5 = ex0"
    "Inbox_NewTransaction tx0 \<in> to_app c2 5" "Inbox_NewTransaction tx1 \<in> to_app c2 5"
    "node_app c2 6 = App_new 6 ex_params"
    using ex_cluster_msgs by blast
  have "app_event c2 5 (Payload [0] (Inbox_NewTransaction tx1))" using c2(4) ex_ok1 [of ex0] by simp
  from ex_cluster_app [OF c2(1) this, unfolded c2(2), OF ex_step1] obtain c3 where
    c3: "ex_reachable c3" "node_app c3 5 = ex1" "to_app c3 = to_app c2" "node_app c3 6 = node_app c2 6" by blast
  have "app_event c3 5 (Payload [0] (Inbox_NewTransaction tx0))" using c2(3) c3(3) ex_ok2 [of ex0] by simp
  from ex_cluster_app [OF c3(1) this, unfolded c3(2), OF ex_step2] obtain c4 where
    c4: "ex_reachable c4" "node_app c4 5 = ex2" "to_app c4 = to_app c2" "node_app c4 6 = node_app c2 6" using c3(3,4) by auto
  have "app_event c4 5 (AdvertiseTick [0] (\<lambda>_. [5]) [])" using c4(2) ex_ok3 by simp
  from ex_cluster_app [OF c4(1) this, unfolded c4(2), OF ex_step3] obtain c5 where
    c5: "ex_reachable c5" "node_app c5 5 = ex3" "to_app c5 = to_app c2" "node_app c5 6 = node_app c2 6" using c4(3,4) by auto
  have "app_event c5 5 (EpochTick [0])" using c5(2) ex_ok4 by simp
  from ex_cluster_app [OF c5(1) this, unfolded c5(2), OF ex_step4] obtain c6 where
    "cluster_step Some Some toy_hash c5 c6" "ex_reachable c6" "node_app c6 5 = ex4" "to_app c6 = to_app c2" "node_app c6 6 = node_app c2 6"
    using c5(3,4) by auto
  with c5 c2(3,5) show ?thesis by (intro exI [of _ c5] exI [of _ c6]) simp
qed

lemma ex_cluster:
  "\<exists>c. ex_reachable c \<and> node_app c 5 = ex4 \<and> Inbox_NewTransaction tx0 \<in> to_app c 5"
  using ex_cluster_commits by blast

text \<open>Node 6 hears of the offset of node 5, and has nothing itself.\<close>

lemma ex_cluster_behind:
  "\<exists>c. ex_reachable c \<and> offset_of (offsets (node_app c 6)) 0 5 = Some 1 \<and>
     transactions (node_app c 6) 1 = None"
proof -
  obtain c where c: "ex_reachable c" "node_app c 5 = ex4" "node_app c 6 = App_new 6 ex_params"
    using ex_cluster_commits by blast
  have codec: "codec Some Some" by (simp add: codec_def)
  note inv = reachable_inv [OF c(1) codec ex_params_pos]
  have six: "(5 :: nat) \<noteq> 6" by simp
  obtain c' where c': "(inner_step Some Some toy_hash)\<^sup>*\<^sup>* c c'" "same_stores c c'"
    "\<And>r v. self_offsets (node_app c 5) r = Some v \<Longrightarrow> offset_of (offsets (node_app c' 6)) r 5 = Some v"
    by (rule hear_one [OF inv codec _ six, of toy_hash]) blast+
  have "self_offsets (node_app c 5) 0 = Some 1" by (simp add: c(2) ex_defs)
  moreover have "transactions (node_app c' 6) 1 = None"
    using c'(2) c(3) by (simp add: same_stores_def App_new_def)
  ultimately show ?thesis
    using c'(1,3) rtranclp_trans [OF c(1) inner_steps_cluster [OF c'(1)]] by (intro exI [of _ c']) blast
qed

end
