(* ===== verification/Whole_System.thy ===== *)
theory Whole_System
  imports Replicated_Log Gateways
begin

text \<open>
  Nodes and gateways together: a cluster, where now the transactions that gateways send are those
  their programs (\<open>gateway/src/main.rs\<close>) put into the channel to their network layers
  (\<open>gateway/src/p2p.rs\<close>), which send them to the nodes they are connected to. \<open>programs g\<close> is what the
  program of gateway \<open>g\<close> sends, nothing where there is no gateway. As in \<open>Cluster\<close>, messages may be lost,
  delayed, reordered and duplicated.
\<close>

record ('p, 'b, 'c, 'a) system =
  maroon :: "('p, 'b, 'c, 'a) cluster"
  gw_connected :: "'p \<Rightarrow> 'p set"
  gw_wire :: "('p \<times> ('p, 'c, 'a) gw_command) set"

definition system_start :: "Params \<Rightarrow> ('p, 'b, 'c, 'a) system" where
  "system_start prms = \<lparr>maroon = cluster_start prms, gw_connected = (\<lambda>_. {}), gw_wire = {}\<rparr>"

text \<open>A node takes from a gateway what that gateway sent to it.\<close>

fun layer_event :: "('p, 'b, 'c, 'a) system \<Rightarrow> 'p \<Rightarrow> ('p, 'b, 'c) p2p_event \<Rightarrow> bool" where
  "layer_event s p (From_Swarm (RequestResponse (RR_Message g (RR_Request request channel)))) \<longleftrightarrow>
     g \<noteq> p \<and> (g, GW_SendRequest p request) \<in> gw_wire s"
| "layer_event s p e \<longleftrightarrow> net_event (maroon s) p e"

fun gateway_input :: "('p \<Rightarrow> GMRequest list) \<Rightarrow> ('p, 'b, 'c, 'a) system \<Rightarrow> 'p \<Rightarrow> ('p, 'c) gw_input \<Rightarrow> bool" where
  "gateway_input programs s g (GW_Request order request) \<longleftrightarrow>
     request \<in> set (programs g) \<and> distinct order \<and> set order = gw_connected s g"
| "gateway_input programs s g (GW_Swarm ev) \<longleftrightarrow> True"

inductive system_step ::
    "('p GossipMessage \<Rightarrow> 'b option) \<Rightarrow> ('b \<Rightarrow> 'p GossipMessage option) \<Rightarrow> (u8 list \<Rightarrow> u8 list) \<Rightarrow>
      ('p \<Rightarrow> GMRequest list) \<Rightarrow> ('p :: linorder, 'b, 'c, 'a) system \<Rightarrow> ('p, 'b, 'c, 'a) system \<Rightarrow> bool"
  for to_vec from_slice sha256 programs
where
  app: "app_event (maroon s) p e \<Longrightarrow>
    app_step LogLineriazer_new_epoch sha256 True e (node_app (maroon s) p) = Some (Inr (a', out, resp)) \<Longrightarrow>
    system_step to_vec from_slice sha256 programs s (s\<lparr>maroon := (maroon s)
      \<lparr>node_app := (node_app (maroon s))(p := a'), to_net := (to_net (maroon s))(p := to_net (maroon s) p \<union> set out)\<rparr>\<rparr>)"
| layer: "layer_event s p e \<Longrightarrow>
    p2p_step to_vec from_slice True e (node_net (maroon s) p) = Inr (st', msgs, commands) \<Longrightarrow>
    system_step to_vec from_slice sha256 programs s (s\<lparr>maroon := (maroon s)
      \<lparr>node_net := (node_net (maroon s))(p := st'), to_app := (to_app (maroon s))(p := to_app (maroon s) p \<union> set msgs),
       wire := wire (maroon s) \<union> Pair p ` set commands\<rparr>\<rparr>)"
| gateway: "gateway_input programs s g i \<Longrightarrow>
    gw_step True i (gw_connected s g) = Inr (ids, resps, commands) \<Longrightarrow>
    system_step to_vec from_slice sha256 programs s
      (s\<lparr>gw_connected := (gw_connected s)(g := ids), gw_wire := gw_wire s \<union> Pair g ` set commands\<rparr>)"

section \<open>Where transactions come from\<close>

text \<open>Every transaction in a store, a channel or on the wire is one of \<open>G\<close>.\<close>

definition inbox_from :: "Transaction set \<Rightarrow> 'p Inbox \<Rightarrow> bool" where
  "inbox_from G m \<longleftrightarrow> set (brought m) \<subseteq> G"

fun outbox_from :: "Transaction set \<Rightarrow> 'p Outbox \<Rightarrow> bool" where
  "outbox_from G (Outbox_RequestedTxsForPeer q ts) \<longleftrightarrow> set ts \<subseteq> G"
| "outbox_from G _ \<longleftrightarrow> True"

fun command_from :: "Transaction set \<Rightarrow> ('p, 'b, 'c, 'a) command \<Rightarrow> bool" where
  "command_from G (SendM2MRequest q (M2M_MissingTx ts)) \<longleftrightarrow> set ts \<subseteq> G"
| "command_from G _ \<longleftrightarrow> True"

definition all_from :: "Transaction set \<Rightarrow> ('p, 'b, 'c, 'a) cluster \<Rightarrow> bool" where
  "all_from G c \<longleftrightarrow> (\<forall>p. ran (stores c p) \<subseteq> G) \<and> (\<forall>p. \<forall>m \<in> to_app c p. inbox_from G m) \<and>
     (\<forall>p. \<forall>m \<in> to_net c p. outbox_from G m) \<and> (\<forall>(p, cmd) \<in> wire c. command_from G cmd)"

lemma all_from_start: "all_from G (cluster_start prms)"
  by (simp add: all_from_def cluster_start_def stores_def App_new_def)

lemma app_step_ran:
  assumes inv: "app_inv sequence s" and ok: "event_ok e s"
    and step: "app_step LogLineriazer_new_epoch sha256 True e s = Some (Inr (s', out, resp))"
  shows "ran (transactions s') \<subseteq> ran (transactions s) \<union>
    (case e of Payload ks msg \<Rightarrow> set (brought msg) | _ \<Rightarrow> {})"
proof (cases e)
  case (AdvertiseTick ro po dos)
  then show ?thesis
    using step by (auto simp: advertise_offsets_and_request_missing_def Let_def res_simps
        recalculate_consensus_offsets_def split: if_splits)
next
  case (EpochTick co)
  then show ?thesis using step commit_log [of sha256 co s s'] by (auto simp: res_simps)
next
  case (Payload ks msg)
  with handle_inbox_ok [OF inv, of ks msg] ok step show ?thesis by (auto simp: handled_def)
qed (use step in auto)

lemma app_step_from:
  assumes inv: "cluster_inv to_vec n c" and orig: "all_from G c" and e: "app_event c p e"
    and step: "app_step LogLineriazer_new_epoch sha256 True e (node_app c p) = Some (Inr (s', out, resp))"
  shows "all_from G (c\<lparr>node_app := (node_app c)(p := s'), to_net := (to_net c)(p := to_net c p \<union> set out)\<rparr>)"
proof -
  let ?s = "node_app c p"
  have app: "app_inv sequence ?s" using cluster_invD(1) [OF inv] by (simp add: node_inv_def)
  note ok = event_ok_cluster [OF inv e]
  have store: "ran (transactions ?s) \<subseteq> G" using orig by (simp add: all_from_def stores_def)
  have "inbox_from G msg" if "e = Payload ks msg" for ks msg
    using orig e that by (auto simp: all_from_def)
  then have "ran (transactions s') \<subseteq> G"
    using app_step_ran [OF app ok step] store by (cases e) (auto simp: inbox_from_def)
  moreover have "outbox_from G m" if m: "m \<in> set out" for m
  proof (cases m)
    case (Outbox_RequestedTxsForPeer q ts)
    have "said e ?s m" using log_lin.app_step_ok [OF app ok, of sha256] step m by (auto simp: effects_def)
    then obtain ks "is" where msg: "e = Payload ks (Inbox_RequestMissingTxs q is)"
      and ts: "ts = map (the \<circ> transactions ?s) (ids_of is)"
      by (auto simp: Outbox_RequestedTxsForPeer)
    from ok msg have "all_stored (transactions ?s) is" by simp
    then have "set ts \<subseteq> ran (transactions ?s)" by (auto simp: ts all_stored_def has_tx_def ran_def)
    with store show ?thesis by (auto simp: Outbox_RequestedTxsForPeer)
  qed simp_all
  ultimately show ?thesis using orig by (auto simp: all_from_def stores_def)
qed

lemma net_step_from:
  fixes c :: "('p :: linorder, 'b, 'c, 'a) cluster"
  assumes inv: "cluster_inv to_vec n c" and orig: "all_from G c" and e: "net_event c p e"
    and gw: "\<And>g t ch. e = From_Swarm (RequestResponse (RR_Message g (RR_Request (GM_NewTransaction t) ch))) \<Longrightarrow> t \<in> G"
    and step: "p2p_step to_vec from_slice True e (node_net c p) = Inr (st', msgs, commands)"
  shows "all_from G (c\<lparr>node_net := (node_net c)(p := st'), to_app := (to_app c)(p := to_app c p \<union> set msgs),
       wire := wire c \<union> Pair p ` set commands\<rparr>)"
proof -
  have net: "p2p_inv (node_net c p)" "p2p_peer_id (node_net c p) = p"
    using cluster_invD(2) [OF inv, of p] by (simp_all add: net_inv_def)
  have "(\<forall>m \<in> set msgs. inbox_from G m) \<and> (\<forall>cmd \<in> set commands. command_from G cmd)"
  proof (cases e)
    case (From_App m)
    then have "outbox_from G m" using orig e by (simp add: all_from_def)
    then show ?thesis using step by (cases m) (auto simp: From_App split: option.splits)
  next
    case (From_Swarm ev)
    then have ev: "swarm_reports c p ev" using e by simp
    have h: "handle_swarm_event from_slice True ev (node_net c p) = Inr (st', msgs, commands)"
      using step From_Swarm by simp
    have "inbox_from G m" if "m \<in> set (event_brings from_slice ev)" for m
    proof (cases "(from_slice, ev)" rule: event_brings.cases)
      case (2 _ q req ch)
      then have "(q, SendM2MRequest p req) \<in> wire c" using ev by simp
      then have "command_from G (SendM2MRequest p req :: ('p, 'b, 'c, 'a) command)"
        using orig by (auto simp: all_from_def)
      then show ?thesis using that 2 by (cases req) (auto simp: inbox_from_def)
    next
      case (3 _ g t ch)
      then show ?thesis using that gw From_Swarm by (simp add: inbox_from_def)
    qed (use that in \<open>auto simp: inbox_from_def split: option.splits GossipPayload.splits\<close>)
    moreover obtain st2 msgs2 and commands2 :: "('p, 'b, 'c, 'a) command list" where
      "handle_swarm_event from_slice True ev (node_net c p) = Inr (st2, msgs2, commands2)"
      "msgs2 = event_brings from_slice ev \<or> msgs2 = [Inbox_Nodes (alive_peer_ids st2)]"
      using handle_swarm_event_ok [OF net(1), of ev from_slice] swarm_reports_peers [OF ev inv] net(2) by auto
    then have "msgs = event_brings from_slice ev \<or> (\<exists>ns. msgs = [Inbox_Nodes ns])" using h by auto
    moreover have "command_from G cmd" if "cmd \<in> set commands" for cmd
      using swarm_commands_kind(2) [OF h that] by (cases "(G, cmd)" rule: command_from.cases) auto
    ultimately show ?thesis by (auto simp: inbox_from_def)
  qed
  then show ?thesis using orig by (auto simp: all_from_def)
qed

section \<open>The system implements the cluster\<close>

text \<open>What the programs send, and that nodes accept it.\<close>

definition sent_txs :: "('p \<Rightarrow> GMRequest list) \<Rightarrow> Transaction set" where
  "sent_txs programs = {t. \<exists>g. GM_NewTransaction t \<in> set (programs g)}"

definition programs_ok :: "('p \<Rightarrow> GMRequest list) \<Rightarrow> bool" where
  "programs_ok programs \<longleftrightarrow> (\<forall>t \<in> sent_txs programs. valid_id (tx_id t))"

definition gateways_inv :: "('p \<Rightarrow> GMRequest list) \<Rightarrow> ('p, 'b, 'c, 'a) system \<Rightarrow> bool" where
  "gateways_inv programs s \<longleftrightarrow> (\<forall>g. finite (gw_connected s g)) \<and>
     (\<forall>g p request. (g, GW_SendRequest p request) \<in> gw_wire s \<longrightarrow> request \<in> set (programs g))"

definition system_ok ::
    "('p GossipMessage \<Rightarrow> 'b option) \<Rightarrow> ('b \<Rightarrow> 'p GossipMessage option) \<Rightarrow> ('p \<Rightarrow> GMRequest list) \<Rightarrow> nat \<Rightarrow>
      ('p, 'b, 'c, 'a) system \<Rightarrow> bool"
where
  "system_ok to_vec from_slice programs n s \<longleftrightarrow> programs_ok programs \<and> cluster_ok to_vec from_slice n (maroon s) \<and>
     all_from (sent_txs programs) (maroon s) \<and> gateways_inv programs s"

definition system_initial ::
    "('p GossipMessage \<Rightarrow> 'b option) \<Rightarrow> ('b \<Rightarrow> 'p GossipMessage option) \<Rightarrow> ('p \<Rightarrow> GMRequest list) \<Rightarrow> Params \<Rightarrow>
      ('p, 'b, 'c, 'a) system \<Rightarrow> bool"
where
  "system_initial to_vec from_slice programs prms s \<longleftrightarrow> codec to_vec from_slice \<and> programs_ok programs \<and>
     0 < consensus_nodes prms \<and> s = system_start prms"

lemma layer_event_net:
  assumes "layer_event s p e" and "gateways_inv programs s" and "programs_ok programs"
  shows "net_event (maroon s) p e"
    and "e = From_Swarm (RequestResponse (RR_Message g (RR_Request (GM_NewTransaction t) ch))) \<Longrightarrow> t \<in> sent_txs programs"
proof -
  have sent: "t \<in> sent_txs programs" if "(g, GW_SendRequest p (GM_NewTransaction t)) \<in> gw_wire s" for g t
    using that assms(2) unfolding gateways_inv_def sent_txs_def by blast
  then show "e = From_Swarm (RequestResponse (RR_Message g (RR_Request (GM_NewTransaction t) ch))) \<Longrightarrow> t \<in> sent_txs programs"
    using assms(1) by auto
  show "net_event (maroon s) p e"
    using assms(1)
  proof (cases "(s, p, e)" rule: layer_event.cases)
    case (1 s' p' g request ch)
    then show ?thesis
      using assms(1,3) sent [of g] by (cases request) (auto simp: programs_ok_def)
  qed simp_all
qed

lemma gw_step_commands:
  assumes "gw_step listening i ids = Inr (ids', resps, commands)" and "GW_SendRequest p request \<in> set commands"
  shows "\<exists>order. i = GW_Request order request"
proof (cases i)
  case (GW_Swarm ev)
  with assms show ?thesis
    by (cases ev) (auto simp: res_simps split: rr_event.splits rr_message.splits)
qed (use assms in auto)

lemma gw_step_finite:
  assumes "gw_step listening i ids = Inr (ids', resps, commands)" and "finite ids"
  shows "finite ids'"
proof (cases i)
  case (GW_Swarm ev)
  with assms show ?thesis
    by (cases ev) (auto simp: res_simps split: rr_event.splits rr_message.splits)
qed (use assms in auto)

lemma system_step_cluster:
  assumes "system_step to_vec from_slice sha256 programs s s'" and "system_ok to_vec from_slice programs n s"
  shows "(cluster_step to_vec from_slice sha256)\<^sup>=\<^sup>= (maroon s) (maroon s')"
  using assms(1)
proof (cases rule: system_step.cases)
  case (app p e a' out resp)
  then show ?thesis using cluster_step.app [OF app(2,3)] by simp
next
  case (layer p e st' msgs commands)
  then have "net_event (maroon s) p e"
    using layer_event_net(1) assms(2) by (auto simp: system_ok_def)
  then show ?thesis using cluster_step.net [OF _ layer(3)] layer(1) by simp
next
  case (gateway g i ids resps commands)
  then show ?thesis by simp
qed

lemma system_step_ok:
  assumes step: "system_step to_vec from_slice sha256 programs s s'" and ok: "system_ok to_vec from_slice programs n s"
  shows "system_ok to_vec from_slice programs n s'"
proof -
  have codec: "codec to_vec from_slice" and inv: "cluster_inv to_vec n (maroon s)"
    and prog: "programs_ok programs" and gw: "gateways_inv programs s"
    and orig: "all_from (sent_txs programs) (maroon s)"
    using ok by (simp_all add: system_ok_def cluster_ok_def)
  have inv': "cluster_inv to_vec n (maroon s')"
    using system_step_cluster [OF step ok] inv cluster_step_inv [OF _ codec] by auto
  have "all_from (sent_txs programs) (maroon s') \<and> gateways_inv programs s'"
    using step
  proof (cases rule: system_step.cases)
    case (app p e a' out resp)
    then show ?thesis using app_step_from [OF inv orig app(2,3)] gw by (simp add: gateways_inv_def)
  next
    case (layer p e st' msgs commands)
    then show ?thesis
      using net_step_from [OF inv orig layer_event_net(1) [OF layer(2) gw prog] layer_event_net(2) [OF layer(2) gw prog] layer(3)] gw
      by (simp add: gateways_inv_def)
  next
    case (gateway g i ids resps commands)
    have "request \<in> set (programs g)" if "GW_SendRequest p request \<in> set commands" for p request
      using gw_step_commands [OF gateway(3) that] gateway(2) by auto
    moreover have "finite ids" using gw_step_finite [OF gateway(3)] gw by (simp add: gateways_inv_def)
    ultimately show ?thesis using orig gw by (auto simp: gateway(1) gateways_inv_def)
  qed
  with codec prog inv' show ?thesis by (simp add: system_ok_def cluster_ok_def)
qed

lemma system_ok_start: "system_initial to_vec from_slice programs prms s \<Longrightarrow>
    system_ok to_vec from_slice programs (consensus_nodes prms) s"
  using cluster_inv_start [of prms to_vec]
  by (auto simp: system_initial_def system_ok_def cluster_ok_def system_start_def all_from_start gateways_inv_def)

interpretation sys: simulation "system_initial to_vec from_slice programs prms"
    "system_step to_vec from_slice sha256 programs" "system_ok to_vec from_slice programs (consensus_nodes prms)"
    "cluster_initial to_vec from_slice prms" "(cluster_step to_vec from_slice sha256)\<^sup>=\<^sup>=" maroon
  for to_vec from_slice programs prms sha256
proof unfold_locales
  show "system_ok to_vec from_slice programs (consensus_nodes prms) s'"
    if "system_ok to_vec from_slice programs (consensus_nodes prms) s" "system_step to_vec from_slice sha256 programs s s'" for s s'
    using system_step_ok that by blast
qed (auto intro: system_ok_start system_step_cluster simp: system_initial_def cluster_initial_def system_start_def
  simp del: sup2CI dest: system_step_cluster)

abbreviation system_reachable ::
    "('p GossipMessage \<Rightarrow> 'b option) \<Rightarrow> ('b \<Rightarrow> 'p GossipMessage option) \<Rightarrow> (u8 list \<Rightarrow> u8 list) \<Rightarrow>
      ('p \<Rightarrow> GMRequest list) \<Rightarrow> Params \<Rightarrow> ('p :: linorder, 'b, 'c, 'a) system \<Rightarrow> bool"
where
  "system_reachable to_vec from_slice sha256 programs prms s \<equiv>
     (system_step to_vec from_slice sha256 programs)\<^sup>*\<^sup>* (system_start prms) s"

lemma system_reachable_ok:
  assumes "system_reachable to_vec from_slice sha256 programs prms s" and "codec to_vec from_slice"
    and "programs_ok programs" and "0 < consensus_nodes prms"
  shows "system_ok to_vec from_slice programs (consensus_nodes prms) s"
    and "reachable to_vec from_slice sha256 prms (maroon s)"
proof -
  have r: "sys.reachable to_vec from_slice programs prms sha256 s"
    using assms unfolding sys.reachable_def by (auto simp: system_initial_def)
  then show "system_ok to_vec from_slice programs (consensus_nodes prms) s" by (rule sys.inv_reachable)
  from sys.abs_reachable [OF r] show "reachable to_vec from_slice sha256 prms (maroon s)"
    unfolding transition_system.reachable_def by (simp add: cluster_initial_def)
qed

section \<open>The log of the whole system\<close>

lemma stored_sent:
  assumes "system_ok to_vec from_slice programs n s" and "transactions (node_app (maroon s) p) k = Some t"
  shows "tx_id t = k" and "t \<in> sent_txs programs"
proof -
  have inv: "node_inv (stores (maroon s)) n p (node_app (maroon s) p)"
    and orig: "ran (stores (maroon s) p) \<subseteq> sent_txs programs"
    using assms(1) cluster_invD(1) by (auto simp: system_ok_def cluster_ok_def all_from_def)
  show "tx_id t = k" using inv assms(2) by (simp add: node_inv_def app_inv_def store_inv_def tx_map_wf_def)
  show "t \<in> sent_txs programs" using orig assms(2) by (auto simp: stores_def ran_def)
qed

lemma logged_sent:
  assumes ok: "system_ok to_vec from_slice programs n s" and n: "0 < n"
    and k: "k \<in> set (sequence (linearizer (node_app (maroon s) p)))"
  shows "\<exists>t \<in> sent_txs programs. tx_id t = k"
proof -
  have "node_inv (stores (maroon s)) n p (node_app (maroon s) p)"
    using ok cluster_invD(1) by (auto simp: system_ok_def cluster_ok_def)
  then have "held_by n (log_of_cluster (maroon s)) k"
    using node_inv_log(2) k by (fastforce simp: log_of_cluster_def)
  then obtain Q where Q: "finite Q" "n \<le> card Q" "\<forall>q \<in> Q. k \<in> dom (transactions (node_app (maroon s) q))"
    by (auto simp: held_by_def log_of_cluster_def)
  then obtain q where "q \<in> Q" using n by fastforce
  with Q(3) stored_sent [OF ok] show ?thesis by (metis domD)
qed

lemma gateway_main_sends:
  assumes "gateway_main (lib :: ('k, 'p) libp2p) parse can_dial parse_u64 True env_urls env_range =
    (cs :: ('p, 'c, 'a) gw_command list, reqs, Inr (Inr ()))"
  shows "\<exists>r. parse_u64 (case env_range of None \<Rightarrow> ''0'' | Some str \<Rightarrow> str) = Some r \<and> reqs = map (new_tx r) [0..<100]"
proof -
  have *: "send_transactions True r is gw = (gw', Inr ()) \<Longrightarrow> \<forall>i \<in> set is. i < 100 \<Longrightarrow>
      requests gw' = requests gw @ map (new_tx r) is" for r "is" and gw gw' :: "('k, 'p) Gateway"
  proof (induction "is" arbitrary: gw)
    case (Cons i "is")
    then have i: "unat (u64 i) = i" by simp
    obtain k where k: "unique_blob_id_from_range_and_offset r (u64 i) = Inr k"
      using Cons.prems(1) by (auto split: sum.splits)
    then have "unat k = unat r * 1073741824 + i" by (simp add: unique_blob_id_eq_Inr i)
    then have "GM_NewTransaction (Transaction k Created) = new_tx r i"
      unfolding new_tx_def by (metis u64_unat)
    then have "send_transactions True r is (gw\<lparr>requests := requests gw @ [new_tx r i]\<rparr>) = (gw', Inr ())"
      using Cons.prems(1) k by (simp add: send_request_def endpoint_send_def)
    from Cons.IH [OF this] Cons.prems(2) show ?case by simp
  qed simp
  show ?thesis
    using assms *
    by (fastforce simp: gateway_main_def Let_def Gateway_new_def res_simps start_in_background_def
        create_a_b_duplex_pair_def simp del: upt.simps split: option.splits prod.splits sum.splits)
qed

end
