(* ===== verification/System_Progress.thy ===== *)
theory System_Progress
  imports Whole_System Agreement
begin

text \<open>
  What the whole system can always do: a gateway can reach any node, so that what its program sends comes
  to be stored by any nodes, and from there gets into the log of any node (\<open>Agreement\<close>). What nodes do
  among themselves they can do in the system as well.
\<close>

lemma layer_event_inner: "net_event (maroon s) p e \<Longrightarrow> \<not> from_gateway e \<Longrightarrow> layer_event s p e"
  by (cases "(s, p, e)" rule: layer_event.cases) auto

lemma inner_system:
  assumes "inner_step to_vec from_slice sha256 (maroon s) c'"
  shows "system_step to_vec from_slice sha256 programs s (s\<lparr>maroon := c'\<rparr>)"
  using assms
proof (cases rule: inner_step.cases)
  case (app p e s' out resp)
  then show ?thesis using system_step.app [OF app(2,3)] by simp
next
  case (net p e st' msgs commands)
  then show ?thesis using system_step.layer [OF layer_event_inner [OF net(2,4)] net(3)] by simp
qed

lemma inner_steps_system:
  assumes "(inner_step to_vec from_slice sha256)\<^sup>*\<^sup>* (maroon s) c'"
  shows "(system_step to_vec from_slice sha256 programs)\<^sup>*\<^sup>* s (s\<lparr>maroon := c'\<rparr>)"
  using assms
proof (induction rule: rtranclp_induct)
  case (step c1 c2)
  have "system_step to_vec from_slice sha256 programs (s\<lparr>maroon := c1\<rparr>) (s\<lparr>maroon := c1, maroon := c2\<rparr>)"
    by (rule inner_system) (use step in simp)
  with step.IH show ?case by simp
qed simp

section \<open>From a gateway to the store of a node\<close>

lemma gateway_reaches:
  fixes s :: "('p :: linorder, 'b, 'c, 'a) system"
  assumes fin: "finite (gw_connected s g)" and t: "GM_NewTransaction t \<in> set (programs g)" and "g \<noteq> p"
  shows "\<exists>s'. (system_step to_vec from_slice sha256 programs)\<^sup>*\<^sup>* s s' \<and>
    node_app (maroon s') = node_app (maroon s) \<and> Inbox_NewTransaction t \<in> to_app (maroon s') p"
proof -
  let ?step = "system_step to_vec from_slice sha256 programs" and ?req = "GM_NewTransaction t"
  let ?ids = "insert p (gw_connected s g)"
  let ?s1 = "s\<lparr>gw_connected := (gw_connected s)(g := ?ids), gw_wire := gw_wire s \<union> Pair g ` set []\<rparr>"
  have 1: "?step s ?s1"
    by (rule system_step.gateway [where i = "GW_Swarm (GW_ConnectionEstablished p)"]) simp_all
  have "finite ?ids" using fin by simp
  then obtain order where order: "distinct order" "set order = ?ids" using finite_distinct_list by blast
  let ?sent = "map (\<lambda>q. GW_SendRequest q ?req) order :: ('p, 'c, 'a) gw_command list"
  let ?s2 = "?s1\<lparr>gw_connected := (gw_connected ?s1)(g := ?ids), gw_wire := gw_wire ?s1 \<union> Pair g ` set ?sent\<rparr>"
  have 2: "?step ?s1 ?s2"
    by (rule system_step.gateway [where i = "GW_Request order ?req"]) (use t order in simp_all)
  let ?c = "maroon ?s2"
  let ?e = "From_Swarm (RequestResponse (RR_Message g (RR_Request ?req undefined))) :: ('p, 'b, 'c) p2p_event"
  let ?s3 = "?s2\<lparr>maroon := ?c\<lparr>node_net := (node_net ?c)(p := node_net ?c p),
     to_app := (to_app ?c)(p := to_app ?c p \<union> set [Inbox_NewTransaction t]),
     wire := wire ?c \<union> Pair p ` set [SendGMResponse undefined Acknowledged]\<rparr>\<rparr>"
  have "layer_event ?s2 p ?e" using \<open>g \<noteq> p\<close> order(2) by simp
  moreover have "p2p_step to_vec from_slice True ?e (node_net ?c p) =
      Inr (node_net ?c p, [Inbox_NewTransaction t], [SendGMResponse undefined Acknowledged :: ('p, 'b, 'c, 'a) command])"
    by (simp add: endpoint_send_def)
  ultimately have 3: "?step ?s2 ?s3" by (rule system_step.layer)
  have "?step\<^sup>*\<^sup>* s ?s3" using 1 2 3 by (meson converse_rtranclp_into_rtranclp rtranclp.rtrancl_refl)
  then show ?thesis by (intro exI [of _ ?s3]) simp
qed

text \<open>Whatever the programs send, a gateway is connected to finitely many nodes.\<close>

lemma reachable_connected_finite:
  assumes "system_reachable to_vec from_slice sha256 programs prms s"
  shows "finite (gw_connected s g)"
  using assms
proof (induction rule: rtranclp_induct)
  case base
  show ?case by (simp add: system_start_def)
next
  case (step s s')
  from step.hyps(2) step.IH show ?case
    by (cases rule: system_step.cases) (auto intro: gw_step_finite)
qed

definition keeps_stores :: "('p, 'b, 'c, 'a) system \<Rightarrow> ('p, 'b, 'c, 'a) system \<Rightarrow> bool" where
  "keeps_stores s s' \<longleftrightarrow> (\<forall>q. dom (stores (maroon s) q) \<subseteq> dom (stores (maroon s') q))"

lemma system_steps_ok:
  "(system_step to_vec from_slice sha256 programs)\<^sup>*\<^sup>* s s' \<Longrightarrow> system_ok to_vec from_slice programs n s \<Longrightarrow>
    system_ok to_vec from_slice programs n s'"
  by (induction rule: rtranclp_induct) (auto intro: system_step_ok)

lemma gateway_transaction_stored:
  fixes s :: "('p :: linorder, 'b, 'c, 'a) system"
  assumes ok: "system_ok to_vec from_slice programs n s" and t: "GM_NewTransaction t \<in> set (programs g)" and "g \<noteq> p"
  shows "\<exists>s'. (system_step to_vec from_slice sha256 programs)\<^sup>*\<^sup>* s s' \<and> keeps_stores s s' \<and>
    has_tx (stores (maroon s') p) (tx_id t)"
proof -
  have fin: "finite (gw_connected s g)" using ok by (simp add: system_ok_def gateways_inv_def)
  obtain s1 where s1: "(system_step to_vec from_slice sha256 programs)\<^sup>*\<^sup>* s s1"
    "node_app (maroon s1) = node_app (maroon s)" "Inbox_NewTransaction t \<in> to_app (maroon s1) p"
    using gateway_reaches [where programs = programs and g = g and t = t and p = p, OF fin t assms(3)] by blast
  have ok1: "system_ok to_vec from_slice programs n s1" by (rule system_steps_ok [OF s1(1) ok])
  let ?c = "maroon s1" and ?msg = "Inbox_NewTransaction t"
  have inv: "cluster_inv to_vec n ?c" and codec: "codec to_vec from_slice"
    using ok1 by (simp_all add: system_ok_def cluster_ok_def)
  obtain ks where "key_order (buckets [t]) ks" using bucket_order_exists by blast
  then have e: "app_event ?c p (Payload ks ?msg)" using s1(3) by simp
  have app: "app_inv sequence (node_app ?c p)" using cluster_invD(1) [OF inv] by (simp add: node_inv_def)
  have "payload_ok ks ?msg (node_app ?c p)" using event_ok_cluster [OF inv e] by simp
  from handle_inbox_ok [OF app this] obtain a where
    a: "handle_inbox_message True ks ?msg (node_app ?c p) = Some (Inr (a, []))"
      "handled sequence ?msg (node_app ?c p) a"
    by (auto simp: answer_def simp del: handle_inbox_message.simps)
  then have "app_step LogLineriazer_new_epoch sha256 True (Payload ks ?msg) (node_app ?c p) = Some (Inr (a, [], []))"
    by (simp del: handle_inbox_message.simps)
  from app_moves [OF inv codec e this] obtain c2 where
    c2: "inner_step to_vec from_slice sha256 ?c c2" "node_app c2 = (node_app ?c)(p := a)" by blast
  have "(system_step to_vec from_slice sha256 programs)\<^sup>*\<^sup>* s (s1\<lparr>maroon := c2\<rparr>)"
    by (rule rtranclp.rtrancl_into_rtrancl [OF s1(1) inner_system [OF c2(1)]])
  moreover have "dom (transactions a) = insert (tx_id t) (dom (transactions (node_app ?c p)))"
    using a(2) by (simp add: handled_def)
  ultimately show ?thesis
    by (intro exI [of _ "s1\<lparr>maroon := c2\<rparr>"]) (auto simp: keeps_stores_def stores_def c2(2) s1(2) has_tx_def)
qed

lemma gateway_transactions_stored:
  fixes s :: "('p :: linorder, 'b, 'c, 'a) system"
  assumes "finite A" and ok: "system_ok to_vec from_slice programs n s"
    and A: "\<forall>(p, t) \<in> A. p \<noteq> g \<and> GM_NewTransaction t \<in> set (programs g)"
  shows "\<exists>s'. (system_step to_vec from_slice sha256 programs)\<^sup>*\<^sup>* s s' \<and>
    (\<forall>(p, t) \<in> A. has_tx (stores (maroon s') p) (tx_id t))"
  using assms(1,3)
proof (induction A rule: finite_induct)
  case (insert a A)
  obtain p t where a: "a = (p, t)" by (cases a)
  from insert obtain s1 where s1: "(system_step to_vec from_slice sha256 programs)\<^sup>*\<^sup>* s s1"
    "\<forall>(p, t) \<in> A. has_tx (stores (maroon s1) p) (tx_id t)" by blast
  have "GM_NewTransaction t \<in> set (programs g)" "g \<noteq> p" using insert.prems by (auto simp: a)
  from gateway_transaction_stored [OF system_steps_ok [OF s1(1) ok] this] obtain s2 where
    s2: "(system_step to_vec from_slice sha256 programs)\<^sup>*\<^sup>* s1 s2" "keeps_stores s1 s2"
      "has_tx (stores (maroon s2) p) (tx_id t)" by blast
  then show ?case
    using rtranclp_trans [OF s1(1) s2(1)] s1(2) has_tx_mono
    by (intro exI [of _ s2]) (fastforce simp: a keeps_stores_def)
qed auto

end
