(* ===== verification/System_Properties.thy ===== *)
theory System_Properties
  imports System_Progress Example_Cluster
begin

text \<open>
  What holds from end to end: gateways that run their program, the network, and the logs of the nodes.
\<close>

text \<open>Every program is that of a gateway whose range is below the last.\<close>

definition hundreds :: "('p \<Rightarrow> GMRequest list) \<Rightarrow> bool" where
  "hundreds programs \<longleftrightarrow> (\<forall>g. programs g \<noteq> [] \<longrightarrow>
     (\<exists>r. r < MAX_BLOCK_INDEX \<and> programs g = map (new_tx r) [0..<100]))"

lemma hundredsI:
  assumes "\<forall>g. programs g \<noteq> [] \<longrightarrow>
      gateway_main (lib g) parse can_dial parse_u64 True (env_urls g) (env_range g) =
        (cs g :: ('p, 'c, 'a) gw_command list, programs g, Inr (Inr ())) \<and>
      (\<forall>r. parse_u64 (case env_range g of None \<Rightarrow> ''0'' | Some str \<Rightarrow> str) = Some r \<longrightarrow> r < MAX_BLOCK_INDEX)"
  shows "hundreds programs"
  unfolding hundreds_def
proof (intro allI impI)
  fix g
  assume "programs g \<noteq> []"
  with assms have main: "gateway_main (lib g) parse can_dial parse_u64 True (env_urls g) (env_range g) =
        (cs g, programs g, Inr (Inr ()))"
    and r: "\<forall>r. parse_u64 (case env_range g of None \<Rightarrow> ''0'' | Some str \<Rightarrow> str) = Some r \<longrightarrow> r < MAX_BLOCK_INDEX"
    by blast+
  from gateway_main_sends [OF main] r
  show "\<exists>r. r < MAX_BLOCK_INDEX \<and> programs g = map (new_tx r) [0..<100]" by blast
qed

lemma new_tx_id:
  assumes "r < MAX_BLOCK_INDEX" and "i < 100"
  shows "unat (u64 (unat r * 1073741824 + i)) = unat r * 1073741824 + i"
    and "valid_id (u64 (unat r * 1073741824 + i))"
    and "in_block r' (u64 (unat r * 1073741824 + i)) \<longleftrightarrow> r' = r"
proof -
  have r: "unat r < 17179869183" using assms(1) by (simp add: word_less_nat_alt unat_consts)
  then show u: "unat (u64 (unat r * 1073741824 + i)) = unat r * 1073741824 + i" using assms(2) by simp
  show "valid_id (u64 (unat r * 1073741824 + i))" using r assms(2) by (simp add: valid_id_def)
  have "(unat r * 1073741824 + i) div 1073741824 = unat r" using assms(2) by simp
  then show "in_block r' (u64 (unat r * 1073741824 + i)) \<longleftrightarrow> r' = r"
    unfolding in_block_def u by (auto intro: u64_eqI)
qed

lemma hundreds_sent:
  assumes "hundreds programs" and "t \<in> sent_txs programs"
  obtains g r i where "r < MAX_BLOCK_INDEX" and "programs g = map (new_tx r) [0..<100]" and "i < 100"
    and "t = Transaction (u64 (unat r * 1073741824 + i)) Created"
proof -
  obtain g where g: "GM_NewTransaction t \<in> set (programs g)" using assms(2) by (auto simp: sent_txs_def)
  then obtain r where r: "r < MAX_BLOCK_INDEX" "programs g = map (new_tx r) [0..<100]"
    using assms(1) unfolding hundreds_def by (metis empty_iff list.set(1))
  with g obtain i where "i < 100" "GM_NewTransaction t = new_tx r i" by (auto simp del: upt.simps)
  with r that show thesis by (simp add: new_tx_def)
qed

lemma hundreds_ok: "hundreds programs \<Longrightarrow> programs_ok programs"
  unfolding programs_ok_def by (auto elim!: hundreds_sent simp: new_tx_id(2))

lemma hundreds_not_full:
  assumes "hundreds programs" and "system_ok to_vec from_slice programs n s"
  shows "\<not> block_full (stores (maroon s) q) r"
proof
  let ?k = "u64 (unat r * 1073741824 + 100)"
  assume "block_full (stores (maroon s) q) r"
  then have "has_tx (stores (maroon s) q) ?k" by (simp add: block_full_def)
  then obtain t where "transactions (node_app (maroon s) q) ?k = Some t" by (auto simp: has_tx_def stores_def)
  from stored_sent [OF assms(2) this] have t: "tx_id t = ?k" "t \<in> sent_txs programs" .
  obtain g r' i where r': "r' < MAX_BLOCK_INDEX" "i < 100" "t = Transaction (u64 (unat r' * 1073741824 + i)) Created"
    by (rule hundreds_sent [OF assms(1) t(2)])
  with t(1) have "unat ?k = unat r' * 1073741824 + i" using new_tx_id(1) [of r' i] by simp
  then have i: "unat ?k mod 1073741824 = i" using r'(2) by simp
  have "unat (u64 k) = k mod 18446744073709551616" for k
    by (simp add: u64_def unat_of_nat take_bit_eq_mod)
  moreover have "k mod 18446744073709551616 mod 1073741824 = k mod 1073741824" for k :: nat
    by (rule mod_mod_cancel) simp
  ultimately have "unat ?k mod 1073741824 = (unat r * 1073741824 + 100) mod 1073741824" by metis
  then have "unat ?k mod 1073741824 = 100" by simp
  with i show False using r'(2) by simp
qed

lemma log_of_range:
  assumes hund: "hundreds programs" and ok: "system_ok to_vec from_slice programs n s" and "0 < n"
  shows "\<exists>m \<le> 100. filter (in_block r) (sequence (linearizer (node_app (maroon s) p))) =
      map (\<lambda>i. u64 (unat r * 1073741824 + i)) [0..<m] \<and>
    (0 < m \<longrightarrow> r < MAX_BLOCK_INDEX \<and> (\<exists>g. programs g = map (new_tx r) [0..<100]))"
proof -
  let ?log = "sequence (linearizer (node_app (maroon s) p))"
  have "node_inv (stores (maroon s)) n p (node_app (maroon s) p)"
    using ok cluster_invD(1) by (auto simp: system_ok_def cluster_ok_def)
  then have "in_order ?log" using node_inv_log(1) by (fastforce simp: log_of_cluster_def)
  then obtain m where m: "filter (in_block r) ?log = map (\<lambda>i. u64 (unat r * 1073741824 + i)) [0..<m]"
    by (auto simp: in_order_def)
  have sent: "i < 100 \<and> r < MAX_BLOCK_INDEX \<and> (\<exists>g. programs g = map (new_tx r) [0..<100])"
    if i: "i < m" "i \<le> 100" for i
  proof -
    let ?k = "u64 (unat r * 1073741824 + i)"
    have "?k \<in> set (filter (in_block r) ?log)" using i(1) by (auto simp: m)
    then have k: "?k \<in> set ?log" "in_block r ?k" by simp_all
    obtain t where t: "t \<in> sent_txs programs" "tx_id t = ?k" using logged_sent [OF ok assms(3) k(1)] by blast
    obtain g r' j where j: "r' < MAX_BLOCK_INDEX" "programs g = map (new_tx r') [0..<100]" "j < 100"
      "t = Transaction (u64 (unat r' * 1073741824 + j)) Created"
      by (rule hundreds_sent [OF hund t(1)])
    then have "r' = r" using k(2) t(2) new_tx_id(3) [OF j(1,3), of r] by simp
    moreover have "unat r * 1073741824 + i < 18446744073709551616"
      using j(1) i(2) \<open>r' = r\<close> by (simp add: word_less_nat_alt unat_consts)
    then have "i = j" using t(2) j(4) \<open>r' = r\<close> new_tx_id(1) [OF j(1,3)] by (simp add: u64_eq_iff)
    ultimately show ?thesis using j by blast
  qed
  have "m \<le> 100" using sent [of 100] by (cases "m \<le> 100") auto
  then show ?thesis using m sent [of 0] by blast
qed

text \<open>What a gateway sends gets into the log of any node.\<close>

lemma sent_gets_logged:
  fixes s :: "('p :: linorder, 'b, 'c, 'a) system"
  assumes hund: "hundreds programs" and ok: "system_ok to_vec from_slice programs n s"
    and total: "\<And>m. to_vec m \<noteq> None" and g: "r < MAX_BLOCK_INDEX" "programs g = map (new_tx r) [0..<100]"
    and Q: "finite Q" "n \<le> card Q" "g \<notin> Q"
  shows "\<exists>s'. (system_step to_vec from_slice sha256 programs)\<^sup>*\<^sup>* s s' \<and>
    (\<forall>i < 99. u64 (unat r * 1073741824 + i) \<in> set (sequence (linearizer (node_app (maroon s') p))))"
proof -
  let ?t = "\<lambda>i. Transaction (u64 (unat r * 1073741824 + i)) Created"
  let ?A = "Q \<times> ?t ` {..<100}"
  have "\<forall>(q, t) \<in> ?A. q \<noteq> g \<and> GM_NewTransaction t \<in> set (programs g)"
    using Q(3) by (auto simp: g(2) new_tx_def)
  from gateway_transactions_stored [OF _ ok this] Q(1) obtain s1 where
    s1: "(system_step to_vec from_slice sha256 programs)\<^sup>*\<^sup>* s s1"
      "\<forall>(q, t) \<in> ?A. has_tx (stores (maroon s1) q) (tx_id t)" by fastforce
  have ok1: "system_ok to_vec from_slice programs n s1" by (rule system_steps_ok [OF s1(1) ok])
  have inv: "cluster_inv to_vec n (maroon s1)" and codec: "codec to_vec from_slice"
    using ok1 by (simp_all add: system_ok_def cluster_ok_def)
  have pos: "valid_pos r 99" using g(1) by (simp add: valid_pos_def word_less_nat_alt unat_consts)
  have "\<forall>q \<in> Q. holds_upto (stores (maroon s1) q) r 99"
    using s1(2) by (auto simp: holds_upto_def)
  moreover have "\<forall>q \<in> Q. \<forall>r. \<not> block_full (stores (maroon s1) q) r"
    using hundreds_not_full [OF hund ok1] by blast
  ultimately obtain c where "(inner_step to_vec from_slice sha256)\<^sup>*\<^sup>* (maroon s1) c"
    "\<And>i. i < unat (99 :: u64) \<Longrightarrow> u64 (unat r * 1073741824 + i) \<in> set (sequence (linearizer (node_app c p)))"
    using stored_gets_logged [OF inv codec total Q(1,2) pos] by blast
  with rtranclp_trans [OF s1(1) inner_steps_system] show ?thesis
    by (intro exI [of _ "s1\<lparr>maroon := c\<rparr>"]) simp
qed

section \<open>An example\<close>

text \<open>Gateway 6 runs its program for range 0.\<close>

definition ex_programs :: "nat \<Rightarrow> GMRequest list" where
  "ex_programs g = (if g = 6 then map (new_tx 0) [0..<100] else [])"

definition ex_cs :: "nat \<Rightarrow> (nat, unit, string) gw_command list" where
  "ex_cs g = [GW_Dial ''a'']"

lemma ex_main: "gateway_main (libp2p_of (6 :: nat)) Some (\<lambda>_. True) (\<lambda>_. Some 0) True (Some ''a'') None = (ex_cs 6, ex_programs 6, Inr (Inr ()))"
proof -
  obtain gw where "Gateway_new (libp2p_of (6 :: nat)) Some (\<lambda>_. True) [''a''] = (ex_cs 6, Inr (Inr gw))"
    "requests gw = []" "start_in_background gw = Inr ((\<lparr>sender = 1, receiver = 0\<rparr>, {}), gw\<lparr>p2p := None\<rparr>)"
    using Gateway_new_ok [of "libp2p_of (6 :: nat)" "[''a'']" Some "\<lambda>_. True"] by (auto simp: ex_cs_def)
  moreover have "send_transactions True 0 [0..<100] gw = (gw\<lparr>requests := requests gw @ map (new_tx 0) [0..<100]\<rparr>, Inr ())"
    for gw :: "(unit, nat) Gateway"
    by (rule send_transactions_ok) simp
  ultimately show ?thesis by (simp add: gateway_main_def Let_def ex_programs_def del: upt.simps)
qed

lemma ex_below: "0 < MAX_BLOCK_INDEX"
  by (simp add: word_less_nat_alt unat_consts)

lemma ex_mains:
  "\<forall>g. ex_programs g \<noteq> [] \<longrightarrow>
     gateway_main (libp2p_of g) Some (\<lambda>_. True) (\<lambda>_. Some 0) True (Some ''a'') None = (ex_cs g, ex_programs g, Inr (Inr ())) \<and>
     (\<forall>r. Some 0 = Some r \<longrightarrow> r < MAX_BLOCK_INDEX)"
  using ex_main ex_below by (auto simp: ex_programs_def ex_cs_def)

lemma ex_hundreds: "hundreds ex_programs"
  using ex_below by (auto simp: hundreds_def ex_programs_def simp del: upt.simps)

lemma ex_valid: "\<forall>g t. GM_NewTransaction t \<in> set (ex_programs g) \<longrightarrow> valid_id (tx_id t)"
  using hundreds_ok [OF ex_hundreds] by (auto simp: programs_ok_def sent_txs_def)

type_synonym ex_system = "(nat, nat GossipMessage, unit, string) system"

abbreviation ex_system_reachable :: "ex_system \<Rightarrow> bool" where
  "ex_system_reachable \<equiv> system_reachable Some Some toy_hash ex_programs ex_params"

lemma ex_codec_total: "\<forall>(m :: nat GossipMessage). \<exists>b. Some m = Some b \<and> Some b = Some m"
  by simp

lemma ex_system_logs:
  "\<exists>s. ex_system_reachable s \<and> 98 \<in> set (sequence (linearizer (node_app (maroon s) 5)))"
proof -
  have "system_initial Some Some ex_programs ex_params (system_start ex_params :: ex_system)"
    using hundreds_ok [OF ex_hundreds] ex_params_pos by (simp add: system_initial_def codec_def)
  note ok = system_ok_start [OF this]
  have prog: "ex_programs 6 = map (new_tx 0) [0..<100]" by (simp add: ex_programs_def)
  have few: "consensus_nodes ex_params \<le> card {5 :: nat}"
    by (simp add: ex_params_def set_consensus_nodes_def)
  obtain s where s: "ex_system_reachable s"
    "\<forall>i < 99. u64 (unat (0 :: u64) * 1073741824 + i) \<in> set (sequence (linearizer (node_app (maroon s) 5)))"
    using sent_gets_logged [OF ex_hundreds ok _ ex_below prog _ few, of toy_hash 5] by auto
  have "u64 (unat (0 :: u64) * 1073741824 + 98) \<in> set (sequence (linearizer (node_app (maroon s) 5)))"
    using s(2) by (rule allE [of _ 98]) simp
  with s(1) show ?thesis by (auto simp: u64_def)
qed

section \<open>Properties\<close>

text \<open>
  C8: nothing is made up: a transaction a node stores, under its own id, and
  every id in its log is one that the program of some gateway sent, unchanged, whichever way it took.
\<close>

theorem logged_transactions_were_sent:
  assumes "system_reachable to_vec from_slice sha256 programs prms s"
    and "\<forall>m b. to_vec m = Some b \<longrightarrow> from_slice b = Some m" and "0 < consensus_nodes prms"
    and "\<forall>g t. GM_NewTransaction t \<in> set (programs g) \<longrightarrow> valid_id (tx_id t)"
  shows "(\<forall>k t. transactions (node_app (maroon s) p) k = Some t \<longrightarrow>
      tx_id t = k \<and> (\<exists>g. GM_NewTransaction t \<in> set (programs g))) \<and>
    (\<forall>k \<in> set (sequence (linearizer (node_app (maroon s) p))).
      \<exists>g t. GM_NewTransaction t \<in> set (programs g) \<and> tx_id t = k)"
proof -
  have "codec to_vec from_slice" "programs_ok programs"
    using assms(2,4) by (auto simp: codec_def programs_ok_def sent_txs_def)
  note ok = system_reachable_ok(1) [OF assms(1) this assms(3)]
  from stored_sent [OF ok, of p] logged_sent [OF ok assms(3), of _ p] show ?thesis
    unfolding sent_txs_def by blast
qed

theorem logged_transactions_were_sent_witness:
  "\<exists>s. ex_system_reachable s \<and> (\<exists>g t. GM_NewTransaction t \<in> set (ex_programs g) \<and> tx_id t = 98) \<and>
     98 \<in> set (sequence (linearizer (node_app (maroon s) 5)))"
proof -
  obtain s where s: "ex_system_reachable s" "98 \<in> set (sequence (linearizer (node_app (maroon s) 5)))"
    using ex_system_logs by blast
  from logged_transactions_were_sent [OF s(1) ex_codec ex_params_pos ex_valid, of 5] s show ?thesis by blast
qed

text \<open>
  C6: where the gateways run their program with ranges below the last, the log of
  every node at any time holds, of every range, a prefix of the hundred ids the program sends, in their
  order and none twice, and nothing of a range that no gateway was started with.
\<close>

theorem logs_are_gateway_prefixes:
  assumes "system_reachable to_vec from_slice sha256 programs prms s"
    and "\<forall>m b. to_vec m = Some b \<longrightarrow> from_slice b = Some m" and "0 < consensus_nodes prms"
    and "\<forall>g. programs g \<noteq> [] \<longrightarrow>
      gateway_main (lib g) parse can_dial parse_u64 True (env_urls g) (env_range g) =
        (cs g :: ('p :: linorder, 'c, 'a) gw_command list, programs g, Inr (Inr ())) \<and>
      (\<forall>r. parse_u64 (case env_range g of None \<Rightarrow> ''0'' | Some str \<Rightarrow> str) = Some r \<longrightarrow> r < MAX_BLOCK_INDEX)"
  shows "prefix (filter (in_block r) (sequence (linearizer (node_app (maroon s) p))))
      (map (\<lambda>i. u64 (unat r * 1073741824 + i)) [0..<100]) \<and>
    (filter (in_block r) (sequence (linearizer (node_app (maroon s) p))) \<noteq> [] \<longrightarrow>
      (\<exists>g. programs g = map (new_tx r) [0..<100]))"
proof -
  have "codec to_vec from_slice" using assms(2) by (simp add: codec_def)
  note ok = system_reachable_ok(1) [OF assms(1) this hundreds_ok [OF hundredsI [OF assms(4)]] assms(3)]
  obtain m where m: "m \<le> 100" "filter (in_block r) (sequence (linearizer (node_app (maroon s) p))) =
      map (\<lambda>i. u64 (unat r * 1073741824 + i)) [0..<m]"
    "0 < m \<longrightarrow> (\<exists>g. programs g = map (new_tx r) [0..<100])"
    using log_of_range [where r = r and p = p, OF hundredsI [OF assms(4)] ok assms(3)] by blast
  have "prefix (map (\<lambda>i. u64 (unat r * 1073741824 + i)) [0..<m]) (map (\<lambda>i. u64 (unat r * 1073741824 + i)) [0..<100])"
    using m(1) by (intro map_mono_prefix) (metis le_add_diff_inverse prefixI upt_add_eq_append zero_le)
  with m show ?thesis by (auto simp del: upt.simps)
qed

theorem logs_are_gateway_prefixes_witness:
  "\<exists>s. ex_system_reachable s \<and> 98 \<in> set (sequence (linearizer (node_app (maroon s) 5))) \<and>
     prefix (filter (in_block 0) (sequence (linearizer (node_app (maroon s) 5))))
       (map (\<lambda>i. u64 (unat (0 :: u64) * 1073741824 + i)) [0..<100])"
proof -
  obtain s where s: "ex_system_reachable s" "98 \<in> set (sequence (linearizer (node_app (maroon s) 5)))"
    using ex_system_logs by blast
  have mains: "\<forall>g. ex_programs g \<noteq> [] \<longrightarrow>
     gateway_main (libp2p_of g) Some (\<lambda>_. True) (\<lambda>_. Some 0) True (Some ''a'') None = (ex_cs g, ex_programs g, Inr (Inr ())) \<and>
     (\<forall>r. (\<lambda>_. Some 0) (case None of None \<Rightarrow> ''0'' | Some str \<Rightarrow> str) = Some r \<longrightarrow> r < MAX_BLOCK_INDEX)"
    using ex_mains by simp
  from logs_are_gateway_prefixes [OF s(1) ex_codec ex_params_pos mains, of 0 5] s show ?thesis by blast
qed

text \<open>
  C7: from every state the system can reach, whatever was lost or delayed
  before, some continuation gets the ids a gateway program sends, all but possibly the last of the hundred,
  into the log of any given node: as long as the peers besides the gateway are enough for a consensus, the gateway
  can reach them, they store and advertise what they got, and the node hears of it and commits.
\<close>

theorem gateway_transactions_can_be_logged:
  assumes "system_reachable to_vec from_slice sha256 programs prms s"
    and "\<forall>m. \<exists>b. to_vec m = Some b \<and> from_slice b = Some m" and "0 < consensus_nodes prms"
    and "\<forall>g. programs g \<noteq> [] \<longrightarrow>
      gateway_main (lib g) parse can_dial parse_u64 True (env_urls g) (env_range g) =
        (cs g :: ('p :: linorder, 'c, 'a) gw_command list, programs g, Inr (Inr ())) \<and>
      (\<forall>r. parse_u64 (case env_range g of None \<Rightarrow> ''0'' | Some str \<Rightarrow> str) = Some r \<longrightarrow> r < MAX_BLOCK_INDEX)"
    and "programs g = map (new_tx r) [0..<100]" and "r < MAX_BLOCK_INDEX"
    and "finite Q" and "consensus_nodes prms \<le> card Q" and "g \<notin> Q"
  shows "\<exists>s'. (system_step to_vec from_slice sha256 programs)\<^sup>*\<^sup>* s s' \<and>
    (\<forall>i < 99. u64 (unat r * 1073741824 + i) \<in> set (sequence (linearizer (node_app (maroon s') p))))"
proof -
  note hund = hundredsI [OF assms(4)]
  have codec: "codec to_vec from_slice" using assms(2) by (simp add: codec_def) (metis option.inject)
  have total: "\<And>m. to_vec m \<noteq> None" using assms(2) by (metis option.distinct(1))
  note ok = system_reachable_ok(1) [OF assms(1) codec hundreds_ok [OF hund] assms(3)]
  show ?thesis by (rule sent_gets_logged [OF hund ok total assms(6,5,7-9)])
qed

theorem gateway_transactions_can_be_logged_witness:
  "\<exists>s'. ex_system_reachable s' \<and>
     u64 (unat (0 :: u64) * 1073741824 + 42) \<in> set (sequence (linearizer (node_app (maroon s') 7)))"
proof -
  have start: "ex_system_reachable (system_start ex_params)" by simp
  have mains: "\<forall>g. ex_programs g \<noteq> [] \<longrightarrow>
     gateway_main (libp2p_of g) Some (\<lambda>_. True) (\<lambda>_. Some 0) True (Some ''a'') None = (ex_cs g, ex_programs g, Inr (Inr ())) \<and>
     (\<forall>r. (\<lambda>_. Some 0) (case None of None \<Rightarrow> ''0'' | Some str \<Rightarrow> str) = Some r \<longrightarrow> r < MAX_BLOCK_INDEX)"
    using ex_mains by simp
  have prog: "ex_programs 6 = map (new_tx 0) [0..<100]" by (simp add: ex_programs_def)
  have few: "consensus_nodes ex_params \<le> card {5 :: nat}"
    by (simp add: ex_params_def set_consensus_nodes_def)
  obtain s' where s': "ex_system_reachable s'"
    "\<forall>i < 99. u64 (unat (0 :: u64) * 1073741824 + i) \<in> set (sequence (linearizer (node_app (maroon s') 7)))"
    using gateway_transactions_can_be_logged [OF start ex_codec_total ex_params_pos mains prog ex_below _ few, of 7] by auto
  have "u64 (unat (0 :: u64) * 1073741824 + 42) \<in> set (sequence (linearizer (node_app (maroon s') 7)))"
    using s'(2) by (rule allE [of _ 42]) simp
  with s'(1) show ?thesis by blast
qed



end
