(* ===== verification/Unit_Tests.thy ===== *)
theory Unit_Tests
  imports Node_Invariant Channels
begin

text \<open>
  The unit tests of the repository as definitions: whether a test passes, that is, returns with its
  assertions true, or panics where it is marked \<open>should_panic\<close>. A test that iterates hash maps takes
  the orders as arguments, \<open>ko\<close>, \<open>po\<close> and \<open>ro\<close>, which choose one for every map. The tests are then theorems, for all
  orders, where a run of the tests tries one.
\<close>

text \<open>\<open>HashMap::from\<close> and \<open>collect\<close>.\<close>

definition hash_map :: "('k \<times> 'v) list \<Rightarrow> 'k \<rightharpoonup> 'v" where
  "hash_map kvs = fold (\<lambda>(k, v) m. m(k \<mapsto> v)) kvs Map.empty"

lemma hash_map_simps [simp]:
  "hash_map [] = Map.empty"
  "hash_map [a] = [fst a \<mapsto> snd a]"
  "hash_map [a, b] = [fst a \<mapsto> snd a, fst b \<mapsto> snd b]"
  "hash_map [a, b, c] = [fst a \<mapsto> snd a, fst b \<mapsto> snd b, fst c \<mapsto> snd c]"
  "hash_map [a, b, c, d] = [fst a \<mapsto> snd a, fst b \<mapsto> snd b, fst c \<mapsto> snd c, fst d \<mapsto> snd d]"
  by (simp_all add: hash_map_def split_def)

section \<open>\<open>common/src/range_key.rs\<close>\<close>

definition ids_count_example :: bool where
  "ids_count_example \<longleftrightarrow>
     rbind (interval_new 0 2) ids_count = Inr 3 \<and> rbind (interval_new 0 0) ids_count = Inr 1"

text \<open>The example in the comment on \<open>range_offset_from_unique_blob_id\<close>.\<close>

definition range_offset_example :: bool where
  "range_offset_example \<longleftrightarrow>
     rbind (range_offset_from_unique_blob_id 10) (\<lambda>(range', offset).
       unique_blob_id_from_range_and_offset range' offset) = Inr 10"

definition test_range_offset_from_unique_blob_id :: bool where
  "test_range_offset_from_unique_blob_id \<longleftrightarrow>
     list_all (\<lambda>(key, ex_range, ex_offset).
         case range_offset_from_unique_blob_id key of
           Inr (key_range, offset) \<Rightarrow> key_range = ex_range \<and> offset = ex_offset \<and>
             unique_blob_id_from_range_and_offset key_range offset = Inr key
         | Inl p \<Rightarrow> False)
       [(0, 0, 0), (1, 0, 1), (1073741824, 1, 0)]"

definition test_transaction_id_operation :: bool where
  "test_transaction_id_operation \<longleftrightarrow> (let tx1 = 10; tx2 = 15 in u64_sub tx2 tx1 = Inr 5)"

definition test_unique_blob_overflow :: bool where
  "test_unique_blob_overflow \<longleftrightarrow>
     rbind (interval_new 0 18446744073709551615) ids_count = Inl IntervalTooLarge"

definition test_unique_blob_creation :: bool where
  "test_unique_blob_creation \<longleftrightarrow> (case interval_new 10 0 of Inl p \<Rightarrow> True | Inr i \<Rightarrow> False)"

fun new_intervals :: "(u64 \<times> u64) list \<Rightarrow> panic + U64BlobIdClosedInterval list" where
  "new_intervals [] = Inr []"
| "new_intervals ((l, r) # ends) =
     rbind (interval_new l r) (\<lambda>i. rbind (new_intervals ends) (\<lambda>is. Inr (i # is)))"

definition test_correct_sorting :: bool where
  "test_correct_sorting \<longleftrightarrow>
     rbind (new_intervals [(10, 20), (1, 5), (11, 14), (8, 16)]) (\<lambda>intervals. Inr (sort intervals)) =
     new_intervals [(1, 5), (8, 16), (10, 20), (11, 14)]"

definition test_interval_iterator :: bool where
  "test_interval_iterator \<longleftrightarrow>
     rbind (interval_new 5 8) interval_iter = Inr [5, 6, 7, 8] \<and>
     rbind (interval_new 5 5) interval_iter = Inr [5]"

lemma interval_new_num: "l \<le> r \<Longrightarrow> interval_new l r = Inr (ClosedInterval l r)"
  by (simp add: interval_new_def)

lemma decode_num: "valid_id k \<Longrightarrow> range_offset_from_unique_blob_id k =
    Inr (u64 (unat k div 1073741824), u64 (unat k mod 1073741824))"
  by (simp add: range_offset_from_eq_Inr valid_id_def)

lemma range_num: "valid_id k \<Longrightarrow> range_from_unique_blob_id k = Inr (u64 (unat k div 1073741824))"
  by (simp add: range_from_eq_Inr valid_id_def)

lemma u64_two: "u64 (Suc (Suc 0)) = 2"
  by (simp add: u64_def)

lemmas eval_ids = u64_two range_num decode_num encode_valid valid_id_def valid_pos_def interval_new_num new_from_range_and_offsets_def
  interval_order

lemma range_key_tests:
  "ids_count_example" "range_offset_example" "test_range_offset_from_unique_blob_id" "test_transaction_id_operation"
  "test_unique_blob_overflow" "test_unique_blob_creation" "test_correct_sorting" "test_interval_iterator"
proof -
  show "ids_count_example" by (simp add: ids_count_example_def interval_new_num res_simps)
  show "range_offset_example" by (simp add: range_offset_example_def eval_ids)
  show "test_range_offset_from_unique_blob_id"
    by (simp add: test_range_offset_from_unique_blob_id_def eval_ids)
  show "test_transaction_id_operation"
    by (simp add: test_transaction_id_operation_def u64_sub_def)
  show "test_unique_blob_overflow"
    by (simp add: test_unique_blob_overflow_def interval_new_num ids_count_def u64_sub_def u64_add_def)
  show "test_unique_blob_creation" by (simp add: test_unique_blob_creation_def interval_new_def)
  show "test_correct_sorting"
    by (simp add: test_correct_sorting_def interval_new_num interval_order)
  show "test_interval_iterator"
    by (simp add: test_interval_iterator_def interval_new_num interval_iter_eq interval_ids_def
        ids_between_def upt_rec u64_def)
qed

section \<open>\<open>maroon/src/linearizer.rs\<close>\<close>

fun intervals_of :: "(KeyRange \<times> KeyOffset \<times> KeyOffset) list \<Rightarrow> panic + U64BlobIdClosedInterval list" where
  "intervals_of [] = Inr []"
| "intervals_of ((key_range, l, r) # ends) =
     rbind (new_from_range_and_offsets key_range l r) (\<lambda>i. rbind (intervals_of ends) (\<lambda>is. Inr (i # is)))"

fun ids_at :: "(KeyRange \<times> KeyOffset) list \<Rightarrow> panic + UniqueU64BlobId list" where
  "ids_at [] = Inr []"
| "ids_at ((key_range, offset) # ps) =
     rbind (unique_blob_id_from_range_and_offset key_range offset) (\<lambda>k. rbind (ids_at ps) (\<lambda>ks. Inr (k # ks)))"

definition test_linear :: "(u8 list \<Rightarrow> u8 list) \<Rightarrow> bool" where
  "test_linear sha256 \<longleftrightarrow>
     rbind (intervals_of [(3, 0, 0), (0, 0, 2), (1, 0, 3)]) (\<lambda>is1.
     rbind (LogLineriazer_new_epoch LogLineriazer_new (Epoch_new sha256 is1 None)) (\<lambda>linearizer.
     rbind (intervals_of [(4, 0, 1), (0, 3, 5)]) (\<lambda>is2.
     rbind (LogLineriazer_new_epoch linearizer (Epoch_new sha256 is2 None)) (\<lambda>linearizer.
       Inr (sequence linearizer))))) =
     ids_at [(0, 0), (0, 1), (0, 2), (1, 0), (1, 1), (1, 2), (1, 3), (3, 0),
       (0, 3), (0, 4), (0, 5), (4, 0), (4, 1)]"

lemmas eval_epochs = LogLineriazer_new_epoch_def LogLineriazer_new_def Epoch_new_def Let_def ids_count_def
  u64_sub_def u64_add_def interval_iter_eq interval_ids_def ids_between_def
  upt_rec [of 0 "numeral k" for k] upt_rec [of "Suc 0" "numeral k" for k] numeral_2_eq_2 [symmetric]

lemma linearizer_test: "test_linear sha256"
  by (simp add: test_linear_def eval_ids eval_epochs)

section \<open>\<open>maroon/src/app/app.rs\<close>\<close>

text \<open>\<open>test_tx\<close> of \<open>maroon/src/test_helpers.rs\<close>.\<close>

definition test_tx :: "UniqueU64BlobId \<Rightarrow> Transaction" where
  "test_tx k = Transaction k Pending"

definition calculate_consensus_maximum :: "(('p \<rightharpoonup> KeyOffset) \<Rightarrow> 'p list) \<Rightarrow> 'p \<Rightarrow> 'p \<Rightarrow> 'p \<Rightarrow> bool" where
  "calculate_consensus_maximum po p_id_1 p_id_2 p_id_3 \<longleftrightarrow>
     list_all (\<lambda>(kvs, want). let hm = hash_map kvs in consensus_maximum (entries hm (po hm)) 2 = want)
       [([], None),
        ([(p_id_1, 10)], None),
        ([(p_id_1, 10), (p_id_2, 2), (p_id_3, 4)], Some 4)]"

text \<open>A case: own offsets and transactions before, the new transaction, and both after.\<close>

type_synonym self_offset_case =
  "(KeyRange \<times> KeyOffset) list \<times> UniqueU64BlobId list \<times> UniqueU64BlobId \<times>
     (KeyRange \<times> KeyOffset) list \<times> UniqueU64BlobId list"

definition self_offset_cases :: "self_offset_case list" where
  "self_offset_cases =
     [([], [], 0, [(0, 0)], [0]),
      ([(0, 0)], [0], 0, [(0, 0)], [0]),
      ([(0, 0)], [0], 1, [(0, 1)], [0, 1]),
      ([], [1], 0, [(0, 1)], [0, 1])]"

text \<open>The cases in which a gap is filled.\<close>

definition self_offset_gap_cases :: "self_offset_case list" where
  "self_offset_gap_cases =
     [([(0, 0)], [0, 2, 4], 1, [(0, 2)], [0, 1, 2, 4]),
      ([(0, 0)], [0, 2, 4], 3, [(0, 0)], [0, 3, 2, 4])]"

definition test_txs :: "UniqueU64BlobId list \<Rightarrow> tx_map" where
  "test_txs ks = hash_map (map (\<lambda>k. (k, test_tx k)) ks)"

definition update_self_offset_test :: "KeyRange list \<Rightarrow> bool" where
  "update_self_offset_test ks \<longleftrightarrow>
     list_all (\<lambda>(so, txs, tx, expected_so, expected_txs).
         case update_self_offset ks (hash_map so) (test_txs txs) (test_tx tx) of
           Inr (so', txs', update) \<Rightarrow> so' = hash_map expected_so \<and> txs' = test_txs expected_txs
         | Inl p \<Rightarrow> False)
       (self_offset_cases @ self_offset_gap_cases)"

lemmas eval_offsets = txs_to_range_tx_map_def update_self_offset_def update_range_def has_tx_def
  advance_key.simps [of _ 0] advance_key.simps [of _ 1] advance_key.simps [of _ "numeral k" for k]
  u64_add_def

lemma update_self_offset_tests: "update_self_offset_test [0]"
  by (simp add: update_self_offset_test_def self_offset_cases_def self_offset_gap_cases_def test_txs_def test_tx_def
      eval_ids eval_offsets fun_eq_iff)

text \<open>The orders of a small map.\<close>

lemma order1: "key_order [a \<mapsto> x] ks \<Longrightarrow> ks = [a]"
  using length_entries [of "[a \<mapsto> x]" ks] key_orderD [of "[a \<mapsto> x]" ks]
  by (cases ks) (auto simp: key_order_def)

lemma order2:
  assumes "a \<noteq> b" and "key_order [a \<mapsto> x, b \<mapsto> y] ks"
  shows "ks = [a, b] \<or> ks = [b, a]"
proof -
  have ks: "distinct ks" "set ks = {a, b}" using assms(2) by (auto simp: key_order_def)
  then have "length ks = 2" using assms(1) distinct_card [of ks] by simp
  then obtain u v where "ks = [u, v]" by (auto simp: length_Suc_conv numeral_2_eq_2)
  with ks show ?thesis by auto
qed

lemma order3:
  assumes "a \<noteq> b" "a \<noteq> c" "b \<noteq> c" and "key_order [a \<mapsto> x, b \<mapsto> y, c \<mapsto> z] ks"
  shows "ks \<in> {[a, b, c], [a, c, b], [b, a, c], [b, c, a], [c, a, b], [c, b, a]}"
proof -
  have ks: "distinct ks" "set ks = {a, b, c}" using assms(4) by (auto simp: key_order_def)
  then have "length ks = 3" using assms(1-3) distinct_card [of ks] by simp
  then obtain u v w where k: "ks = [u, v, w]" by (auto simp: length_Suc_conv numeral_3_eq_3)
  have "u \<in> {a, b, c}" "v \<in> {a, b, c}" "w \<in> {a, b, c}" using ks(2) unfolding k by auto
  with ks(1) show ?thesis unfolding k by auto
qed

lemma calculate_consensus_maximum_tests:
  fixes po :: "('p \<rightharpoonup> KeyOffset) \<Rightarrow> 'p list"
  assumes po: "\<And>m :: 'p \<rightharpoonup> KeyOffset. finite (dom m) \<Longrightarrow> key_order m (po m)"
    and "p1 \<noteq> p2" "p1 \<noteq> p3" "p2 \<noteq> p3"
  shows "calculate_consensus_maximum po p1 p2 p3"
proof -
  have "po Map.empty = []" using po [of Map.empty] by simp
  moreover have "po [p1 \<mapsto> 10] = [p1]" using po [of "[p1 \<mapsto> 10]"] by (intro order1 [of p1 10]) simp
  moreover have "po [p1 \<mapsto> 10, p2 \<mapsto> 2, p3 \<mapsto> 4] \<in>
      {[p1, p2, p3], [p1, p3, p2], [p2, p1, p3], [p2, p3, p1], [p3, p1, p2], [p3, p2, p1]}"
    using po [of "[p1 \<mapsto> 10, p2 \<mapsto> 2, p3 \<mapsto> 4]"] assms(2-4) by (intro order3 [of _ _ _ 10 2 4]) simp_all
  then have "consensus_maximum (entries [p1 \<mapsto> 10, p2 \<mapsto> 2, p3 \<mapsto> 4] (po [p1 \<mapsto> 10, p2 \<mapsto> 2, p3 \<mapsto> 4])) 2 = Some 4"
    using assms(2-4) by (elim insertE) (simp_all add: consensus_maximum_def)
  ultimately show ?thesis
    by (simp add: calculate_consensus_maximum_def consensus_maximum_def)
qed

definition calculate_epoch_increments_cases ::
    "((KeyRange \<times> KeyOffset) list \<times> (KeyRange \<times> KeyOffset) list \<times> (u64 \<times> u64) list) list" where
  "calculate_epoch_increments_cases =
     [([], [], []),
      ([(0, 2)], [], [(0, 2)]),
      ([(0, 2)], [(0, 2)], []),
      ([(0, 1)], [(0, 2)], []),
      ([(0, 10), (1, 2), (2, 6)], [(0, 6), (1, 2), (2, 8)], [(7, 10)])]"

definition test_calculate_epoch_increments :: "((KeyRange \<rightharpoonup> KeyOffset) \<Rightarrow> KeyRange list) \<Rightarrow> bool" where
  "test_calculate_epoch_increments ko \<longleftrightarrow>
     list_all (\<lambda>(consensus, commited, expected_increments).
         let consensus_offset = hash_map consensus in
         rbind (calculate_epoch_increments (entries consensus_offset (ko consensus_offset)) (hash_map commited))
           (\<lambda>increments. Inr (sort increments)) = new_intervals expected_increments)
       calculate_epoch_increments_cases"

lemma calculate_epoch_increments_tests:
  assumes ko: "\<And>m. key_order m (ko m)"
  shows "test_calculate_epoch_increments ko"
proof -
  have "ko Map.empty = []" using ko [of Map.empty] by simp
  moreover have "ko [0 \<mapsto> v] = [0]" for v using ko [of "[0 \<mapsto> v]"] by (rule order1)
  moreover have "ko [0 \<mapsto> 10, 1 \<mapsto> 2, 2 \<mapsto> 6] \<in> {[0, 1, 2], [0, 2, 1], [1, 0, 2], [1, 2, 0], [2, 0, 1], [2, 1, 0]}"
    by (rule order3 [OF _ _ _ ko]) simp_all
  then have "calculate_epoch_increments (entries [0 \<mapsto> 10, 1 \<mapsto> 2, 2 \<mapsto> 6] (ko [0 \<mapsto> 10, 1 \<mapsto> 2, 2 \<mapsto> 6]))
      [0 \<mapsto> 6, 1 \<mapsto> 2, 2 \<mapsto> 8] = Inr [ClosedInterval 7 10]"
    by (elim insertE) (simp_all add: eval_ids eval_offsets)
  ultimately show ?thesis
    by (simp add: test_calculate_epoch_increments_def calculate_epoch_increments_cases_def eval_ids
        eval_offsets Let_def)
qed

definition self_delays_cases ::
    "'p \<Rightarrow> 'p \<Rightarrow> ((KeyRange \<times> KeyOffset) list \<times> UniqueU64BlobId list \<times>
      (KeyRange \<times> ('p \<times> KeyOffset) list) list \<times> (panic + ('p \<rightharpoonup> U64BlobIdClosedInterval list))) list" where
  "self_delays_cases peer_id_0 peer_id_1 =
     [([], [], [], Inr Map.empty),
      ([(0, 5), (2, 3)], [],
       [(0, [(peer_id_0, 5), (peer_id_1, 2)]), (2, [(peer_id_0, 1), (peer_id_1, 2)])],
       Inr Map.empty),
      ([(0, 1), (2, 1)], [5, 6],
       [(0, [(peer_id_0, 8), (peer_id_1, 2)]), (2, [(peer_id_0, 3), (peer_id_1, 1)]),
        (3, [(peer_id_0, 1), (peer_id_1, 3)])],
       rbind (new_intervals [(2, 4), (7, 8)]) (\<lambda>a.
       rbind (intervals_of [(2, 2, 3)]) (\<lambda>b.
       rbind (intervals_of [(3, 0, 3)]) (\<lambda>c.
         Inr (hash_map [(peer_id_0, a @ b), (peer_id_1, c)])))))]"

definition test_self_delays_calculation ::
    "('p offset_table \<Rightarrow> KeyRange list) \<Rightarrow> ('p offset_table \<Rightarrow> KeyRange \<Rightarrow> 'p list) \<Rightarrow> 'p \<Rightarrow> 'p \<Rightarrow> bool" where
  "test_self_delays_calculation ro po peer_id_0 peer_id_1 \<longleftrightarrow>
     list_all (\<lambda>(so, txs, offs, expected_ranges).
         let offsets = hash_map (map (\<lambda>(r, nodes). (r, hash_map nodes)) offs) in
         rbind (self_delays (test_txs txs) (hash_map so) (offsets_entries (ro offsets) (po offsets) offsets))
           (\<lambda>ranges. Inr (map_option sort \<circ> ranges)) = expected_ranges)
       (self_delays_cases peer_id_0 peer_id_1)"

text \<open>The three ranges of the last case.\<close>

lemmas eval_scan = range_delay_def scan_range.simps [of _ _ _ _ 0] scan_range.simps [of _ _ _ _ 1]
  scan_range.simps [of _ _ _ _ "numeral k" for k]

lemma max_by_offset2:
  assumes "p \<noteq> q" and "key_order [p \<mapsto> v, q \<mapsto> w] ks"
  shows "w < v \<Longrightarrow> max_by_offset (entries [p \<mapsto> v, q \<mapsto> w] ks) = Some (p, v)"
    and "v < w \<Longrightarrow> max_by_offset (entries [p \<mapsto> v, q \<mapsto> w] ks) = Some (q, w)"
  using order2 [OF assms] assms(1) by auto

lemma range_delay_evals:
  "max_by_offset nodes = Some (p, 8) \<Longrightarrow> range_delay (test_txs [5, 6]) (hash_map [(0, 1), (2, 1)]) 0 nodes =
     Inr (Some (p, [ClosedInterval 2 4, ClosedInterval 7 8]))"
  "max_by_offset nodes = Some (p, 3) \<Longrightarrow> range_delay (test_txs [5, 6]) (hash_map [(0, 1), (2, 1)]) 2 nodes =
     Inr (Some (p, [ClosedInterval 2147483650 2147483651]))"
  "max_by_offset nodes = Some (p, 3) \<Longrightarrow> range_delay (test_txs [5, 6]) (hash_map [(0, 1), (2, 1)]) 3 nodes =
     Inr (Some (p, [ClosedInterval 3221225472 3221225475]))"
  by (simp_all add: eval_scan eval_ids eval_offsets test_txs_def test_tx_def u64_sub_def word_le_nat_alt)

lemma no_ranges: "self_delays txs so (offsets_entries [] po offs) = Inr Map.empty"
  by (simp add: self_delays_def offsets_entries_def)

lemma self_delays_tests:
  fixes ro :: "'p offset_table \<Rightarrow> KeyRange list"
  assumes orders: "\<And>offs. finite (dom offs) \<Longrightarrow> (\<And>r nodes. offs r = Some nodes \<Longrightarrow> finite (dom nodes)) \<Longrightarrow>
      orders_ok (ro offs) (po offs) offs"
    and p: "p0 \<noteq> p1"
  shows "test_self_delays_calculation ro po p0 p1"
proof -
  have "ro Map.empty = []" using orders [of Map.empty] by (simp add: orders_ok_def)
  let ?b = "[0 \<mapsto> [p0 \<mapsto> 5 :: u64, p1 \<mapsto> 2], 2 \<mapsto> [p0 \<mapsto> 1, p1 \<mapsto> 2]]"
  let ?c = "[0 \<mapsto> [p0 \<mapsto> 8 :: u64, p1 \<mapsto> 2], 2 \<mapsto> [p0 \<mapsto> 3, p1 \<mapsto> 1], 3 \<mapsto> [p0 \<mapsto> 1, p1 \<mapsto> 3]]"
  have b: "orders_ok (ro ?b) (po ?b) ?b" by (rule orders) (auto split: if_splits)
  have c: "orders_ok (ro ?c) (po ?c) ?c" by (rule orders) (auto split: if_splits)
  have rb: "ro ?b = [0, 2] \<or> ro ?b = [2, 0]"
    by (rule order2 [OF _ b [unfolded orders_ok_def, THEN conjunct1]]) simp
  have rc: "ro ?c \<in> {[0, 2, 3], [0, 3, 2], [2, 0, 3], [2, 3, 0], [3, 0, 2], [3, 2, 0]}"
    by (rule order3 [OF _ _ _ c [unfolded orders_ok_def, THEN conjunct1]]) simp_all
  have kb: "key_order [p0 \<mapsto> 5 :: u64, p1 \<mapsto> 2] (po ?b 0)" "key_order [p0 \<mapsto> 1 :: u64, p1 \<mapsto> 2] (po ?b 2)"
    using b by (simp_all add: orders_ok_def)
  have kc: "key_order [p0 \<mapsto> 8 :: u64, p1 \<mapsto> 2] (po ?c 0)" "key_order [p0 \<mapsto> 3 :: u64, p1 \<mapsto> 1] (po ?c 2)"
      "key_order [p0 \<mapsto> 1 :: u64, p1 \<mapsto> 3] (po ?c 3)"
    using c by (simp_all add: orders_ok_def)
  note maxb = max_by_offset2 [OF p kb(1)] max_by_offset2 [OF p kb(2)]
  note maxc = max_by_offset2 [OF p kc(1)] max_by_offset2 [OF p kc(2)] max_by_offset2 [OF p kc(3)]
  have "self_delays (test_txs []) (hash_map [(0, 5), (2, 3)]) (offsets_entries (ro ?b) (po ?b) ?b) = Inr Map.empty"
    using rb by (elim disjE) (simp_all add: self_delays_def offsets_entries_def range_delay_def maxb word_le_nat_alt)
  moreover have "rbind (self_delays (test_txs [5, 6]) (hash_map [(0, 1), (2, 1)]) (offsets_entries (ro ?c) (po ?c) ?c))
      (\<lambda>ranges. Inr (map_option sort \<circ> ranges)) =
      Inr [p0 \<mapsto> [ClosedInterval 2 4, ClosedInterval 7 8, ClosedInterval 2147483650 2147483651],
           p1 \<mapsto> [ClosedInterval 3221225472 3221225475]]"
    using rc p
    by (elim insertE) (simp_all add: self_delays_def offsets_entries_def range_delay_evals maxc fun_eq_iff
        interval_order del: hash_map_simps)
  ultimately show ?thesis
    using \<open>ro Map.empty = []\<close>
    by (simp add: test_self_delays_calculation_def self_delays_cases_def eval_ids comp_def no_ranges Let_def)
qed

section \<open>\<open>common/src/invoker_handler.rs\<close>\<close>

text \<open>
  The handler keeps the first request and answers it after the second; \<open>early\<close> says whether it
  takes the first one before the second is made.
\<close>

definition test_invoker_handler :: "bool \<Rightarrow> bool" where
  "test_invoker_handler early \<longleftrightarrow>
     (case invoke True ''1'' create_invoker_handler_pair of
        Inl p \<Rightarrow> False
      | Inr (responder1, st) \<Rightarrow>
          (case invoke True ''2'' (if early then the (recv st) else st) of
             Inl p \<Rightarrow> False
           | Inr (responder2, st) \<Rightarrow>
               (let st = (if early then st else the (recv st)); st = the (recv st);
                    st = settle 1 (Sent (wrapper_request (taken st ! 1))) st;
                    st = settle 0 (Sent (wrapper_request (taken st ! 0))) st in
                case poll st responder2 of
                  Inr (Ready result2, st) \<Rightarrow> result2 = ''2'' \<and>
                    (case poll st responder1 of Inr (Ready result1, st) \<Rightarrow> result1 = ''1'' | _ \<Rightarrow> False)
                | _ \<Rightarrow> False)))"

lemma invoker_tests: "test_invoker_handler early"
  by (cases early)
    (simp_all add: test_invoker_handler_def invoke_def create_invoker_handler_pair_def recv_def settle_def
      poll_def Let_def)

end
