(* ===== verification/App_Tests.thy ===== *)
theory App_Tests
  imports Unit_Tests Node_Run
begin

text \<open>
  The tests of the application as a whole (\<open>maroon/src/app/tests_single.rs\<close>, \<open>maroon/src/test_helpers.rs\<close>).
  Such a test sends messages into the channel of an application that runs its loop, and watches what comes
  out. It is a run of the loop on the events it causes and the ticks of the timers, of which the first
  of either timer is due at once.

  What the first test waits for is the effect of a tick. It is taken with any schedule of the loop:
  whether it passes depends on when the timer of the advertisements goes off. The others wait
  for what messages and a later tick bring; each is taken with one schedule, in which the first ticks are served first.
\<close>

definition new_test_instance :: "'p \<Rightarrow> ('p, LogLineriazer) App" where
  "new_test_instance peer = App_new peer Params_default"

definition run_app ::
    "(u8 list \<Rightarrow> u8 list) \<Rightarrow> 'p :: linorder \<Rightarrow> 'p event list \<Rightarrow> (panic + ('p, LogLineriazer) run_state) option" where
  "run_app sha256 peer events = loop_until_shutdown LogLineriazer_new_epoch sha256 True events
     \<lparr>app = new_test_instance peer, sent = [], responses = []\<rparr>"

definition passes :: "(panic + ('p, LogLineriazer) run_state) option \<Rightarrow> (('p, LogLineriazer) run_state \<Rightarrow> bool) \<Rightarrow> bool" where
  "passes res check = (case res of Some (Inr rs) \<Rightarrow> check rs | _ \<Rightarrow> False)"

text \<open>\<open>answers\<close> are the answers to the attempts, one after the other.\<close>

definition reaches_state :: "nat \<Rightarrow> Response list \<Rightarrow> CurrentOffsets \<Rightarrow> bool" where
  "reaches_state attempts answers exp_state \<longleftrightarrow>
     list_ex (\<lambda>r. case r of Response_State current_state \<Rightarrow> exp_state = current_state) (take attempts answers)"

text \<open>What the first test sends; \<open>events\<close> are the events of the loop until the last answer.\<close>

definition consensus_test_sends :: "'p \<Rightarrow> 'p \<Rightarrow> 'p Inbox list" where
  "consensus_test_sends n1 n2 =
     [Inbox_State n1 \<lparr>node_offsets = hash_map [(1, 3), (2, 7), (4, 1)]\<rparr>,
      Inbox_State n2 \<lparr>node_offsets = hash_map [(1, 2), (2, 9)]\<rparr>]"

definition app_calculates_consensus_offset :: "(u8 list \<Rightarrow> u8 list) \<Rightarrow> 'p :: linorder \<Rightarrow> 'p event list \<Rightarrow> bool" where
  "app_calculates_consensus_offset sha256 peer events \<longleftrightarrow>
     passes (run_app sha256 peer events)
       (\<lambda>rs. reaches_state 3 (responses rs)
          \<lparr>current_self_offsets = hash_map [], current_consensus_offset = hash_map [(1, 2), (2, 7)]\<rparr>)"

text \<open>The ticks that are due when the loop starts, on empty maps.\<close>

definition first_ticks :: "'p event list" where
  "first_ticks = [AdvertiseTick [] (\<lambda>_. []) [], EpochTick []]"

definition app_gets_missing_transaction :: "(u8 list \<Rightarrow> u8 list) \<Rightarrow> 'p :: linorder \<Rightarrow> bool" where
  "app_gets_missing_transaction sha256 peer \<longleftrightarrow>
     passes (run_app sha256 peer (first_ticks @
       [Payload [0] (Inbox_NewTransaction (test_tx 5)), Payload [0] (Inbox_NewTransaction (test_tx 0)),
        StateRequest GetState,
        Payload [0] (Inbox_MissingTx [test_tx 3, test_tx 4, test_tx 2, test_tx 0, test_tx 1]),
        StateRequest GetState]))
       (\<lambda>rs. reaches_state 1 (responses rs)
          \<lparr>current_self_offsets = hash_map [(0, 0)], current_consensus_offset = hash_map []\<rparr> \<and>
        reaches_state 3 (drop 1 (responses rs))
          \<lparr>current_self_offsets = hash_map [(0, 5)], current_consensus_offset = hash_map []\<rparr>)"

definition app_gets_missing_transactions_that_smbd_else_requested ::
    "(u8 list \<Rightarrow> u8 list) \<Rightarrow> 'p :: linorder \<Rightarrow> 'p \<Rightarrow> bool" where
  "app_gets_missing_transactions_that_smbd_else_requested sha256 peer rnd_peer \<longleftrightarrow>
     passes (run_app sha256 peer (first_ticks @
       map (\<lambda>k. Payload [0] (Inbox_NewTransaction (test_tx k))) [2, 3, 1, 0, 4] @
        [StateRequest GetState,
         Payload [] (Inbox_RequestMissingTxs rnd_peer [ClosedInterval 1 3])]))
       (\<lambda>rs. reaches_state 3 (responses rs)
          \<lparr>current_self_offsets = hash_map [(0, 4)], current_consensus_offset = hash_map []\<rparr> \<and>
        find (\<lambda>m. case m of Outbox_RequestedTxsForPeer p txs \<Rightarrow> True | _ \<Rightarrow> False) (sent rs) =
          Some (Outbox_RequestedTxsForPeer rnd_peer [test_tx 1, test_tx 2, test_tx 3]))"

definition app_detects_that_its_behind_and_makes_request ::
    "(u8 list \<Rightarrow> u8 list) \<Rightarrow> 'p :: linorder \<Rightarrow> 'p \<Rightarrow> bool" where
  "app_detects_that_its_behind_and_makes_request sha256 peer rnd_peer \<longleftrightarrow>
     passes (run_app sha256 peer (first_ticks @
       [Payload [0] (Inbox_NewTransaction (test_tx 0)), Payload [0] (Inbox_NewTransaction (test_tx 4)),
        StateRequest GetState,
        Payload [0] (Inbox_State rnd_peer \<lparr>node_offsets = hash_map [(0, 8)]\<rparr>),
        AdvertiseTick [0] (\<lambda>r. [peer, rnd_peer]) [rnd_peer]]))
       (\<lambda>rs. reaches_state 3 (responses rs)
          \<lparr>current_self_offsets = hash_map [(0, 0)], current_consensus_offset = hash_map []\<rparr> \<and>
        find (\<lambda>m. case m of Outbox_RequestMissingTxs p is \<Rightarrow> True | _ \<Rightarrow> False) (sent rs) =
          Some (Outbox_RequestMissingTxs rnd_peer [ClosedInterval 1 3, ClosedInterval 5 8]))"

lemmas eval_app = first_ticks_def commit_epoch_if_needed_def LogLineriazer_new_epoch_def Epoch_new_def run_app_def new_test_instance_def App_new_def passes_def reaches_state_def handle_request_def
  endpoint_send_def send_expect_def test_tx_def Params_default_def move_offset_pointer_def move_pointers_def
  advertise_offsets_and_request_missing_def recalculate_consensus_offsets_def offsets_entries_def
  self_delays_def Let_def

lemma missing_tests: "app_gets_missing_transaction sha256 peer"
  by (simp add: app_gets_missing_transaction_def eval_app eval_ids eval_offsets fun_eq_iff)

lemmas eval_collect = sum_ids_count.simps ids_count_def u64_sub_def collect_interval.simps [of _ 1] collect_interval.simps [of _ "numeral k" for k]
  handle_request_missing_def

lemma requested_tests: "app_gets_missing_transactions_that_smbd_else_requested sha256 peer rnd_peer"
  by (simp add: app_gets_missing_transactions_that_smbd_else_requested_def eval_app eval_ids eval_offsets
    eval_collect fun_eq_iff)

lemma behind_tests:
  assumes "peer \<noteq> rnd_peer"
  shows "app_detects_that_its_behind_and_makes_request sha256 peer rnd_peer"
  using assms by (simp add: app_detects_that_its_behind_and_makes_request_def eval_app eval_ids eval_offsets
    eval_scan u64_sub_def fun_eq_iff word_le_nat_alt)

section \<open>The first test under any schedule\<close>

text \<open>What the node has been told by the two others after \<open>k\<close> of the messages.\<close>

definition told :: "'p \<Rightarrow> 'p \<Rightarrow> nat \<Rightarrow> KeyRange \<Rightarrow> 'p \<Rightarrow> KeyOffset option" where
  "told n1 n2 k r q =
     (if q = n2 \<and> 2 \<le> k then hash_map [(1, 2), (2, 9)] r
      else if q = n1 \<and> 1 \<le> k then hash_map [(1, 3), (2, 7), (4, 1)] r else None)"

definition adopted :: "bool \<Rightarrow> KeyRange \<Rightarrow> KeyOffset option" where
  "adopted b = (if b then hash_map [(1, 2), (2, 7)] else Map.empty)"

text \<open>The state after \<open>k\<close> of the messages; \<open>c\<close> says whether the consensus offsets are adopted.\<close>

definition in_test :: "'p \<Rightarrow> 'p \<Rightarrow> nat \<Rightarrow> bool \<Rightarrow> ('p, LogLineriazer) App \<Rightarrow> bool" where
  "in_test n1 n2 k c s \<longleftrightarrow> app_inv sequence s \<and> params s = Params_default \<and> self_offsets s = Map.empty \<and>
     (\<forall>r. offset_of (offsets s) r = told n1 n2 k r) \<and> consensus_offset s = adopted c"

lemma told_consensus:
  assumes "n1 \<noteq> n2" and "orders_ok ro po offs" and told: "\<forall>r. offset_of offs r = told n1 n2 k r" and "k \<le> 2"
    and c: "c = adopted b"
  shows "(case offs r of None \<Rightarrow> c r
     | Some nodes \<Rightarrow> (case consensus_maximum (entries nodes (po r)) 2 of None \<Rightarrow> c r | Some v \<Rightarrow> Some v)) =
    adopted (b \<or> k = 2) r" (is "?l = _")
proof (cases "offs r")
  case None
  then have "offset_of offs r = Map.empty" by (simp add: offset_of_def fun_eq_iff)
  then have "told n1 n2 k r q = None" for q using told by simp
  from this [of n1] this [of n2] show ?thesis
    using None \<open>k \<le> 2\<close> \<open>n1 \<noteq> n2\<close> by (auto simp: c told_def adopted_def split: if_splits)
next
  case (Some nodes)
  have nodes: "nodes = told n1 n2 k r" using told [rule_format, of r] Some by (auto simp: offset_of_def fun_eq_iff)
  have ord: "key_order nodes (po r)" using assms(2) Some by (simp add: orders_ok_def)
  consider "k = 2" "r = 1" | "k = 2" "r = 2" | "k < 2 \<or> r \<notin> {1, 2}" using \<open>k \<le> 2\<close> by fastforce
  then show ?thesis
  proof cases
    case 1
    then have n: "nodes = [n1 \<mapsto> 3, n2 \<mapsto> 2]" by (auto simp: nodes told_def fun_eq_iff)
    have "consensus_maximum (entries nodes (po r)) 2 = Some 2"
      using order2 [OF assms(1) ord [unfolded n]] assms(1) by (auto simp: n consensus_maximum_def)
    then have "?l = Some (if r = 1 then 2 else 7)" using 1 unfolding Some by simp
    then show ?thesis using 1 by (simp add: adopted_def)
  next
    case 2
    then have n: "nodes = [n1 \<mapsto> 7, n2 \<mapsto> 9]" by (auto simp: nodes told_def fun_eq_iff)
    have "consensus_maximum (entries nodes (po r)) 2 = Some 7"
      using order2 [OF assms(1) ord [unfolded n]] assms(1) by (auto simp: n consensus_maximum_def)
    then have "?l = Some (if r = 1 then 2 else 7)" using 2 unfolding Some by simp
    then show ?thesis using 2 by (simp add: adopted_def)
  next
    case 3
    then have "dom nodes \<subseteq> {n1}" by (auto simp: nodes told_def split: if_splits)
    then have "card (dom nodes) < 2" using card_mono [of "{n1}" "dom nodes"] by simp
    then have "consensus_maximum (entries nodes (po r)) 2 = None"
      using length_entries [OF ord] by (simp add: consensus_maximum_eq_None)
    then show ?thesis using 3 \<open>k \<le> 2\<close> by (auto simp: Some c adopted_def)
  qed
qed

text \<open>One event of a schedule; the messages come in the order they are sent.\<close>

fun messages :: "'p event list \<Rightarrow> 'p Inbox list" where
  "messages [] = []"
| "messages (Payload ks msg # es) = msg # messages es"
| "messages (_ # es) = messages es"

lemma test_tick:
  assumes "n1 \<noteq> n2" and at: "in_test n1 n2 k c s" and "k \<le> 2" and ok: "event_ok (AdvertiseTick ro po dos) s"
  shows "\<exists>s' out. app_step LogLineriazer_new_epoch sha256 True (AdvertiseTick ro po dos) s = Some (Inr (s', out, [])) \<and>
    in_test n1 n2 k (c \<or> k = 2) s'"
proof -
  let ?s' = "recalculate_consensus_offsets ro po s"
  have inv: "app_inv sequence s" and prm: "params s = Params_default" and told: "\<forall>r. offset_of (offsets s) r = told n1 n2 k r"
    and co: "consensus_offset s = adopted c" using at by (simp_all add: in_test_def)
  have ord: "orders_ok ro po (offsets s)" using ok by simp
  then have ro: "key_order (offsets s) ro" by (simp add: orders_ok_def)
  obtain reqs where adv: "advertise_offsets_and_request_missing True ro po dos s = Inr (?s', advertised s reqs)"
    "app_inv sequence ?s'"
    using advertise_ok [OF inv ord, of dos] ok by auto
  have "consensus_offset ?s' = adopted (c \<or> k = 2)"
    by (rule ext) (simp only: recalculate_consensus_offset [OF ro] prm Params_default_def Params.select_convs
        told_consensus [OF assms(1) ord told assms(3) co])
  then have "in_test n1 n2 k (c \<or> k = 2) ?s'"
    using at adv(2) by (simp add: in_test_def recalculate_consensus_offsets_def)
  with adv(1) show ?thesis by simp
qed

lemma test_epoch:
  assumes at: "in_test n1 n2 k c s" and ok: "event_ok (EpochTick co) s"
  shows "\<exists>s'. app_step LogLineriazer_new_epoch sha256 True (EpochTick co) s = Some (Inr (s', [], [])) \<and>
    in_test n1 n2 k c s'"
proof -
  have "app_inv sequence s" "key_order (consensus_offset s) co" using assms by (simp_all add: in_test_def)
  from log_lin.commit_returns [OF this, of sha256] obtain lin where
    "commit_epoch_if_needed LogLineriazer_new_epoch sha256 co s = Inr (committed sha256 co lin s)"
    "app_inv sequence (committed sha256 co lin s)" by blast
  then show ?thesis using at by (simp add: in_test_def committed_def)
qed

lemma test_message:
  assumes "n1 \<noteq> n2" and at: "in_test n1 n2 k c s" and ok: "event_ok (Payload ks msg) s" and "k < 2"
    and msg: "msg = consensus_test_sends n1 n2 ! k"
  shows "\<exists>s'. app_step LogLineriazer_new_epoch sha256 True (Payload ks msg) s = Some (Inr (s', [], [])) \<and>
    in_test n1 n2 (Suc k) c s'"
proof -
  let ?p = "if k = 0 then n1 else n2"
  let ?st = "if k = 0 then \<lparr>node_offsets = hash_map [(1, 3), (2, 7), (4, 1)]\<rparr> else \<lparr>node_offsets = hash_map [(1, 2), (2, 9)]\<rparr>"
  have k: "k = 0 \<or> k = 1" using \<open>k < 2\<close> by auto
  then have m: "msg = Inbox_State ?p ?st" by (auto simp: msg consensus_test_sends_def)
  have inv: "app_inv sequence s" using at by (simp add: in_test_def)
  have "payload_ok ks (Inbox_State ?p ?st) s" using ok unfolding m by simp
  from handle_state [OF inv this, of True] obtain s' where
    s': "handle_inbox_message True ks msg s = Some (Inr (s', []))" "app_inv sequence s'" "s' = s\<lparr>offsets := offsets s'\<rparr>"
      "\<forall>r q. offset_of (offsets s') r q =
         (if q = ?p then case node_offsets ?st r of Some v \<Rightarrow> Some v | None \<Rightarrow> offset_of (offsets s) r q
          else offset_of (offsets s) r q)"
    unfolding m by blast
  have frame: "params s' = params s" "self_offsets s' = self_offsets s" "consensus_offset s' = consensus_offset s"
    by (subst s'(3), simp)+
  have "offset_of (offsets s') r = told n1 n2 (Suc k) r" for r
    using k at assms(1) by (auto simp: s'(4) in_test_def told_def fun_eq_iff split: option.split)
  then have "in_test n1 n2 (Suc k) c s'" using at s'(2) frame by (simp add: in_test_def)
  with s'(1) show ?thesis by (simp del: handle_inbox_message.simps)
qed

lemma in_test_new: "in_test n1 n2 0 False (new_test_instance peer)"
  using app_inv_new [of Params_default peer]
  by (auto simp: in_test_def new_test_instance_def Params_default_def App_new_def told_def adopted_def offset_of_def)

text \<open>For each request for the state, whether the offsets are adopted when it is served.\<close>

fun served :: "nat \<Rightarrow> bool \<Rightarrow> 'p event list \<Rightarrow> bool list" where
  "served k c [] = []"
| "served k c (AdvertiseTick ro po dos # es) = served k (c \<or> k = 2) es"
| "served k c (StateRequest req # es) = c # served k c es"
| "served k c (Payload ks msg # es) = served (Suc k) c es"
| "served k c (_ # es) = served k c es"

definition state_answer :: "bool \<Rightarrow> Response" where
  "state_answer b = Response_State \<lparr>current_self_offsets = Map.empty, current_consensus_offset = adopted b\<rparr>"

lemma test_run:
  assumes "n1 \<noteq> n2"
  shows "in_test n1 n2 k c (app rs) \<Longrightarrow> messages es @ rest = drop k (consensus_test_sends n1 n2) \<Longrightarrow> k \<le> 2 \<Longrightarrow>
    Shutdown \<notin> set es \<Longrightarrow> events_ok LogLineriazer_new_epoch sha256 es (app rs) \<Longrightarrow>
    \<exists>rs'. loop_until_shutdown LogLineriazer_new_epoch sha256 True es rs = Some (Inr rs') \<and>
      responses rs' = responses rs @ map state_answer (served k c es)"
proof (induction es arbitrary: k c rs)
  case Nil
  then show ?case by simp
next
  case (Cons e es)
  note at = Cons.prems(1) and k = Cons.prems(3)
  have ok: "event_ok e (app rs)" using Cons.prems(5) by simp
  have next_ok: "\<exists>rs'. loop_until_shutdown LogLineriazer_new_epoch sha256 True (e # es) rs = Some (Inr rs') \<and>
      responses rs' = responses rs @ resp @ map state_answer (served k' c' es)"
    if "app_step LogLineriazer_new_epoch sha256 True e (app rs) = Some (Inr (s', out, resp))" "in_test n1 n2 k' c' s'"
      "messages es @ rest = drop k' (consensus_test_sends n1 n2)" "k' \<le> 2" for s' out resp k' c'
    using Cons.IH [of k' c' "rs\<lparr>app := s', sent := sent rs @ out, responses := responses rs @ resp\<rparr>"] that
      Cons.prems(4,5) by (force simp: loop_Cons)
  show ?case
  proof (cases e)
    case (AdvertiseTick ro po dos)
    obtain s' out where "app_step LogLineriazer_new_epoch sha256 True e (app rs) = Some (Inr (s', out, []))"
      "in_test n1 n2 k (c \<or> k = 2) s'"
      using test_tick [OF assms at k ok [unfolded AdvertiseTick]] unfolding AdvertiseTick by blast
    from next_ok [OF this] show ?thesis using Cons.prems(2) k by (simp add: AdvertiseTick)
  next
    case (EpochTick co)
    obtain s' where "app_step LogLineriazer_new_epoch sha256 True e (app rs) = Some (Inr (s', [], []))" "in_test n1 n2 k c s'"
      using test_epoch [OF at ok [unfolded EpochTick]] unfolding EpochTick by blast
    from next_ok [OF this] show ?thesis using Cons.prems(2) k by (simp add: EpochTick)
  next
    case (StateRequest req)
    have "app_step LogLineriazer_new_epoch sha256 True e (app rs) = Some (Inr (app rs, [], [state_answer c]))"
      using at by (cases req) (simp add: StateRequest handle_request_def state_answer_def in_test_def)
    from next_ok [OF this at] show ?thesis using Cons.prems(2) k by (simp add: StateRequest)
  next
    case (Payload ks msg)
    have lt: "k < 2" and msg: "msg = consensus_test_sends n1 n2 ! k"
      and rest: "messages es @ rest = drop (Suc k) (consensus_test_sends n1 n2)"
      using Cons.prems(2) k by (auto simp: Payload consensus_test_sends_def le_Suc_eq numeral_2_eq_2)
    obtain s' where "app_step LogLineriazer_new_epoch sha256 True e (app rs) = Some (Inr (s', [], []))" "in_test n1 n2 (Suc k) c s'"
      using test_message [OF assms at ok [unfolded Payload] lt msg] unfolding Payload by blast
    from next_ok [OF this rest] show ?thesis using lt by (simp add: Payload)
  qed (use Cons.prems(4) in simp)
qed

text \<open>A tick after the second message and before a request.\<close>

definition late_tick :: "nat \<Rightarrow> 'p event list \<Rightarrow> bool" where
  "late_tick k es \<longleftrightarrow> (\<exists>us ro po dos vs req. es = us @ AdvertiseTick ro po dos # vs \<and>
     k + length (messages us) = 2 \<and> StateRequest req \<in> set vs)"

lemma length_served: "length (served k c es) = length (filter (\<lambda>e. e = StateRequest GetState) es)"
proof (induction k c es rule: served.induct)
  case (3 k c req es)
  then show ?case by (cases req) simp
qed simp_all

lemma messages_append: "messages (es @ es') = messages es @ messages es'"
  by (induction es rule: messages.induct) simp_all

lemma messages_Cons: "messages (e # es) = messages [e] @ messages es"
  by (cases e) simp_all

lemma late_tick_Cons:
  "late_tick k (e # es) \<longleftrightarrow>
     (\<exists>ro po dos req. e = AdvertiseTick ro po dos \<and> k = 2 \<and> StateRequest req \<in> set es) \<or>
     late_tick (k + length (messages [e])) es" (is "?l \<longleftrightarrow> ?now \<or> ?later")
proof
  assume ?l
  then obtain us ro po dos vs req where e: "e # es = us @ AdvertiseTick ro po dos # vs"
    "k + length (messages us) = 2" "StateRequest req \<in> set vs" unfolding late_tick_def by blast
  show "?now \<or> ?later"
  proof (cases us)
    case Nil
    then show ?thesis using e by auto
  next
    case (Cons e' us')
    then have "es = us' @ AdvertiseTick ro po dos # vs" "k + length (messages [e]) + length (messages us') = 2"
      using e(1,2) messages_Cons [of e us'] by auto
    then show ?thesis using e(3) unfolding late_tick_def by blast
  qed
next
  assume "?now \<or> ?later"
  then show ?l
  proof
    assume ?now
    then obtain ro po dos req where "e # es = [] @ AdvertiseTick ro po dos # es" "k + length (messages ([] :: 'a event list)) = 2"
      "StateRequest req \<in> set es" by auto
    then show ?l unfolding late_tick_def by blast
  next
    assume ?later
    then obtain us ro po dos vs req where e: "e # es = (e # us) @ AdvertiseTick ro po dos # vs"
      "k + length (messages [e]) + length (messages us) = 2" "StateRequest req \<in> set vs"
      unfolding late_tick_def by auto
    then show ?l using messages_Cons [of e us] unfolding late_tick_def
      by (intro exI [of _ "e # us"] exI [of _ ro] exI [of _ po] exI [of _ dos] exI [of _ vs] exI [of _ req]) simp
  qed
qed

lemma served_adopted:
  "True \<in> set (served k c es) \<longleftrightarrow> c \<and> (\<exists>req. StateRequest req \<in> set es) \<or> late_tick k es"
proof (induction es arbitrary: k c)
  case Nil
  show ?case by (simp add: late_tick_def)
next
  case (Cons e es)
  show ?case unfolding late_tick_Cons by (cases e) (auto simp: Cons.IH)
qed

text \<open>
  C39: whatever the runtime does (any order of the branches of the loop
  and of the hash maps, the messages handled in the order they are sent or not yet handled), the run of the first test
  does not panic, and the test passes exactly if the timer of the advertisements goes off
  after both messages have been handled and before the last request for the state. So it fails whenever the tick
  that is due at once is served before the messages: the next one is due after five seconds, and the test gives
  up after three requests five milliseconds apart.
\<close>

theorem consensus_test_needs_late_tick:
  assumes "n1 \<noteq> n2" and "messages es @ rest = consensus_test_sends n1 n2" and "Shutdown \<notin> set es"
    and "length (filter (\<lambda>e. e = StateRequest GetState) es) \<le> 3"
    and "events_ok LogLineriazer_new_epoch sha256 es (new_test_instance peer)"
  shows "(\<exists>rs. run_app sha256 peer es = Some (Inr rs)) \<and>
    (app_calculates_consensus_offset sha256 peer es \<longleftrightarrow>
      (\<exists>us ro po dos vs. es = us @ AdvertiseTick ro po dos # vs \<and> messages us = consensus_test_sends n1 n2 \<and>
         StateRequest GetState \<in> set vs))"
proof -
  let ?rs = "\<lparr>app = new_test_instance peer, sent = [], responses = []\<rparr>"
  have new: "in_test n1 n2 0 False (app ?rs)" by (simp add: in_test_new)
  obtain rs where rs: "run_app sha256 peer es = Some (Inr rs)" "responses rs = map state_answer (served 0 False es)"
    using test_run [OF assms(1) new, of es rest sha256] assms(2,3,5) by (auto simp: run_app_def)
  have "app_calculates_consensus_offset sha256 peer es \<longleftrightarrow> True \<in> set (served 0 False es)"
    using assms(4) length_served [of 0 False es]
    by (auto simp: app_calculates_consensus_offset_def passes_def rs reaches_state_def list_ex_iff state_answer_def adopted_def
        fun_eq_iff split: if_splits)
  also have "\<dots> \<longleftrightarrow> late_tick 0 es" by (simp add: served_adopted)
  also have "\<dots> \<longleftrightarrow> (\<exists>us ro po dos vs. es = us @ AdvertiseTick ro po dos # vs \<and>
      messages us = consensus_test_sends n1 n2 \<and> StateRequest GetState \<in> set vs)"
  proof -
    have "length (messages us) = 2 \<longleftrightarrow> messages us = consensus_test_sends n1 n2"
      if "es = us @ AdvertiseTick ro po dos # vs" for us ro po dos vs
    proof -
      have "consensus_test_sends n1 n2 = messages us @ messages vs @ rest"
        using assms(2) by (simp add: that messages_append)
      then show ?thesis by (cases "messages us"; cases "tl (messages us)") (auto simp: consensus_test_sends_def)
    qed
    moreover have "req = GetState" for req by (cases req) simp
    ultimately show ?thesis unfolding late_tick_def by (metis add_0)
  qed
  finally show ?thesis using rs(1) by blast
qed

text \<open>
  A schedule in which the first ticks are served between the messages, for which the test fails, and one in which
  they come after them, for which it passes.
\<close>

definition early_schedule :: "nat event list" where
  "early_schedule = first_ticks @
     [Payload [1, 2, 4] (consensus_test_sends 1 2 ! 0), StateRequest GetState,
      Payload [1, 2] (consensus_test_sends 1 2 ! 1), StateRequest GetState, StateRequest GetState]"

definition late_schedule :: "nat event list" where
  "late_schedule = [Payload [1, 2, 4] (consensus_test_sends 1 2 ! 0), Payload [1, 2] (consensus_test_sends 1 2 ! 1),
     AdvertiseTick [1, 2, 4] (\<lambda>r. if r = 4 then [1] else [1, 2]) [1, 2], StateRequest GetState]"

lemmas eval_schedule = first_ticks_def consensus_test_sends_def new_test_instance_def App_new_def Params_default_def

lemma early_ok: "events_ok LogLineriazer_new_epoch sha256 early_schedule (new_test_instance 0)"
  by (simp add: early_schedule_def eval_schedule eval_app eval_offsets eval_ids key_order_def valid_offsets_def valid_pos_def
    orders_ok_def insert_commute)

text \<open>The state when the tick of the second comes.\<close>

definition before_tick :: "(nat, LogLineriazer) App" where
  "before_tick = (new_test_instance 0)\<lparr>offsets := [4 \<mapsto> [1 \<mapsto> 1], 1 \<mapsto> [1 \<mapsto> 3, 2 \<mapsto> 2], 2 \<mapsto> [1 \<mapsto> 7, 2 \<mapsto> 9]]\<rparr>"

lemma tick_ok: "event_ok (AdvertiseTick [1, 2, 4] (\<lambda>r. if r = 4 then [1] else [1, 2]) [1, 2]) before_tick"
proof -
  have "orders_ok [1, 2, 4] (\<lambda>r. if r = 4 then [1] else [1, 2]) (offsets before_tick)"
    by (auto simp: before_tick_def orders_ok_def key_order_def split: if_splits)
  moreover have "dom m = {1, 2}"
    if "self_delays (transactions before_tick) (self_offsets before_tick)
      (offsets_entries [1, 2, 4] (\<lambda>r. if r = 4 then [1] else [1, 2]) (offsets before_tick)) = Inr m" for m
    using that by (simp add: before_tick_def eval_schedule eval_app eval_offsets eval_ids eval_scan u64_sub_def word_le_nat_alt)
      (auto split: if_splits)
  ultimately show ?thesis by (auto simp: key_order_def)
qed

lemma late_ok: "events_ok LogLineriazer_new_epoch sha256 late_schedule (new_test_instance 0)"
proof -
  let ?s1 = "(new_test_instance 0)\<lparr>offsets := [1 \<mapsto> [1 \<mapsto> 3], 2 \<mapsto> [1 \<mapsto> 7], 4 \<mapsto> [1 \<mapsto> 1]]\<rparr> :: (nat, LogLineriazer) App"
  let ?m1 = "Payload [1, 2, 4] (consensus_test_sends (1 :: nat) 2 ! 0)"
  let ?m2 = "Payload [1, 2] (consensus_test_sends (1 :: nat) 2 ! 1)"
  have 1: "app_step LogLineriazer_new_epoch sha256 True ?m1 (new_test_instance 0) = Some (Inr (?s1, [], []))"
    by (simp add: eval_schedule)
  have 2: "app_step LogLineriazer_new_epoch sha256 True ?m2 ?s1 = Some (Inr (before_tick, [], []))"
    by (simp add: eval_schedule before_tick_def fun_eq_iff)
  have "event_ok ?m1 (new_test_instance 0)" "event_ok ?m2 ?s1"
    by (simp_all add: eval_schedule key_order_def valid_offsets_def valid_pos_def insert_commute)
  then show ?thesis
    unfolding late_schedule_def events_ok.simps 1 2 option.case sum.case prod.case
    using tick_ok by (auto split: option.split sum.split)
qed

theorem consensus_test_needs_late_tick_witness:
  "\<not> app_calculates_consensus_offset (take 32) 0 early_schedule \<and> app_calculates_consensus_offset (take 32) 0 late_schedule"
proof -
  have m: "messages early_schedule @ [] = consensus_test_sends 1 2" "messages late_schedule @ [] = consensus_test_sends 1 2"
    by (simp_all add: early_schedule_def late_schedule_def eval_schedule)
  have sd: "Shutdown \<notin> set early_schedule" "Shutdown \<notin> set late_schedule"
    by (simp_all add: early_schedule_def late_schedule_def eval_schedule)
  have len: "length (filter (\<lambda>e. e = StateRequest GetState) early_schedule) \<le> 3"
    "length (filter (\<lambda>e. e = StateRequest GetState) late_schedule) \<le> 3"
    by (simp_all add: early_schedule_def late_schedule_def eval_schedule)
  have "\<not> (\<exists>us ro po dos vs. early_schedule = us @ AdvertiseTick ro po dos # vs \<and>
      messages us = consensus_test_sends 1 2 \<and> StateRequest GetState \<in> set vs)"
    by (auto simp: early_schedule_def eval_schedule Cons_eq_append_conv)
  moreover have "\<exists>us ro po dos vs. late_schedule = us @ AdvertiseTick ro po dos # vs \<and>
      messages us = consensus_test_sends 1 2 \<and> StateRequest GetState \<in> set vs"
    by (intro exI [of _ "take 2 late_schedule"] exI [of _ "[1, 2, 4]"] exI [of _ "\<lambda>r. if r = 4 then [1] else [1, 2]"]
        exI [of _ "[1, 2]"] exI [of _ "[StateRequest GetState]"]) (simp add: late_schedule_def eval_schedule)
  ultimately show ?thesis
    using consensus_test_needs_late_tick [OF _ m(1) sd(1) len(1) early_ok, of "take 32"]
      consensus_test_needs_late_tick [OF _ m(2) sd(2) len(2) late_ok, of "take 32"] by simp
qed

end
