(* ===== verification/Integration_Tests.thy ===== *)
theory Integration_Tests
  imports System_Progress Unit_Tests Stack
begin

text \<open>
  The integration tests (\<open>tests/integration/src\<close>): three nodes and a gateway that sends the transactions
  1 and 0, in \<open>basic.rs\<close> to all nodes, in \<open>request_missed_txs.rs\<close> to one. They then wait for every node to
  answer that its own offset and the consensus offset of range 0 are 1. Over real connections this depends on timing;
  what is shown here is that from every state these systems can reach there is a continuation in which the tests pass.
\<close>

section \<open>The tests\<close>

definition test_params :: Params where
  "test_params = set_advertise_period Params_default 500"

definition test_gateway ::
    "('k, 'p) libp2p \<Rightarrow> (string \<Rightarrow> 'a option) \<Rightarrow> ('a \<Rightarrow> bool) \<Rightarrow> string list \<Rightarrow>
      ('p, 'c, 'a) gw_command list \<times> (panic + GMRequest list)" where
  "test_gateway lib parse can_dial node_urls =
     (let (cs, gw) = Gateway_new lib parse can_dial node_urls in
      (cs, case gw of
        Inl p \<Rightarrow> Inl p
      | Inr (Inl e) \<Rightarrow> Inl UnwrapFailed
      | Inr (Inr gw) \<Rightarrow> rbind (start_in_background gw) (\<lambda>(layer, gw).
          let (gw, _) = send_request True (GM_NewTransaction (Transaction 1 Created)) gw;
              (gw, _) = send_request True (GM_NewTransaction (Transaction 0 Created)) gw
          in Inr (requests gw))))"

text \<open>The three nodes: what \<open>libp2p\<close> answers each, addresses of the others, own address.\<close>

definition three_nodes :: "'l \<Rightarrow> 'l \<Rightarrow> 'l \<Rightarrow> ('l \<times> string list \<times> string) list" where
  "three_nodes l0 l1 l2 =
     [(l0, [''/ip4/127.0.0.1/tcp/3001'', ''/ip4/127.0.0.1/tcp/3002''], ''/ip4/0.0.0.0/tcp/3000''),
      (l1, [''/dns4/localhost/tcp/3000'', ''/dns4/localhost/tcp/3002''], ''/ip4/0.0.0.0/tcp/3001''),
      (l2, [''/ip4/127.0.0.1/tcp/3000'', ''/ip4/127.0.0.1/tcp/3001''], ''/ip4/0.0.0.0/tcp/3002'')]"

fun start_nodes ::
    "(string \<Rightarrow> 'a option) \<Rightarrow> ('a \<Rightarrow> bool) \<Rightarrow> ('a \<Rightarrow> bool) \<Rightarrow> (('k, 'p) libp2p \<times> string list \<times> string) list \<Rightarrow>
      ('p, 'b, 'c, 'a) command list \<times> (panic + ('p, LogLineriazer) App list)"
where
  "start_nodes parse can_listen can_dial [] = ([], Inr [])"
| "start_nodes parse can_listen can_dial ((lib, node_urls, self_url) # ns) =
     (let (cs, res) = create_stack lib parse can_listen can_dial node_urls self_url test_params in
      case res of
        Inl p \<Rightarrow> (cs, Inl p)
      | Inr (Inl e) \<Rightarrow> (cs, Inl UnwrapFailed)
      | Inr (Inr (layer, (endpoint, node), state_invoker)) \<Rightarrow>
          (let (cs', res') = start_nodes parse can_listen can_dial ns in
           (cs @ cs', rbind res' (\<lambda>nodes. Inr (node # nodes)))))"

text \<open>Each test up to its checks: the nodes that run, and what the gateway sends.\<close>

definition basic ::
    "(string \<Rightarrow> 'a option) \<Rightarrow> ('a \<Rightarrow> bool) \<Rightarrow> ('a \<Rightarrow> bool) \<Rightarrow>
      ('k, 'p) libp2p \<Rightarrow> ('k, 'p) libp2p \<Rightarrow> ('k, 'p) libp2p \<Rightarrow> ('k, 'p) libp2p \<Rightarrow>
      ('p, 'b, 'c, 'a) command list \<times> ('p, 'c, 'a) gw_command list \<times>
      (panic + ('p, LogLineriazer) App list \<times> GMRequest list)"
where
  "basic parse can_listen can_dial l0 l1 l2 lg =
     (let (cs, res) = start_nodes parse can_listen can_dial (three_nodes l0 l1 l2);
          (gcs, gw) = test_gateway lg parse can_dial
            [''/ip4/127.0.0.1/tcp/3000'', ''/ip4/127.0.0.1/tcp/3001'', ''/ip4/127.0.0.1/tcp/3002''] in
      case res of
        Inl p \<Rightarrow> (cs, [], Inl p)
      | Inr nodes \<Rightarrow> (cs, gcs, rbind gw (\<lambda>reqs. Inr (nodes, reqs))))"

definition request_missed_txs ::
    "(string \<Rightarrow> 'a option) \<Rightarrow> ('a \<Rightarrow> bool) \<Rightarrow> ('a \<Rightarrow> bool) \<Rightarrow>
      ('k, 'p) libp2p \<Rightarrow> ('k, 'p) libp2p \<Rightarrow> ('k, 'p) libp2p \<Rightarrow> ('k, 'p) libp2p \<Rightarrow>
      ('p, 'b, 'c, 'a) command list \<times> ('p, 'c, 'a) gw_command list \<times>
      (panic + ('p, LogLineriazer) App list \<times> GMRequest list)"
where
  "request_missed_txs parse can_listen can_dial l0 l1 l2 lg =
     (let (cs, res) = start_nodes parse can_listen can_dial (three_nodes l0 l1 l2);
          (gcs, gw) = test_gateway lg parse can_dial [''/ip4/127.0.0.1/tcp/3000''] in
      case res of
        Inl p \<Rightarrow> (cs, [], Inl p)
      | Inr nodes \<Rightarrow> (cs, gcs, rbind gw (\<lambda>reqs. Inr (nodes, reqs))))"

text \<open>The checks, of the nodes at one moment.\<close>

definition get_state_and_compare :: "('p, 'l) App \<Rightarrow> CurrentOffsets \<Rightarrow> bool" where
  "get_state_and_compare node state = (case handle_request GetState node of Response_State app_state \<Rightarrow> app_state = state)"

definition desired_state :: CurrentOffsets where
  "desired_state = \<lparr>current_self_offsets = hash_map [(0, 1)], current_consensus_offset = hash_map [(0, 1)]\<rparr>"

definition nodes_correct :: "('p, 'l) App list \<Rightarrow> bool" where
  "nodes_correct nodes \<longleftrightarrow> list_all (\<lambda>node. get_state_and_compare node desired_state) nodes"

text \<open>
  The three attempts, given by the nodes as each of them finds them: the first that finds all nodes
  correct ends the loop, and if none does an assertion after it fails.
\<close>

definition check_results :: "('p, 'l) App list list \<Rightarrow> bool" where
  "check_results attempts \<longleftrightarrow> list_ex nodes_correct (take 3 attempts)"

lemma check_last: "nodes_correct nodes \<Longrightarrow> length earlier < 3 \<Longrightarrow> check_results (earlier @ [nodes])"
  by (simp add: check_results_def)

section \<open>Steps among the nodes\<close>

lemma inner_step_from:
  assumes "inner_step to_vec from_slice sha256 c c'" and "cluster_inv to_vec n c" and "all_from G c"
  shows "all_from G c'"
  using assms(1)
proof (cases rule: inner_step.cases)
  case (app p e s' out resp)
  then show ?thesis using app_step_from [OF assms(2,3) app(2,3)] by simp
next
  case (net p e st' msgs commands)
  have "\<And>g t ch. e = From_Swarm (RequestResponse (RR_Message g (RR_Request (GM_NewTransaction t) ch))) \<Longrightarrow> t \<in> G"
    using net(4) by auto
  from net_step_from [OF assms(2,3) net(2) this net(3)] show ?thesis by (simp add: net(1))
qed

lemma inner_step_more:
  assumes "inner_step to_vec from_slice sha256 c c'" and inv: "cluster_inv to_vec n c"
  shows "Cluster.more (stores c) (stores c')"
  using assms(1)
proof (cases rule: inner_step.cases)
  case (app p e s' out resp)
  have "app_inv sequence (node_app c p)" using cluster_invD(1) [OF inv] by (simp add: node_inv_def)
  from log_lin.app_step_ok [OF this event_ok_cluster [OF inv app(2)], of sha256] app(3)
  show ?thesis by (auto simp: effects_def grows_def Cluster.more_def stores_def app(1))
qed (simp add: Cluster.more_def stores_def)

definition test_ok ::
    "('p GossipMessage \<Rightarrow> 'b option) \<Rightarrow> ('b \<Rightarrow> 'p GossipMessage option) \<Rightarrow> ('p, 'b, 'c, 'a) cluster \<Rightarrow> bool" where
  "test_ok to_vec from_slice c \<longleftrightarrow> codec to_vec from_slice \<and> cluster_inv to_vec 2 c \<and>
     all_from {Transaction 0 Created, Transaction 1 Created} c"

lemma inner_steps_test_ok:
  assumes "(inner_step to_vec from_slice sha256)\<^sup>*\<^sup>* c c'" and "test_ok to_vec from_slice c"
  shows "test_ok to_vec from_slice c' \<and> Cluster.more (stores c) (stores c')"
  using assms
proof (induction rule: rtranclp_induct)
  case (step c1 c2)
  then have ok: "test_ok to_vec from_slice c1" and m: "Cluster.more (stores c) (stores c1)" by blast+
  then have "test_ok to_vec from_slice c2"
    using inner_step_inv [OF step.hyps(2)] inner_step_from [OF step.hyps(2)] unfolding test_ok_def by blast
  moreover have "Cluster.more (stores c1) (stores c2)"
    using inner_step_more [OF step.hyps(2)] ok unfolding test_ok_def by blast
  ultimately show ?case using m by (fastforce simp: Cluster.more_def)
qed (simp add: Cluster.more_def)

section \<open>Two transactions\<close>

lemma small_store: "test_ok to_vec from_slice c \<Longrightarrow> dom (stores c q) \<subseteq> {0, 1}"
proof
  fix k
  assume ok: "test_ok to_vec from_slice c" and "k \<in> dom (stores c q)"
  then obtain t where t: "stores c q k = Some t" by blast
  then have "t \<in> {Transaction 0 Created, Transaction 1 Created}"
    using ok unfolding test_ok_def all_from_def ran_def by blast
  moreover have "tx_id t = k"
    using ok t cluster_invD(1) [of to_vec 2 c q]
    by (simp add: test_ok_def node_inv_def app_inv_def store_inv_def tx_map_wf_def stores_def)
  ultimately show "k \<in> {0, 1}" by auto
qed

lemma small_free: "test_ok to_vec from_slice c \<Longrightarrow> \<not> block_full (stores c q) r"
  by (rule not_full [OF _ _ small_store]) simp_all

lemma small_offset:
  assumes "test_ok to_vec from_slice c" and "holds_upto (stores c q) r v" and "valid_pos r v"
  shows "r = 0 \<and> unat v \<le> 1"
proof -
  have "has_tx (stores c q) (u64 (unat r * 1073741824 + unat v))" using assms(2) by (simp add: holds_upto_def)
  then have "u64 (unat r * 1073741824 + unat v) \<in> {0, 1}"
    using small_store [OF assms(1)] unfolding has_tx_def by blast
  moreover have "unat (u64 (unat r * 1073741824 + unat v)) = unat r * 1073741824 + unat v"
    using assms(3) by (simp add: valid_pos_def)
  ultimately have "unat r * 1073741824 + unat v \<le> 1" by auto
  then have "unat r = 0" "unat v \<le> 1" by linarith+
  then show ?thesis by (simp add: unat_eq_zero)
qed

lemma own_entry: "node_inv T n p s \<Longrightarrow> offset_of (offsets s) r p = self_offsets s r"
  unfolding node_inv_def app_inv_def table_inv_def by metis

lemma known_small:
  assumes ok: "test_ok to_vec from_slice c"
  shows "offset_of (offsets (node_app c p)) r q = Some v \<Longrightarrow> r = 0 \<and> unat v \<le> 1"
    and "self_offsets (node_app c p) r = Some v \<Longrightarrow> r = 0 \<and> unat v \<le> 1"
    and "consensus_offset (node_app c p) r = Some v \<Longrightarrow> r = 0 \<and> unat v \<le> 1"
proof -
  have node: "node_inv (stores c) 2 p (node_app c p)" using ok cluster_invD(1) by (auto simp: test_ok_def)
  show *: "r = 0 \<and> unat v \<le> 1" if "offset_of (offsets (node_app c p)) r q = Some v" for q
    using that node small_offset [OF ok, of q r v] by (simp add: node_inv_def app_inv_def table_inv_def table_ok_def)
  from * show "r = 0 \<and> unat v \<le> 1" if "self_offsets (node_app c p) r = Some v"
    using that own_entry [OF node] by metis
  assume v: "consensus_offset (node_app c p) r = Some v"
  then have "quorum (stores c) 2 r v" using node by (simp add: node_inv_def)
  then obtain Q where Q: "finite Q" "2 \<le> card Q" "\<forall>q \<in> Q. holds_upto (stores c q) r v" by (auto simp: quorum_def)
  then obtain q where "q \<in> Q" by fastforce
  moreover have "valid_pos r v" using node v by (simp add: node_inv_def app_inv_def log_inv_def valid_offsets_def)
  ultimately show "r = 0 \<and> unat v \<le> 1" using Q(3) small_offset [OF ok] by blast
qed

lemma small_map:
  fixes m :: "KeyRange \<rightharpoonup> KeyOffset"
  assumes "\<And>r v. m r = Some v \<Longrightarrow> r = 0 \<and> unat v \<le> 1" and "m 0 = Some w" and "1 \<le> w"
  shows "m = [0 \<mapsto> (1 :: u64)]"
proof
  fix r
  have "unat w \<le> 1" "1 \<le> unat w" using assms(1) [OF assms(2)] assms(3) by (simp_all add: word_le_nat_alt)
  then have "w = 1" by (intro u64_eqI) simp
  then show "m r = [0 \<mapsto> 1] r" using assms(1,2) by (cases "m r") (auto, force)
qed

definition has_both :: "tx_map \<Rightarrow> bool" where
  "has_both txs \<longleftrightarrow> has_tx txs 0 \<and> has_tx txs 1"

lemma has_both_holds: "has_both txs \<longleftrightarrow> holds_upto txs 0 1"
  by (auto simp: has_both_def holds_upto_def le_Suc_eq u64_def)

lemma has_both_own:
  assumes ok: "test_ok to_vec from_slice c" and "has_both (stores c p)"
  shows "self_offsets (node_app c p) = [0 \<mapsto> 1]"
proof -
  have node: "node_inv (stores c) 2 p (node_app c p)" using ok cluster_invD(1) by (auto simp: test_ok_def)
  then have "offsets_exact (self_offsets (node_app c p)) (stores c p)" "tx_map_wf (stores c p)"
    using small_free [OF ok] by (simp_all add: node_inv_def exact_inv_def app_inv_def store_inv_def stores_def)
  moreover have "valid_pos 0 1" by (simp add: valid_pos_def)
  ultimately obtain w where "self_offsets (node_app c p) 0 = Some w" "1 \<le> w"
    using exact_reaches [of _ "stores c p" 0 1] small_free [OF ok] assms(2) unfolding has_both_holds by blast
  with known_small(2) [OF ok] show ?thesis by (intro small_map) blast+
qed

lemma agreed:
  assumes ok: "test_ok to_vec from_slice c" and both: "has_both (stores c p)" and "q \<noteq> p"
    and heard: "offset_of (offsets (node_app c p)) 0 q = Some 1"
    and ord: "orders_ok ro po (offsets (node_app c p))"
  shows "consensus_offset (recalculate_consensus_offsets ro po (node_app c p)) = [0 \<mapsto> 1]"
proof -
  let ?s = "node_app c p"
  have node: "node_inv (stores c) 2 p ?s" using ok cluster_invD(1) by (auto simp: test_ok_def)
  then have app: "app_inv sequence ?s" and two: "consensus_nodes (params ?s) = 2" by (simp_all add: node_inv_def)
  have own: "offset_of (offsets ?s) 0 p = Some 1"
    using own_entry [OF node] has_both_own [OF ok both] by simp
  have "consensus_nodes (params ?s) \<le> card {p, q}" using \<open>q \<noteq> p\<close> by (simp add: two)
  moreover have "\<forall>q' \<in> {p, q}. \<exists>w. offset_of (offsets ?s) 0 q' = Some w \<and> 1 \<le> w" using own heard by simp
  ultimately obtain w where "consensus_offset (recalculate_consensus_offsets ro po ?s) 0 = Some w" "1 \<le> w"
    using recalculated_reaches [OF app ord, of "{p, q}"] by blast
  moreover have "r = 0 \<and> unat v \<le> 1" if v: "consensus_offset (recalculate_consensus_offsets ro po ?s) r = Some v" for r v
  proof (cases "consensus_offset ?s r = Some v")
    case False
    then have "supported ?s r v" using recalculate_supported [OF app ord v] by blast
    then obtain Q where Q: "finite Q" "2 \<le> card Q" "\<forall>q \<in> Q. \<exists>w. offset_of (offsets ?s) r q = Some w \<and> v \<le> w"
      using two by (auto simp: supported_def)
    then obtain q' where "q' \<in> Q" by fastforce
    with Q(3) obtain w where "offset_of (offsets ?s) r q' = Some w" "v \<le> w" by blast
    with known_small(1) [OF ok] show ?thesis by (fastforce simp: word_le_nat_alt)
  qed (use known_small(3) [OF ok] in blast)
  ultimately show ?thesis by (intro small_map) blast+
qed

section \<open>Until the tests pass\<close>

definition settled :: "('p, 'b, 'c, 'a) cluster \<Rightarrow> 'p \<Rightarrow> bool" where
  "settled c p \<longleftrightarrow> self_offsets (node_app c p) = [0 \<mapsto> 1] \<and> consensus_offset (node_app c p) = [0 \<mapsto> 1] \<and>
     (\<exists>q. q \<noteq> p \<and> offset_of (offsets (node_app c p)) 0 q = Some 1)"

lemma settled_kept:
  assumes "test_ok to_vec from_slice c" and "has_both (stores c p)" and "settled c p"
    and "readvertised (node_app c p) (node_app c' p)"
  shows "settled c' p"
  using assms(4) unfolding readvertised_def
proof
  assume "\<exists>ro po. orders_ok ro po (offsets (node_app c p)) \<and>
    node_app c' p = recalculate_consensus_offsets ro po (node_app c p)"
  then obtain ro po where ord: "orders_ok ro po (offsets (node_app c p))"
    and c': "node_app c' p = recalculate_consensus_offsets ro po (node_app c p)" by blast
  obtain q where "q \<noteq> p" "offset_of (offsets (node_app c p)) 0 q = Some 1" using assms(3) by (auto simp: settled_def)
  from agreed [OF assms(1,2) this ord] this assms(3) show ?thesis
    by (auto simp: settled_def c') (auto simp: recalculate_consensus_offsets_def)
qed (use assms(3) in \<open>simp add: settled_def\<close>)

lemma steps_has_both:
  "(inner_step to_vec from_slice sha256)\<^sup>*\<^sup>* c c' \<Longrightarrow> test_ok to_vec from_slice c \<Longrightarrow>
     has_both (stores c p) \<Longrightarrow> has_both (stores c' p)"
  using inner_steps_test_ok [of to_vec from_slice sha256 c c'] has_tx_mono
  unfolding Cluster.more_def has_both_def by blast

lemma spread:
  fixes c :: "('p :: linorder, 'b, 'c, 'a) cluster"
  assumes ok: "test_ok to_vec from_slice c" and total: "\<And>m. to_vec m \<noteq> None" and both: "has_both (stores c q)" and "q \<noteq> p"
  shows "\<exists>c'. (inner_step to_vec from_slice sha256)\<^sup>*\<^sup>* c c' \<and> has_both (stores c' p)"
proof -
  have inv: "cluster_inv to_vec 2 c" and codec: "codec to_vec from_slice" using ok by (simp_all add: test_ok_def)
  have own: "self_offsets (node_app c q) 0 = Some 1" using has_both_own [OF ok both] by simp
  obtain c1 where c1: "(inner_step to_vec from_slice sha256)\<^sup>*\<^sup>* c c1"
    "offset_of (offsets (node_app c1 p)) 0 q = Some 1"
    by (rule hear_one [OF inv codec total \<open>q \<noteq> p\<close>, of sha256]) (use own in blast)
  from catch_up [OF cluster_steps_inv [OF c1(1) codec inv] codec, of sha256 p] obtain c2 where
    c2: "(inner_step to_vec from_slice sha256)\<^sup>*\<^sup>* c1 c2" "holds_upto (stores c2 p) 0 1"
    using c1(2) by blast
  show ?thesis using rtranclp_trans [OF c1(1) c2(1)] c2(2) by (auto simp: has_both_holds)
qed

lemma settle:
  fixes c :: "('p :: linorder, 'b, 'c, 'a) cluster"
  assumes ok: "test_ok to_vec from_slice c" and total: "\<And>m. to_vec m \<noteq> None"
    and both: "has_both (stores c p)" "has_both (stores c q)" and "q \<noteq> p"
  shows "\<exists>c'. (inner_step to_vec from_slice sha256)\<^sup>*\<^sup>* c c' \<and> settled c' p \<and>
    (\<forall>p'. p' \<noteq> p \<longrightarrow> settled c p' \<longrightarrow> has_both (stores c p') \<longrightarrow> settled c' p')"
proof -
  have inv: "cluster_inv to_vec 2 c" and codec: "codec to_vec from_slice" using ok by (simp_all add: test_ok_def)
  have own: "self_offsets (node_app c q) 0 = Some 1" using has_both_own [OF ok both(2)] by simp
  obtain c1 where c1: "(inner_step to_vec from_slice sha256)\<^sup>*\<^sup>* c c1"
    "offset_of (offsets (node_app c1 p)) 0 q = Some 1"
    "\<And>p'. p' \<noteq> p \<Longrightarrow> readvertised (node_app c p') (node_app c1 p')"
    by (rule hear_one [OF inv codec total \<open>q \<noteq> p\<close>, of sha256]) (use own in blast)
  have ok1: "test_ok to_vec from_slice c1" using inner_steps_test_ok [OF c1(1) ok] by simp
  have both1: "has_both (stores c1 p)" by (rule steps_has_both [OF c1(1) ok both(1)])
  have inv1: "cluster_inv to_vec 2 c1" using ok1 by (simp add: test_ok_def)
  have "app_inv sequence (node_app c1 p)" using cluster_invD(1) [OF inv1] by (simp add: node_inv_def)
  then obtain ro po dos m where e: "event_ok (AdvertiseTick ro po dos) (node_app c1 p)"
    and ord: "orders_ok ro po (offsets (node_app c1 p))"
    and step: "app_step LogLineriazer_new_epoch sha256 True (AdvertiseTick ro po dos) (node_app c1 p) =
      Some (Inr (recalculate_consensus_offsets ro po (node_app c1 p), advertised (node_app c1 p) (entries m dos), []))"
    by (rule advertises) blast
  have "app_event c1 p (AdvertiseTick ro po dos)" using e by simp
  from app_moves [OF inv1 codec this step] obtain c2 where c2: "inner_step to_vec from_slice sha256 c1 c2"
    "node_app c2 = (node_app c1)(p := recalculate_consensus_offsets ro po (node_app c1 p))" by blast
  have "settled c2 p"
    using agreed [OF ok1 both1 \<open>q \<noteq> p\<close> c1(2) ord] has_both_own [OF ok1 both1] c1(2) \<open>q \<noteq> p\<close>
    by (auto simp: settled_def c2(2)) (auto simp: recalculate_consensus_offsets_def)
  moreover have "settled c2 p'" if "p' \<noteq> p" "settled c p'" "has_both (stores c p')" for p'
    using settled_kept [OF ok that(3,2) c1(3) [OF that(1)]] that(1) by (simp add: settled_def c2(2))
  ultimately show ?thesis using c1(1) c2(1) by (blast intro: rtranclp.rtrancl_into_rtrancl)
qed

lemma spread_all:
  fixes c :: "('p :: linorder, 'b, 'c, 'a) cluster"
  assumes "test_ok to_vec from_slice c" and total: "\<And>m. to_vec m \<noteq> None" and "has_both (stores c q)"
  shows "\<exists>c'. (inner_step to_vec from_slice sha256)\<^sup>*\<^sup>* c c' \<and> (\<forall>p \<in> set ps. has_both (stores c' p))"
proof (induction ps)
  case (Cons p ps)
  then obtain c1 where c1: "(inner_step to_vec from_slice sha256)\<^sup>*\<^sup>* c c1" "\<forall>p \<in> set ps. has_both (stores c1 p)" by blast
  have ok1: "test_ok to_vec from_slice c1" using inner_steps_test_ok [OF c1(1) assms(1)] by simp
  have q: "has_both (stores c1 q)" by (rule steps_has_both [OF c1(1) assms(1,3)])
  obtain c2 where c2: "(inner_step to_vec from_slice sha256)\<^sup>*\<^sup>* c1 c2" "has_both (stores c2 p)"
    using spread [OF ok1 total q, of p] q by (cases "q = p") blast+
  have "\<forall>p \<in> set ps. has_both (stores c2 p)" using c1(2) steps_has_both [OF c2(1) ok1] by blast
  with c2 rtranclp_trans [OF c1(1) c2(1)] show ?case by auto
qed auto

lemma settle_all:
  fixes c :: "('p :: linorder, 'b, 'c, 'a) cluster"
  assumes ok: "test_ok to_vec from_slice c" and total: "\<And>m. to_vec m \<noteq> None"
    and "\<forall>p \<in> set ps. has_both (stores c p) \<and> (\<exists>q. q \<noteq> p \<and> has_both (stores c q))"
  shows "\<exists>c'. (inner_step to_vec from_slice sha256)\<^sup>*\<^sup>* c c' \<and> (\<forall>p \<in> set ps. settled c' p)"
  using assms(3)
proof (induction ps)
  case (Cons p ps)
  then obtain c1 q where c1: "(inner_step to_vec from_slice sha256)\<^sup>*\<^sup>* c c1" "\<forall>p \<in> set ps. settled c1 p"
    and q: "q \<noteq> p" "has_both (stores c q)" by auto
  have ok1: "test_ok to_vec from_slice c1" using inner_steps_test_ok [OF c1(1) ok] by simp
  have both1: "has_both (stores c p') \<Longrightarrow> has_both (stores c1 p')" for p' by (rule steps_has_both [OF c1(1) ok])
  have "has_both (stores c1 p)" "has_both (stores c1 q)" using Cons.prems q(2) both1 by simp_all
  from settle [OF ok1 total this q(1), of sha256] obtain c2 where
    c2: "(inner_step to_vec from_slice sha256)\<^sup>*\<^sup>* c1 c2" "settled c2 p"
      "\<forall>p'. p' \<noteq> p \<longrightarrow> settled c1 p' \<longrightarrow> has_both (stores c1 p') \<longrightarrow> settled c2 p'" by blast
  have "settled c2 p'" if "p' \<in> set (p # ps)" for p'
    using that c1(2) c2(2,3) Cons.prems both1 by (cases "p' = p") auto
  with rtranclp_trans [OF c1(1) c2(1)] show ?case by blast
qed auto

lemma tests_can_pass:
  fixes c :: "('p :: linorder, 'b, 'c, 'a) cluster"
  assumes "test_ok to_vec from_slice c" and total: "\<And>m. to_vec m \<noteq> None"
    and "has_both (stores c p0)" and distinct: "distinct [p0, p1, p2]"
  shows "\<exists>c'. (inner_step to_vec from_slice sha256)\<^sup>*\<^sup>* c c' \<and> nodes_correct (map (node_app c') [p0, p1, p2])"
proof -
  let ?ps = "[p0, p1, p2]"
  obtain c1 where c1: "(inner_step to_vec from_slice sha256)\<^sup>*\<^sup>* c c1" "\<forall>p \<in> set ?ps. has_both (stores c1 p)"
    using spread_all [OF assms(1) total assms(3)] by blast
  have ok1: "test_ok to_vec from_slice c1" using inner_steps_test_ok [OF c1(1) assms(1)] by simp
  have "\<forall>p \<in> set ?ps. has_both (stores c1 p) \<and> (\<exists>q. q \<noteq> p \<and> has_both (stores c1 q))"
    using c1(2) distinct by auto
  from settle_all [OF ok1 total this] obtain c2 where
    c2: "(inner_step to_vec from_slice sha256)\<^sup>*\<^sup>* c1 c2" "\<forall>p \<in> set ?ps. settled c2 p" by blast
  have "nodes_correct (map (node_app c2) ?ps)"
    using c2(2) by (simp add: nodes_correct_def get_state_and_compare_def handle_request_def desired_state_def settled_def)
  with rtranclp_trans [OF c1(1) c2(1)] show ?thesis by blast
qed

lemma start_nodes_eq:
  "start_nodes parse can_listen can_dial ns = (cs :: ('p, 'b, 'c, 'a) command list, Inr nodes) \<Longrightarrow>
     nodes = map (\<lambda>(lib, _). App_new (own_id lib) test_params) ns"
proof (induction ns arbitrary: cs nodes)
  case (Cons n ns)
  obtain lib urls self_url where n: "n = (lib, urls, self_url)" by (cases n)
  obtain cs1 :: "('p, 'b, 'c, 'a) command list" and res where
    res: "create_stack lib parse can_listen can_dial urls self_url test_params = (cs1, res)"
    by fastforce
  then obtain layer ep a si where r: "res = Inr (Inr (layer, (ep, a), si))"
    using Cons.prems by (auto simp: n split: sum.splits)
  obtain cs2 :: "('p, 'b, 'c, 'a) command list" and rest where
    rest: "start_nodes parse can_listen can_dial ns = (cs2, Inr rest)" "nodes = a # rest"
    using Cons.prems by (auto simp: n res r rbind_eq_Inr split: prod.splits)
  obtain ep1 net where layer: "layer = (ep1, net)" by (cases layer)
  have "a = App_new (own_id lib) test_params" using create_stack_eq [OF res [unfolded r layer]] by auto
  with Cons.IH [OF rest(1)] rest(2) show ?case by (simp add: n)
qed simp

lemma test_gateway_eq:
  assumes "test_gateway lib parse can_dial urls = (cs, Inr reqs)"
  shows "reqs = [GM_NewTransaction (Transaction 1 Created), GM_NewTransaction (Transaction 0 Created)]"
proof -
  obtain gw where gw: "Gateway_new lib parse can_dial urls = (cs, Inr (Inr gw))"
    using assms by (auto simp: test_gateway_def split: prod.splits sum.splits)
  then have "requests gw = []"
    by (auto simp: Gateway_new_def create_a_b_duplex_pair_def Let_def rbind_eq_Inr split: prod.splits sum.splits)
  with gw assms show ?thesis
    by (auto simp: test_gateway_def start_in_background_def send_request_def endpoint_send_def Let_def rbind_eq_Inr
        split: option.splits)
qed

lemma set_up_eq:
  assumes "basic parse can_listen can_dial l0 l1 l2 lg =
      (cs :: ('p, 'b, 'c, 'a) command list, gcs :: ('p, 'c, 'a) gw_command list, Inr (nodes, reqs)) \<or>
    request_missed_txs parse can_listen can_dial l0 l1 l2 lg = (cs, gcs, Inr (nodes, reqs))"
  shows "nodes = map (\<lambda>lib. App_new (own_id lib) test_params) [l0, l1, l2]"
    and "reqs = [GM_NewTransaction (Transaction 1 Created), GM_NewTransaction (Transaction 0 Created)]"
proof -
  obtain urls and cs' :: "('p, 'b, 'c, 'a) command list" and gcs' :: "('p, 'c, 'a) gw_command list" where
    *: "start_nodes parse can_listen can_dial (three_nodes l0 l1 l2) = (cs', Inr nodes)"
    "test_gateway lg parse can_dial urls = (gcs', Inr reqs)"
    using assms by (auto simp: basic_def request_missed_txs_def Let_def rbind_eq_Inr split: prod.splits sum.splits)
  show "nodes = map (\<lambda>lib. App_new (own_id lib) test_params) [l0, l1, l2]"
    using start_nodes_eq [OF *(1)] by (simp add: three_nodes_def)
  show "reqs = [GM_NewTransaction (Transaction 1 Created), GM_NewTransaction (Transaction 0 Created)]"
    by (rule test_gateway_eq [OF *(2)])
qed

lemma start_nodes_succeeds:
  "\<forall>(lib, _) \<in> set ns. sets_up lib \<Longrightarrow> \<exists>cs :: ('p, 'b, 'c, string) command list.
     start_nodes Some (\<lambda>_. True) (\<lambda>_. True) ns = (cs, Inr (map (\<lambda>(lib, _). App_new (own_id lib) test_params) ns))"
proof (induction ns)
  case (Cons n ns)
  obtain lib urls self_url where n: "n = (lib, urls, self_url)" by (cases n)
  note prep = prepare_dials_the_others [of Some self_url self_url "\<lambda>_. True" urls "\<lambda>_. True"]
  have "sets_up lib" using Cons.prems by (simp add: n)
  then obtain layer ep and cs1 :: "('p, 'b, 'c, string) command list" where
    "create_stack lib Some (\<lambda>_. True) (\<lambda>_. True) urls self_url test_params =
      (cs1, Inr (Inr (layer, (ep, App_new (own_id lib) test_params), create_invoker_handler_pair)))"
    using create_stack_ok [of lib Some "\<lambda>_. True" "\<lambda>_. True" self_url urls, OF _ prep] by simp blast
  moreover obtain cs2 :: "('p, 'b, 'c, string) command list" where
    "start_nodes Some (\<lambda>_. True) (\<lambda>_. True) ns = (cs2, Inr (map (\<lambda>(lib, _). App_new (own_id lib) test_params) ns))"
    using Cons by fastforce
  ultimately show ?case by (simp add: n)
qed simp

lemma test_gateway_succeeds:
  assumes "sets_up lib"
  shows "\<exists>cs :: ('p, 'c, string) gw_command list. test_gateway lib Some (\<lambda>_. True) urls =
     (cs, Inr [GM_NewTransaction (Transaction 1 Created), GM_NewTransaction (Transaction 0 Created)])"
proof -
  obtain gw and cs :: "('p, 'c, string) gw_command list" where
    "Gateway_new lib Some (\<lambda>_. True) urls = (cs, Inr (Inr gw))" "requests gw = []"
    "start_in_background gw = Inr ((\<lparr>sender = 1, receiver = 0\<rparr>, {}), gw\<lparr>p2p := None\<rparr>)"
    using Gateway_new_ok [OF assms, of urls Some "\<lambda>_. True"] by auto
  then show ?thesis by (simp add: test_gateway_def send_request_def endpoint_send_def Let_def)
qed

section \<open>The property\<close>

text \<open>
  C38: when the set-up of an integration test succeeds, the nodes are those a
  system starts with, and from every state that system reaches with what the test's gateway sends, there
  is a continuation after which an attempt of the test, if it is one of the three, makes it pass. Where the first node already has both transactions it
  needs no gateway any more: the nodes get what they miss from one another.
\<close>

theorem integration_tests_can_pass:
  assumes "basic parse can_listen can_dial l0 l1 l2 lg =
      (cs :: ('p :: linorder, 'b, 'c, 'a) command list, gcs :: ('p, 'c, 'a) gw_command list, Inr (nodes, reqs)) \<or>
    request_missed_txs parse can_listen can_dial l0 l1 l2 lg = (cs, gcs, Inr (nodes, reqs))"
    and "[p0, p1, p2, g] = map (\<lambda>lib. own_id lib) [l0, l1, l2, lg]" and "distinct [p0, p1, p2, g]"
    and "programs = (\<lambda>_. [])(g := reqs)"
    and "\<forall>m. \<exists>b. to_vec m = Some b \<and> from_slice b = Some m"
    and "system_reachable to_vec from_slice sha256 programs test_params s"
  shows "nodes = map (node_app (maroon (system_start test_params))) [p0, p1, p2] \<and>
    (\<exists>s'. (system_step to_vec from_slice sha256 programs)\<^sup>*\<^sup>* s s' \<and>
      (\<forall>earlier. length earlier < 3 \<longrightarrow> check_results (earlier @ [map (node_app (maroon s')) [p0, p1, p2]]))) \<and>
    (transactions (node_app (maroon s) p0) 0 \<noteq> None \<and> transactions (node_app (maroon s) p0) 1 \<noteq> None \<longrightarrow>
      (\<exists>c'. (inner_step to_vec from_slice sha256)\<^sup>*\<^sup>* (maroon s) c' \<and> nodes_correct (map (node_app c') [p0, p1, p2])))"
proof -
  note set_up = set_up_eq [OF assms(1)]
  have codec: "codec to_vec from_slice" using assms(5) by (simp add: codec_def) (metis option.inject)
  have total: "\<And>m. to_vec m \<noteq> None" using assms(5) by (metis option.distinct(1))
  have sent: "sent_txs programs = {Transaction 0 Created, Transaction 1 Created}"
    by (auto simp: sent_txs_def assms(4) set_up(2))
  then have prog: "programs_ok programs" by (auto simp: programs_ok_def valid_id_def)
  have two: "consensus_nodes test_params = 2"
    by (simp add: test_params_def set_advertise_period_def Params_default_def)
  have ok: "system_ok to_vec from_slice programs 2 s"
    using system_reachable_ok(1) [OF assms(6) codec prog] by (simp add: two)
  have test: "test_ok to_vec from_slice (maroon s)" if "system_ok to_vec from_slice programs 2 s" for s
    using that by (simp add: test_ok_def system_ok_def cluster_ok_def sent)
  have distinct: "distinct [p0, p1, p2]" using assms(3) by simp
  have 1: "nodes = map (node_app (maroon (system_start test_params))) [p0, p1, p2]"
    using assms(2) by (simp add: set_up(1) system_start_def cluster_start_def)
  have "\<forall>(p, t) \<in> {p0} \<times> sent_txs programs. p \<noteq> g \<and> GM_NewTransaction t \<in> set (programs g)"
    using assms(3) by (auto simp: sent) (auto simp: assms(4) set_up(2))
  from gateway_transactions_stored [OF _ ok this, of sha256] obtain s1 where
    s1: "(system_step to_vec from_slice sha256 programs)\<^sup>*\<^sup>* s s1"
      "\<forall>(p, t) \<in> {p0} \<times> sent_txs programs. has_tx (stores (maroon s1) p) (tx_id t)"
    by (auto simp: sent)
  then have "has_both (stores (maroon s1) p0)" by (simp add: has_both_def sent)
  from tests_can_pass [OF test [OF system_steps_ok [OF s1(1) ok]] total this distinct] obtain c' where
    "(inner_step to_vec from_slice sha256)\<^sup>*\<^sup>* (maroon s1) c'" "nodes_correct (map (node_app c') [p0, p1, p2])" by blast
  with rtranclp_trans [OF s1(1) inner_steps_system] have 2: "\<exists>s'. (system_step to_vec from_slice sha256 programs)\<^sup>*\<^sup>* s s' \<and>
      nodes_correct (map (node_app (maroon s')) [p0, p1, p2])"
    by (intro exI [of _ "s1\<lparr>maroon := c'\<rparr>"]) simp
  have "has_both (stores (maroon s) p0)"
    if "transactions (node_app (maroon s) p0) 0 \<noteq> None \<and> transactions (node_app (maroon s) p0) 1 \<noteq> None"
    using that by (simp add: has_both_def has_tx_def stores_def)
  with tests_can_pass [OF test [OF ok] total _ distinct] 1 2 check_last show ?thesis by blast
qed

definition test_programs :: "nat \<Rightarrow> GMRequest list" where
  "test_programs = (\<lambda>_. [])(6 := [GM_NewTransaction (Transaction 1 Created), GM_NewTransaction (Transaction 0 Created)])"

theorem integration_tests_can_pass_witness:
  "\<exists>s' :: (nat, nat GossipMessage, unit, string) system.
     (system_step Some Some (take 32) test_programs)\<^sup>*\<^sup>* (system_start test_params) s' \<and>
     check_results [map (node_app (maroon s')) [0, 1, 2]]"
proof -
  let ?test = "request_missed_txs Some (\<lambda>_. True) (\<lambda>_. True) (libp2p_of 0) (libp2p_of 1) (libp2p_of 2) (libp2p_of (6 :: nat))
    :: (nat, nat GossipMessage, unit, string) command list \<times> (nat, unit, string) gw_command list \<times> _"
  obtain nodes and cs :: "(nat, nat GossipMessage, unit, string) command list" where
    "start_nodes Some (\<lambda>_. True) (\<lambda>_. True) (three_nodes (libp2p_of 0) (libp2p_of 1) (libp2p_of (2 :: nat))) = (cs, Inr nodes)"
    using start_nodes_succeeds [of "three_nodes (libp2p_of 0) (libp2p_of 1) (libp2p_of (2 :: nat))"]
    by (auto simp: three_nodes_def)
  moreover obtain reqs and gcs :: "(nat, unit, string) gw_command list" where
    "test_gateway (libp2p_of (6 :: nat)) Some (\<lambda>_. True) [''/ip4/127.0.0.1/tcp/3000''] = (gcs, Inr reqs)"
    using test_gateway_succeeds [OF sets_up_libp2p_of(1) [of "6 :: nat"]] by blast
  ultimately have run: "?test = (cs, gcs, Inr (nodes, reqs))"
    by (simp only: request_missed_txs_def Let_def prod.case sum.case rbind_simps)
  note reqs = set_up_eq(2) [OF disjI2 [OF run]]
  have prog: "test_programs = (\<lambda>_. [])(6 := reqs)" by (simp add: test_programs_def reqs)
  have total: "\<forall>(m :: nat GossipMessage). \<exists>b. Some m = Some b \<and> Some b = Some m" by simp
  have start: "system_reachable Some Some (take 32) test_programs test_params (system_start test_params)" by simp
  have ids: "[0, 1, 2, 6 :: nat] = map (\<lambda>lib. own_id lib) [libp2p_of 0, libp2p_of 1, libp2p_of 2, libp2p_of 6]" by simp
  have "distinct [0, 1, 2, 6 :: nat]" by simp
  from integration_tests_can_pass [OF disjI2 [OF run] ids this prog total start, THEN conjunct2, THEN conjunct1]
  obtain s' :: "(nat, nat GossipMessage, unit, string) system" where
    "(system_step Some Some (take 32) test_programs)\<^sup>*\<^sup>* (system_start test_params) s'"
    "\<forall>earlier. length earlier < 3 \<longrightarrow> check_results (earlier @ [map (node_app (maroon s')) [0, 1, 2]])" by blast
  moreover from this(2) have "check_results [map (node_app (maroon s')) [0, 1, 2]]"
    by (rule allE [of _ "[]"]) simp
  ultimately show ?thesis by blast
qed

end
