(* ===== verification/Stale_Gossip.thy ===== *)
theory Stale_Gossip
  imports Agreement App_Tests
begin

text \<open>
  What a state of another node that arrives late does (\<open>State\<close> in \<open>App::handle_inbox_message\<close>, and
  \<open>App::recalculate_consensus_offsets\<close> of \<open>maroon/src/app/app.rs\<close>): a message has no order and an
  entry of the table is overwritten, so what a node knows of another, and with it the consensus
  offset it computes and reports, can go back. For this, runs of the event loop are shown to be runs
  of the cluster.
\<close>

section \<open>A run of an event loop is a run of the cluster\<close>

lemma inner_steps_keep:
  assumes "(inner_step to_vec from_slice sha256)\<^sup>*\<^sup>* c c'"
  shows "to_app c p \<subseteq> to_app c' p \<and> to_net c p \<subseteq> to_net c' p"
  using assms
proof (induction rule: rtranclp_induct)
  case (step c1 c2)
  from step.hyps(2) have "to_app c1 p \<subseteq> to_app c2 p \<and> to_net c1 p \<subseteq> to_net c2 p"
    by (cases rule: inner_step.cases) auto
  with step.IH show ?case by blast
qed simp

lemma event_orders: "event_ok e s \<Longrightarrow> orders_of e s"
  by (cases "(e, s)" rule: orders_of.cases) auto

lemma loop_is_cluster_run:
  fixes c :: "('p :: linorder, 'b, 'c, 'a) cluster"
  assumes "loop_until_shutdown LogLineriazer_new_epoch sha256 True es rs = Some (Inr rs')"
    and "app rs = node_app c p" and "events_ok LogLineriazer_new_epoch sha256 es (app rs)"
    and "Shutdown \<notin> set es" and "\<forall>ks msg. Payload ks msg \<in> set es \<longrightarrow> msg \<in> to_app c p"
    and "set (sent rs) \<subseteq> to_net c p"
  shows "\<exists>c'. (inner_step to_vec from_slice sha256)\<^sup>*\<^sup>* c c' \<and> node_app c' = (node_app c)(p := app rs') \<and>
    set (sent rs') \<subseteq> to_net c' p"
  using assms
proof (induction es arbitrary: c rs)
  case Nil
  then show ?case by (intro exI [of _ c]) auto
next
  case (Cons e es)
  have e: "e \<noteq> Shutdown" "event_ok e (app rs)" using Cons.prems(3,4) by auto
  obtain s out resp where step: "app_step LogLineriazer_new_epoch sha256 True e (app rs) = Some (Inr (s, out, resp))"
    and rest: "loop_until_shutdown LogLineriazer_new_epoch sha256 True es
      (rs\<lparr>app := s, sent := sent rs @ out, responses := responses rs @ resp\<rparr>) = Some (Inr rs')"
    using Cons.prems(1) e(1) by (auto simp: loop_Cons split: option.splits sum.splits)
  have "app_event c p e"
    using event_orders [OF e(2)] Cons.prems(2,5) by (cases "(c, p, e)" rule: app_event.cases) auto
  from inner_step.app [OF this step [unfolded Cons.prems(2)], of to_vec from_slice]
  have 1: "inner_step to_vec from_slice sha256 c
      (c\<lparr>node_app := (node_app c)(p := s), to_net := (to_net c)(p := to_net c p \<union> set out)\<rparr>)"
    (is "inner_step _ _ _ _ ?c1") .
  have "events_ok LogLineriazer_new_epoch sha256 es s" using Cons.prems(3) step by simp
  then have "\<exists>c'. (inner_step to_vec from_slice sha256)\<^sup>*\<^sup>* ?c1 c' \<and> node_app c' = (node_app ?c1)(p := app rs') \<and>
      set (sent rs') \<subseteq> to_net c' p"
    by (intro Cons.IH [OF rest]) (use Cons.prems(4-6) in auto)
  then obtain c' where "(inner_step to_vec from_slice sha256)\<^sup>*\<^sup>* ?c1 c'"
    "node_app c' = (node_app ?c1)(p := app rs')" "set (sent rs') \<subseteq> to_net c' p" by blast
  then show ?case
    using converse_rtranclp_into_rtranclp [of "inner_step to_vec from_slice sha256", OF 1]
    by (intro exI [of _ c']) simp
qed

fun brings :: "'p Inbox set \<Rightarrow> 'p event \<Rightarrow> bool" where
  "brings msgs (Payload ks msg) \<longleftrightarrow> msg \<in> msgs"
| "brings msgs Shutdown \<longleftrightarrow> False"
| "brings msgs _ \<longleftrightarrow> True"

lemma loop_moves:
  fixes c :: "('p :: linorder, 'b, 'c, 'a) cluster"
  assumes "loop_until_shutdown LogLineriazer_new_epoch sha256 True es \<lparr>app = s, sent = [], responses = []\<rparr> =
      Some (Inr \<lparr>app = s', sent = out, responses = rsp\<rparr>)"
    and "events_ok LogLineriazer_new_epoch sha256 es s" and "node_app c p = s"
    and "list_all (brings (to_app c p)) es"
  shows "\<exists>c'. (inner_step to_vec from_slice sha256)\<^sup>*\<^sup>* c c' \<and> node_app c' = (node_app c)(p := s') \<and>
    set out \<subseteq> to_net c' p"
proof -
  have e: "brings (to_app c p) e" if "e \<in> set es" for e using assms(4) that by (simp add: list_all_iff)
  then have "Shutdown \<notin> set es" "\<forall>ks msg. Payload ks msg \<in> set es \<longrightarrow> msg \<in> to_app c p" by fastforce+
  from loop_is_cluster_run [OF assms(1) _ _ this, of to_vec from_slice] show ?thesis
    using assms(2,3) by simp
qed

text \<open>A gateway's transaction reaches the application.\<close>

lemma transaction_reaches:
  fixes c :: "('p :: linorder, 'b, 'c, 'a) cluster"
  assumes "g \<noteq> p" and "valid_id (tx_id t)"
  shows "\<exists>c'. cluster_step to_vec from_slice sha256 c c' \<and> node_app c' = node_app c \<and>
    to_app c' = (to_app c)(p := insert (Inbox_NewTransaction t) (to_app c p))"
proof -
  let ?e = "From_Swarm (RequestResponse (RR_Message g (RR_Request (GM_NewTransaction t) undefined)))"
  have "net_event c p ?e" using assms by simp
  moreover have "p2p_step to_vec from_slice True ?e (node_net c p) =
      Inr (node_net c p, [Inbox_NewTransaction t], [SendGMResponse undefined Acknowledged] :: ('p, 'b, 'c, 'a) command list)"
    by (simp add: endpoint_send_def)
  ultimately show ?thesis by (fastforce dest: cluster_step.net)
qed

section \<open>Two nodes and two transactions\<close>

definition took_first :: "'p \<Rightarrow> Params \<Rightarrow> ('p, LogLineriazer) App" where
  "took_first p prms = (App_new p prms)\<lparr>self_offsets := [0 \<mapsto> 0], transactions := [0 \<mapsto> test_tx 0],
     offsets := [0 \<mapsto> [p \<mapsto> 0]]\<rparr>"

definition took_both :: "'p \<Rightarrow> Params \<Rightarrow> ('p, LogLineriazer) App" where
  "took_both p prms = (App_new p prms)\<lparr>self_offsets := [0 \<mapsto> 1], transactions := [0 \<mapsto> test_tx 0, 1 \<mapsto> test_tx 1],
     offsets := [0 \<mapsto> [p \<mapsto> 1]]\<rparr>"

definition heard :: "'p \<Rightarrow> KeyOffset \<Rightarrow> (KeyRange \<rightharpoonup> KeyOffset) \<Rightarrow> 'p \<Rightarrow> Params \<Rightarrow> ('p, LogLineriazer) App" where
  "heard q v agreed p prms = (took_both p prms)\<lparr>offsets := [0 \<mapsto> [p \<mapsto> 1, q \<mapsto> v]], consensus_offset := agreed\<rparr>"

abbreviation state_of :: "KeyOffset \<Rightarrow> NodeState" where
  "state_of v \<equiv> \<lparr>node_offsets = [0 \<mapsto> v]\<rparr>"

lemmas run_defs = took_first_def took_both_def heard_def
lemmas run_evals = App_new_def test_tx_def eval_ids eval_offsets move_offset_pointer_def entries_def
lemmas tick_evals = advertise_offsets_and_request_missing_def recalculate_consensus_offsets_def
  offsets_entries_def consensus_maximum_def self_delays_def eval_scan endpoint_send_def

lemma takes_first:
  "app_step LogLineriazer_new_epoch sha256 True (Payload [0] (Inbox_NewTransaction (test_tx 0))) (App_new p prms) =
     Some (Inr (took_first p prms, [], []))"
  by (simp add: run_defs run_evals)

lemma takes_second:
  "app_step LogLineriazer_new_epoch sha256 True (Payload [0] (Inbox_NewTransaction (test_tx 1))) (took_first p prms) =
     Some (Inr (took_both p prms, [], []))"
  by (simp add: run_defs run_evals)

lemma advertises_first:
  "consensus_nodes prms = 2 \<Longrightarrow>
     app_step LogLineriazer_new_epoch sha256 True (AdvertiseTick [0] (\<lambda>_. [p]) []) (took_first p prms) =
       Some (Inr (took_first p prms, [Outbox_State (state_of 0)], []))"
  by (simp add: run_defs run_evals tick_evals)

lemma advertises_both:
  "consensus_nodes prms = 2 \<Longrightarrow>
     app_step LogLineriazer_new_epoch sha256 True (AdvertiseTick [0] (\<lambda>_. [p]) []) (took_both p prms) =
       Some (Inr (took_both p prms, [Outbox_State (state_of 1)], []))"
  by (simp add: run_defs run_evals tick_evals)

lemma hears_first:
  "app_step LogLineriazer_new_epoch sha256 True (Payload [0] (Inbox_State q (state_of v))) (took_both p prms) =
     Some (Inr (heard q v Map.empty p prms, [], []))"
  by (simp add: run_defs run_evals)

lemma hears_again:
  "p \<noteq> q \<Longrightarrow>
     app_step LogLineriazer_new_epoch sha256 True (Payload [0] (Inbox_State q (state_of v))) (heard q w m p prms) =
       Some (Inr (heard q v m p prms, [], []))"
  by (simp add: run_defs run_evals)

lemma agrees:
  assumes "p \<noteq> q" and "consensus_nodes prms = 2" and "v = 0 \<or> v = 1"
  shows "app_step LogLineriazer_new_epoch sha256 True (AdvertiseTick [0] (\<lambda>_. [p, q]) []) (heard q v m p prms) =
     Some (Inr (heard q v (m(0 \<mapsto> v)) p prms, [Outbox_State (state_of 1)], []))"
proof -
  let ?s = "heard q v m p prms" and ?po = "\<lambda>_ :: KeyRange. [p, q]"
  have table: "offsets_entries [0] ?po (offsets ?s) = [(0, [(p, 1), (q, v)])]"
    using assms(1) by (simp add: run_defs offsets_entries_def entries_def)
  have "self_delays (transactions ?s) (self_offsets ?s) [(0, [(p, 1), (q, v)])] = Inr Map.empty"
    using assms(3) by (auto simp: run_defs self_delays_def range_delay_def)
  note m = this [folded table]
  have "consensus_maximum [(p, 1), (q, v)] 2 = Some v"
    using assms(3) by (auto simp: consensus_maximum_def)
  then have "recalculate_consensus_offsets [0] ?po ?s = heard q v (m(0 \<mapsto> v)) p prms"
    using assms(2) by (simp add: recalculate_consensus_offsets_def table) (simp add: run_defs App_new_def)
  moreover have "advertised ?s (entries Map.empty []) = [Outbox_State (state_of 1)]"
    by (simp add: advertised_def entries_def run_defs)
  ultimately show ?thesis by (simp add: advertise_eq [OF m])
qed

text \<open>The runs: of a node that tells its offset twice, and of one that hears the newer state, then the older.\<close>

definition telling :: "'p \<Rightarrow> 'p event list" where
  "telling q = [Payload [0] (Inbox_NewTransaction (test_tx 0)), AdvertiseTick [0] (\<lambda>_. [q]) [],
     Payload [0] (Inbox_NewTransaction (test_tx 1)), AdvertiseTick [0] (\<lambda>_. [q]) []]"

definition hearing :: "'p \<Rightarrow> 'p \<Rightarrow> 'p event list" where
  "hearing p q = [Payload [0] (Inbox_NewTransaction (test_tx 0)), Payload [0] (Inbox_NewTransaction (test_tx 1)),
     Payload [0] (Inbox_State q (state_of 1)), AdvertiseTick [0] (\<lambda>_. [p, q]) []]"

definition hearing_late :: "'p \<Rightarrow> 'p \<Rightarrow> 'p event list" where
  "hearing_late p q = [Payload [0] (Inbox_State q (state_of 0)), AdvertiseTick [0] (\<lambda>_. [p, q]) []]"

lemma payload_oks:
  "k = 0 \<or> k = 1 \<Longrightarrow> event_ok (Payload [0] (Inbox_NewTransaction (test_tx k))) (s :: ('p, LogLineriazer) App)"
  "peer_id s \<noteq> q \<Longrightarrow> v = 0 \<or> v = 1 \<Longrightarrow> event_ok (Payload [0] (Inbox_State q (state_of v))) s"
  by (auto simp: test_tx_def valid_id_def key_order_def dom_buckets block_of_def valid_offsets_def valid_pos_def)

lemma tick_oks:
  "event_ok (AdvertiseTick [0] (\<lambda>_. [p]) []) (took_first p prms)"
  "event_ok (AdvertiseTick [0] (\<lambda>_. [p]) []) (took_both p prms)"
  "p \<noteq> q \<Longrightarrow> v = 0 \<or> v = 1 \<Longrightarrow> event_ok (AdvertiseTick [0] (\<lambda>_. [p, q]) []) (heard q v m p prms)"
  by (auto simp: run_defs App_new_def orders_ok_def key_order_def entries_def offsets_entries_def
      self_delays_def range_delay_def)

lemma peer_id_runs [simp]: "peer_id (took_both p prms) = p" "peer_id (heard q v m p prms) = p"
  by (simp_all add: run_defs App_new_def)

lemmas run_steps = takes_first takes_second advertises_first advertises_both hears_first hears_again agrees

lemma telling_run:
  assumes "consensus_nodes prms = 2"
  shows "loop_until_shutdown LogLineriazer_new_epoch sha256 True (telling q)
      \<lparr>app = App_new q prms, sent = [], responses = []\<rparr> =
    Some (Inr \<lparr>app = took_both q prms, sent = [Outbox_State (state_of 0), Outbox_State (state_of 1)], responses = []\<rparr>)"
    and "events_ok LogLineriazer_new_epoch sha256 (telling q) (App_new q prms)"
  by (simp_all add: telling_def run_steps assms payload_oks tick_oks del: app_step.simps event_ok.simps)

lemma hearing_run:
  assumes "consensus_nodes prms = 2" and "p \<noteq> q"
  shows "\<exists>out. loop_until_shutdown LogLineriazer_new_epoch sha256 True (hearing p q)
      \<lparr>app = App_new p prms, sent = [], responses = []\<rparr> =
    Some (Inr \<lparr>app = heard q 1 [0 \<mapsto> 1] p prms, sent = out, responses = []\<rparr>)"
    and "events_ok LogLineriazer_new_epoch sha256 (hearing p q) (App_new p prms)"
    and "\<exists>out. loop_until_shutdown LogLineriazer_new_epoch sha256 True (hearing_late p q)
      \<lparr>app = heard q 1 [0 \<mapsto> 1] p prms, sent = [], responses = []\<rparr> =
    Some (Inr \<lparr>app = heard q 0 [0 \<mapsto> 0] p prms, sent = out, responses = []\<rparr>)"
    and "events_ok LogLineriazer_new_epoch sha256 (hearing_late p q) (heard q 1 [0 \<mapsto> 1] p prms)"
  by (simp_all add: hearing_def hearing_late_def run_steps assms payload_oks tick_oks del: app_step.simps event_ok.simps)

lemma reachable_inner:
  assumes "reachable to_vec from_slice sha256 prms c" and "(inner_step to_vec from_slice sha256)\<^sup>*\<^sup>* c c'"
  shows "reachable to_vec from_slice sha256 prms c'"
  using assms(1) inner_steps_cluster [OF assms(2)] by (rule rtranclp_trans)

text \<open>Both transactions are sent to both nodes.\<close>

lemma both_sent:
  fixes p q g :: "'p :: linorder"
  assumes "distinct [p, q, g]"
  shows "\<exists>c :: ('p, 'b, 'c, 'a) cluster. reachable to_vec from_slice sha256 prms c \<and> node_app c = (\<lambda>p. App_new p prms) \<and>
    (\<forall>n \<in> {p, q}. \<forall>k \<in> {0, 1}. Inbox_NewTransaction (test_tx k) \<in> to_app c n)"
proof -
  have sent: "\<exists>c'. cluster_step to_vec from_slice sha256 c c' \<and> node_app c' = node_app c \<and>
      to_app c' = (to_app c)(n := insert (Inbox_NewTransaction (test_tx k)) (to_app c n))"
    if "n = p \<or> n = q" "k = 0 \<or> k = 1" for n k and c :: "('p, 'b, 'c, 'a) cluster"
    using that assms by (intro transaction_reaches [of g]) (auto simp: test_tx_def valid_id_def)
  let ?c0 = "cluster_start prms :: ('p, 'b, 'c, 'a) cluster"
  obtain c1 where c1: "cluster_step to_vec from_slice sha256 ?c0 c1" "node_app c1 = node_app ?c0"
    "to_app c1 = (to_app ?c0)(q := insert (Inbox_NewTransaction (test_tx 0)) (to_app ?c0 q))"
    using sent [of q 0 ?c0] by auto
  obtain c2 where c2: "cluster_step to_vec from_slice sha256 c1 c2" "node_app c2 = node_app c1"
    "to_app c2 = (to_app c1)(q := insert (Inbox_NewTransaction (test_tx 1)) (to_app c1 q))"
    using sent [of q 1 c1] by auto
  obtain c3 where c3: "cluster_step to_vec from_slice sha256 c2 c3" "node_app c3 = node_app c2"
    "to_app c3 = (to_app c2)(p := insert (Inbox_NewTransaction (test_tx 0)) (to_app c2 p))"
    using sent [of p 0 c2] by auto
  obtain c4 where c4: "cluster_step to_vec from_slice sha256 c3 c4" "node_app c4 = node_app c3"
    "to_app c4 = (to_app c3)(p := insert (Inbox_NewTransaction (test_tx 1)) (to_app c3 p))"
    using sent [of p 1 c3] by auto
  have "reachable to_vec from_slice sha256 prms c4"
    using c1(1) c2(1) c3(1) c4(1) by (meson rtranclp.rtrancl_into_rtrancl rtranclp.rtrancl_refl)
  moreover have "node_app c4 = (\<lambda>p. App_new p prms)"
    by (simp add: c4(2) c3(2) c2(2) c1(2) cluster_start_def)
  moreover have "\<forall>n \<in> {p, q}. \<forall>k \<in> {0, 1}. Inbox_NewTransaction (test_tx k) \<in> to_app c4 n"
    by (simp add: c4(3) c3(3) c2(3) c1(3))
  ultimately show ?thesis by blast
qed

section \<open>Properties\<close>

text \<open>
  C34: a node whose consensus offset has reached 1 can go back to 0, and report
  it, because a state that another node told before its last one arrives again or late; the transactions
  and the log of the node stay what they were.
\<close>

theorem stale_state_moves_back:
  fixes p q g :: "'p :: linorder"
  assumes "distinct [p, q, g]" and "\<forall>m. \<exists>b. to_vec m = Some b \<and> from_slice b = Some m" and "consensus_nodes prms = 2"
  shows "\<exists>c c' :: ('p, 'b, 'c, 'a) cluster. reachable to_vec from_slice sha256 prms c \<and>
    (cluster_step to_vec from_slice sha256)\<^sup>*\<^sup>* c c' \<and>
    handle_request GetState (node_app c p) =
      Response_State \<lparr>current_self_offsets = [0 \<mapsto> 1], current_consensus_offset = [0 \<mapsto> 1]\<rparr> \<and>
    handle_request GetState (node_app c' p) =
      Response_State \<lparr>current_self_offsets = [0 \<mapsto> 1], current_consensus_offset = [0 \<mapsto> 0]\<rparr> \<and>
    transactions (node_app c' p) = transactions (node_app c p) \<and> linearizer (node_app c' p) = linearizer (node_app c p)"
proof -
  let ?reach = "reachable to_vec from_slice sha256 prms :: ('p, 'b, 'c, 'a) cluster \<Rightarrow> bool"
  let ?steps = "(inner_step to_vec from_slice sha256)\<^sup>*\<^sup>* :: ('p, 'b, 'c, 'a) cluster \<Rightarrow> _"
  have pq: "p \<noteq> q" using assms(1) by simp
  have codec: "codec to_vec from_slice" using assms(2) by (simp add: codec_def) (metis option.inject)
  obtain c1 :: "('p, 'b, 'c, 'a) cluster" where c1: "?reach c1" "node_app c1 = (\<lambda>p. App_new p prms)"
    "\<forall>n \<in> {p, q}. \<forall>k \<in> {0, 1}. Inbox_NewTransaction (test_tx k) \<in> to_app c1 n"
    using both_sent [OF assms(1)] by blast
  have "list_all (brings (to_app c1 q)) (telling q)" using c1(3) by (simp add: telling_def)
  from loop_moves [OF telling_run [OF assms(3)] _ this, of to_vec from_slice] obtain c2 where
    c2: "?steps c1 c2" "node_app c2 = (node_app c1)(q := took_both q prms)"
    "{Outbox_State (state_of 0), Outbox_State (state_of 1)} \<subseteq> to_net c2 q"
    unfolding c1(2) by auto
  have hears: "\<exists>c'. ?steps c c' \<and> node_app c' = node_app c \<and> Inbox_State q (state_of v) \<in> to_app c' p"
    if "?reach c" "Outbox_State (state_of v) \<in> to_net c q" for c v
  proof -
    obtain data where "to_vec \<lparr>gossip_peer_id = q, gossip_payload = Gossip_State (state_of v)\<rparr> = Some data"
      using assms(2) by blast
    moreover have "net_inv q (node_net c q)"
      using reachable_inv [OF that(1) codec] cluster_invD(2) assms(3) by simp
    ultimately show ?thesis using gossip_arrives [OF _ that(2) pq _ codec] by blast
  qed
  note r2 = reachable_inner [OF c1(1) c2(1)]
  obtain c3 where c3: "?steps c2 c3" "node_app c3 = node_app c2" "Inbox_State q (state_of 0) \<in> to_app c3 p"
    using hears [OF r2, of 0] c2(3) by auto
  note r3 = reachable_inner [OF r2 c3(1)]
  have "Outbox_State (state_of 1) \<in> to_net c3 q" using inner_steps_keep [OF c3(1)] c2(3) by blast
  then obtain c4 where c4: "?steps c3 c4" "node_app c4 = node_app c3" "Inbox_State q (state_of 1) \<in> to_app c4 p"
    using hears [OF r3] by blast
  have "?steps c1 c4" using c2(1) c3(1) c4(1) by (meson rtranclp_trans)
  then have in4: "Inbox_State q (state_of 0) \<in> to_app c4 p"
    "\<forall>k \<in> {0, 1}. Inbox_NewTransaction (test_tx k) \<in> to_app c4 p"
    using inner_steps_keep [OF c4(1)] inner_steps_keep [where c = c1 and c' = c4] c3(3) c1(3) by blast+
  have app4: "node_app c4 p = App_new p prms" using pq by (simp add: c4(2) c3(2) c2(2) c1(2))
  have "list_all (brings (to_app c4 p)) (hearing p q)" using in4(2) c4(3) by (simp add: hearing_def)
  moreover obtain out where "loop_until_shutdown LogLineriazer_new_epoch sha256 True (hearing p q)
      \<lparr>app = App_new p prms, sent = [], responses = []\<rparr> =
    Some (Inr \<lparr>app = heard q 1 [0 \<mapsto> 1] p prms, sent = out, responses = []\<rparr>)"
    using hearing_run(1) [OF assms(3) pq] by blast
  ultimately obtain c5 where c5: "?steps c4 c5" "node_app c5 = (node_app c4)(p := heard q 1 [0 \<mapsto> 1] p prms)"
    using loop_moves [OF _ hearing_run(2) [OF assms(3) pq] app4] by blast
  have "list_all (brings (to_app c5 p)) (hearing_late p q)"
    using in4(1) inner_steps_keep [OF c5(1), of p] by (auto simp: hearing_late_def)
  moreover have "node_app c5 p = heard q 1 [0 \<mapsto> 1] p prms" by (simp add: c5(2))
  moreover obtain out' where "loop_until_shutdown LogLineriazer_new_epoch sha256 True (hearing_late p q)
      \<lparr>app = heard q 1 [0 \<mapsto> 1] p prms, sent = [], responses = []\<rparr> =
    Some (Inr \<lparr>app = heard q 0 [0 \<mapsto> 0] p prms, sent = out', responses = []\<rparr>)"
    using hearing_run(3) [OF assms(3) pq] by blast
  ultimately obtain c6 where c6: "?steps c5 c6" "node_app c6 = (node_app c5)(p := heard q 0 [0 \<mapsto> 0] p prms)"
    using loop_moves [OF _ hearing_run(4) [OF assms(3) pq]] by blast
  have "?reach c5"
    using c4(1) c5(1) r3 by (meson reachable_inner)
  then show ?thesis
    using inner_steps_cluster [OF c6(1)]
    by (intro exI [of _ c5] exI [of _ c6]) (simp add: c5(2) c6(2) handle_request_def run_defs App_new_def)
qed

theorem stale_state_moves_back_witness:
  "\<exists>c c' :: (nat, nat GossipMessage, unit, unit) cluster. reachable Some Some (take 32) Params_default c \<and>
    (cluster_step Some Some (take 32))\<^sup>*\<^sup>* c c' \<and>
    handle_request GetState (node_app c 0) =
      Response_State \<lparr>current_self_offsets = [0 \<mapsto> 1], current_consensus_offset = [0 \<mapsto> 1]\<rparr> \<and>
    handle_request GetState (node_app c' 0) =
      Response_State \<lparr>current_self_offsets = [0 \<mapsto> 1], current_consensus_offset = [0 \<mapsto> 0]\<rparr>"
proof -
  have ids: "distinct [0, 1, 2 :: nat]" by simp
  have codec: "\<forall>(m :: nat GossipMessage). \<exists>b. Some m = Some b \<and> Some b = Some m" by simp
  have two: "consensus_nodes Params_default = 2" by (simp add: Params_default_def)
  from stale_state_moves_back [OF ids codec two, of "take 32"] show ?thesis by blast
qed

end
