(* ===== verification/Spec2Isabelle.thy ===== *)
theory Spec2Isabelle
  imports Replicated_Log Progress Stack Node_Properties Example_Cluster System_Properties App_Tests Integration_Tests Stale_Gossip
begin

text \<open>
  A verification of the maroon migrator: a cluster of nodes that collect transactions from
  gateways, tell each other how far they have got, agree on which transactions enough nodes store,
  and append those to a log, epoch by epoch.

  \<^bold>\<open>The program.\<close> An id of a transaction is a 64-bit number; the ids are cut into ranges (blocks)
  of \<open>SINGLE_BLOB_SIZE\<close> ids, so an id is a range and an offset in it. A gateway
  (\<open>gateway/src\<close>) owns a range and sends new transactions of it to the nodes it is connected to. A
  node (\<open>maroon/src\<close>) is two tasks joined by a pair of channels: the network layer, which talks to
  the other processes through libp2p, and the application, an event loop that owns all state. The
  application stores transactions, keeps for every range the offset before its first gap, gossips
  these offsets when a timer fires, asks other nodes for what it is missing, computes from what the
  others told the largest offset that enough nodes have reached, and when a second timer fires
  commits the new ids up to those offsets as an epoch, which it hands to a linearizer.

  \<^bold>\<open>Theories and sources.\<close>
  \<^item> \<open>Prelude\<close>: panics as values, checked machine arithmetic, iteration over hash maps in an order
    that is an argument.
  \<^item> \<open>Range_Key\<close>: \<open>common/src/range_key.rs\<close>, ids, ranges, closed intervals and their iterator.
  \<^item> \<open>Transactions\<close>: \<open>common/src/transaction.rs\<close> and the store of a node.
  \<^item> \<open>Epochs\<close>: \<open>maroon/src/epoch.rs\<close>, epochs and their hashes.
  \<^item> \<open>Linearizers\<close>: \<open>maroon/src/linearizer.rs\<close>; the trait is the locale \<open>linearizer_trait\<close>, which
    \<open>LogLineriazer\<close> interprets.
  \<^item> \<open>Consensus\<close>, \<open>Self_Offsets\<close>, \<open>Delays\<close>: the functions of \<open>maroon/src/app/app.rs\<close> that compute
    consensus offsets and increments of an epoch, own offsets, and what to ask other nodes for.
  \<^item> \<open>Node_Interface\<close>: \<open>maroon/src/network/interface.rs\<close>, \<open>maroon/src/app/interface.rs\<close>,
    \<open>maroon/src/app/params.rs\<close>.
  \<^item> \<open>Node_App\<close>: the type \<open>App\<close> of \<open>maroon/src/app/app.rs\<close>, its handlers and its event loop;
    \<open>Node_Invariant\<close> and \<open>Node_Run\<close> prove its invariant, that it neither panics nor hangs on input
    the protocol allows, and what every event does; \<open>Node_Properties\<close> holds its properties.
  \<^item> \<open>Node_P2P\<close>: \<open>maroon/src/network/p2p.rs\<close>, the request types of \<open>common/src\<close> and the macro of
    \<open>maroon/src/macros.rs\<close>. \<open>Network_Setup\<close>: \<open>P2P::new\<close> of nodes and gateways and \<open>create_behaviour\<close> of
    the protocols of \<open>common/src\<close>.
  \<^item> \<open>Channels\<close>: \<open>common/src/duplex_channel.rs\<close> and \<open>common/src/invoker_handler.rs\<close>.
  \<^item> \<open>Gateways\<close>: \<open>gateway/src\<close>.
  \<^item> \<open>Stack\<close>: \<open>maroon/src/stack.rs\<close> and \<open>maroon/src/main.rs\<close>, the start of a node.
  \<^item> \<open>Systems\<close>: transition systems, inductive invariants and simulations as locales, which \<open>Channels\<close>,
    \<open>Cluster\<close>, \<open>Replicated_Log\<close> and \<open>Whole_System\<close> interpret.
  \<^item> \<open>Cluster\<close>: any number of nodes over a network that loses, delays, reorders and duplicates, with
    its invariant (\<open>Node_Exact\<close> adds that own offsets are exact). \<open>Progress\<close> and \<open>Agreement\<close> show which
    runs are always possible.
  \<^item> \<open>Stale_Gossip\<close>: runs of event loops as runs of a cluster, and what a late state does.
  \<^item> \<open>Replicated_Log\<close>: what a cluster promises, as a small specification, and the simulation that shows
    that a cluster implements it.
  \<^item> \<open>Whole_System\<close>: nodes and gateways together, by a second simulation a cluster; \<open>System_Progress\<close>
    and \<open>System_Properties\<close> show what holds from a gateway's program to the logs.
  \<^item> \<open>Example_Run\<close>, \<open>Example_Cluster\<close>: a run that is evaluated step by step, for the witnesses.
  \<^item> \<open>Unit_Tests\<close>, \<open>App_Tests\<close>: the tests in \<open>common/src\<close> and \<open>maroon/src\<close>, with
    \<open>maroon/src/test_helpers.rs\<close>, as definitions; lemmas show that the tests pass in the model, a check of it against
    what the authors expect of the code, except for the first test of the application, of which is shown on which
    schedules it passes. \<open>Integration_Tests\<close>: \<open>tests/integration\<close>, of which is shown that they
    can pass from every state their systems reach.

  \<^bold>\<open>How the code is modelled.\<close> A panic of the debug build (an overflow, an \<open>expect\<close>, an \<open>assert\<close>)
  is \<open>Inl\<close> of a \<open>panic\<close>; a loop that does not return is \<open>None\<close> of a \<open>partial_function\<close>; so
  \<open>Some (Inr x)\<close> says that the code returns \<open>x\<close>. There is no fuel: every other loop is shown to end
  by its measure. Integers are \<open>64 word\<close>, with \<open>usize\<close> of the same width. A \<open>HashMap\<close> is a map, and
  where the code iterates over one, the order is an argument which the properties leave open. A
  task is a function of the list of events it serves, in the order \<open>tokio::select!\<close> picks them;
  timers are events, so that no property depends on their periods. A channel or a connection of the
  cluster is the set of what was ever sent over it.

  \<^bold>\<open>Parameters.\<close> Code that is not in this repository is an argument: SHA-256 (no property assumes
  it to be injective beyond the strings that are named), the encoder and decoder of gossip messages
  (assumed, where two nodes talk, to decode what was encoded), what libp2p reports (assumed to be
  something a peer sent, under that peer's id) and whether a step of its set-up succeeds, peer ids (any
  linearly ordered type).

  \<^bold>\<open>What is shown.\<close> Of the parts: the arithmetic of ids and intervals with its boundary cases; that
  own offsets are the offsets before the first gap, whatever the order of arrival, and what happens
  at the end of a block; that a node asks for exactly what it is missing and answers if and only
  if it stores it; that consensus offsets are the largest supported ones; that an epoch commits
  exactly what is new, and the hash chain fixes the history; that a network layer tells the
  application the right nodes, the node itself always among them; that a gateway sends to the nodes it is connected
  to; that a future gets the answer to its own request. Of the whole: in
  every reachable cluster no enabled step panics or hangs, what nodes know of one another is true,
  own offsets are exact, whatever is logged is stored by enough nodes, and the logs of two nodes agree on
  every range; a cluster refines a replicated log. From every reachable state a node can still catch up by itself, without a
  gateway being heard, and what enough nodes store can still be logged by all. With gateways: nothing is stored or logged that no
  gateway sent, the log of a node is, of every range, a prefix of what the gateway's program sends, and all of that but
  possibly the last id can always get there.
  Several theorems state flaws the model exposes, among them a request that stops a node
  for ever, a gateway program whose ids panic every node, a transaction that waits for its successor, and a consensus offset
  that goes back.

  \<^bold>\<open>Not modelled.\<close> Logging; the allocation of memory (\<open>with_capacity\<close>, \<open>reserve\<close>),
  taken to succeed; derived code (\<open>serde\<close>, \<open>Debug\<close>, \<open>Display\<close>); the
  arguments of libp2p that are its defaults; how long tests wait; build files, deployment and documents.
\<close>

section \<open>Clusters\<close>

text \<open>
  C1: in every cluster that is reachable over a network that loses, delays, reorders and duplicates
  messages, no enabled step of any node goes wrong. Whatever message an application takes, or timer
  it serves, its handler returns: it does not panic and does not hang, so in particular every
  request for missing transactions it meets asks only for what it stores. The same holds for the
  network layers.
\<close>

theorem cluster_never_stuck:
  fixes c :: "('p :: linorder, 'b, 'c, 'a) cluster"
  assumes "reachable to_vec from_slice sha256 prms c"
    and "\<forall>m b. to_vec m = Some b \<longrightarrow> from_slice b = Some m" and "0 < consensus_nodes prms"
  shows "(\<forall>p e. app_event c p e \<longrightarrow> (\<exists>s' out resp.
      app_step LogLineriazer_new_epoch sha256 True e (node_app c p) = Some (Inr (s', out, resp)))) \<and>
    (\<forall>p e. net_event c p e \<longrightarrow> (\<exists>st' msgs (commands :: ('p, 'b, 'c, 'a) command list).
      p2p_step to_vec from_slice True e (node_net c p) = Inr (st', msgs, commands)))"
proof (intro conjI allI impI)
  have codec: "codec to_vec from_slice" using assms(2) by (simp add: codec_def)
  note inv = reachable_inv [OF assms(1) codec assms(3)]
  fix p
  have app: "app_inv sequence (node_app c p)" using cluster_invD(1) [OF inv] by (simp add: node_inv_def)
  show "\<exists>s' out resp. app_step LogLineriazer_new_epoch sha256 True e (node_app c p) = Some (Inr (s', out, resp))"
    if e: "app_event c p e" for e
    using log_lin.app_step_ok [OF app event_ok_cluster [OF inv e], of sha256] by blast
  show "\<exists>st' msgs (commands :: ('p, 'b, 'c, 'a) command list).
      p2p_step to_vec from_slice True e (node_net c p) = Inr (st', msgs, commands)"
    if e: "net_event c p e" for e
    using p2p_step_ok [OF inv codec e] by blast
qed

theorem cluster_never_stuck_witness:
  "\<exists>c. ex_reachable c \<and> node_app c 5 = ex4 \<and> (\<exists>s' out resp.
     ex_step (Payload [0] (Inbox_NewTransaction tx0)) (node_app c 5) = Some (Inr (s', out, resp)))"
proof -
  obtain c where c: "ex_reachable c" "node_app c 5 = ex4" "Inbox_NewTransaction tx0 \<in> to_app c 5"
    using ex_cluster by blast
  have "app_event c 5 (Payload [0] (Inbox_NewTransaction tx0))" using c(3) ex_ok2 [of ex4] by simp
  note q = cluster_never_stuck [OF c(1) ex_codec ex_params_pos, THEN conjunct1, rule_format, OF this]
  show ?thesis by (rule exI [of _ c]) (intro conjI c q)
qed

text \<open>
  C9: a cluster is a replicated log: its nodes hold what their applications
  store and log what their linearizers log, and whatever happens in a reachable cluster is a step
  of the specification: a node comes to hold more, or appends to its log ids that enough nodes hold,
  keeping the ids of every range in order and without gaps. The network, the channels, the tables of
  offsets, the requests and the epochs are all hidden.
\<close>

theorem cluster_refines_replicated_log:
  assumes "reachable to_vec from_slice sha256 prms c"
    and "\<forall>m b. to_vec m = Some b \<longrightarrow> from_slice b = Some m" and "0 < consensus_nodes prms"
    and "cluster_step to_vec from_slice sha256 c c'"
  shows "(log_step (consensus_nodes prms))\<^sup>*\<^sup>* log_start (log_of_cluster c) \<and>
    log_step (consensus_nodes prms) (log_of_cluster c) (log_of_cluster c')"
proof -
  have "codec to_vec from_slice" using assms(2) by (simp add: codec_def)
  note c = reachable_clusters [OF assms(1) this assms(3)]
  show ?thesis
    using cl.abs_reachable [OF c] cl.abs_reachable_steps [OF c assms(4)]
    by (simp add: rlog.reachable_def)
qed

theorem cluster_refines_replicated_log_witness:
  "\<exists>c c'. ex_reachable c \<and> (log_step (consensus_nodes ex_params))\<^sup>*\<^sup>* log_start (log_of_cluster c) \<and>
     log_step (consensus_nodes ex_params) (log_of_cluster c) (log_of_cluster (c' :: ex_cluster)) \<and>
     logged (log_of_cluster c) 5 = [] \<and> logged (log_of_cluster c') 5 = [0, 1]"
proof -
  obtain c c' where c: "ex_reachable c" "cluster_step Some Some toy_hash c c'"
    "node_app c 5 = ex3" "node_app c' 5 = ex4"
    using ex_cluster_commits by blast
  note q = cluster_refines_replicated_log [OF c(1) ex_codec ex_params_pos c(2)]
  have "logged (log_of_cluster c) 5 = []" "logged (log_of_cluster c') 5 = [0, 1]"
    by (simp_all add: log_of_cluster_def c(3,4) ex4_def) (simp add: ex_defs App_new_def LogLineriazer_new_def)
  with c(1) q show ?thesis by blast
qed

text \<open>
  C4: what a node knows of another is true: where the table of a node says that a node has an
  offset in a range, that node stores every transaction of the range up to that offset, now and
  however long ago it said so.
\<close>

theorem known_offsets_are_held:
  assumes "reachable to_vec from_slice sha256 prms c"
    and "\<forall>m b. to_vec m = Some b \<longrightarrow> from_slice b = Some m" and "0 < consensus_nodes prms"
    and "offset_of (offsets (node_app c p)) r q = Some v"
  shows "\<forall>j \<le> unat v. transactions (node_app c q) (u64 (unat r * 1073741824 + j)) \<noteq> None"
proof -
  have "codec to_vec from_slice" using assms(2) by (simp add: codec_def)
  from cluster_invD(1) [OF reachable_inv [OF assms(1) this assms(3)], of p] assms(4)
  show ?thesis by (simp add: node_inv_def holds_upto_def has_tx_def stores_def)
qed

theorem known_offsets_are_held_witness:
  "\<exists>c. ex_reachable c \<and> node_app c 5 = ex4 \<and>
     transactions (node_app c 5) (u64 (unat (0 :: u64) * 1073741824 + 1)) \<noteq> None"
proof -
  obtain c where c: "ex_reachable c" "node_app c 5 = ex4" "Inbox_NewTransaction tx0 \<in> to_app c 5"
    using ex_cluster by blast
  have "offset_of (offsets (node_app c 5)) 0 5 = Some 1"
    by (simp add: c(2) ex_defs App_new_def offset_of_def)
  moreover have "1 \<le> unat (1 :: u64)" by simp
  ultimately have q: "transactions (node_app c 5) (u64 (unat (0 :: u64) * 1073741824 + 1)) \<noteq> None"
    using known_offsets_are_held [OF c(1) ex_codec ex_params_pos] by blast
  show ?thesis by (rule exI [of _ c]) (intro conjI c q)
qed

text \<open>
  C3: a consensus offset means what it says: at least as many nodes as the parameters ask for
  store every transaction of the range up to it.
\<close>

theorem consensus_offset_is_held_by_quorum:
  assumes "reachable to_vec from_slice sha256 prms c"
    and "\<forall>m b. to_vec m = Some b \<longrightarrow> from_slice b = Some m" and "0 < consensus_nodes prms"
    and "consensus_offset (node_app c p) r = Some v"
  shows "\<exists>Q. finite Q \<and> consensus_nodes prms \<le> card Q \<and>
    (\<forall>q \<in> Q. \<forall>j \<le> unat v. transactions (node_app c q) (u64 (unat r * 1073741824 + j)) \<noteq> None)"
proof -
  have "codec to_vec from_slice" using assms(2) by (simp add: codec_def)
  from cluster_invD(1) [OF reachable_inv [OF assms(1) this assms(3)], of p] assms(4)
  have "quorum (stores c) (consensus_nodes prms) r v" by (simp add: node_inv_def)
  then show ?thesis by (simp add: quorum_def holds_upto_def has_tx_def stores_def)
qed

theorem consensus_offset_is_held_by_quorum_witness:
  "\<exists>c q. ex_reachable c \<and> node_app c 5 = ex4 \<and>
     transactions (node_app c q) (u64 (unat (0 :: u64) * 1073741824 + 1)) \<noteq> None"
proof -
  obtain c where c: "ex_reachable c" "node_app c 5 = ex4" using ex_cluster by blast
  have "consensus_offset (node_app c 5) 0 = Some 1" by (simp add: c(2) ex_defs)
  from consensus_offset_is_held_by_quorum [OF c(1) ex_codec ex_params_pos this] obtain Q where
    Q: "consensus_nodes ex_params \<le> card Q" "\<forall>q \<in> Q. \<forall>j \<le> unat (1 :: u64).
      transactions (node_app c q) (u64 (unat (0 :: u64) * 1073741824 + j)) \<noteq> None" by blast
  then obtain q where "q \<in> Q" using ex_params_pos by fastforce
  moreover have "1 \<le> unat (1 :: u64)" by simp
  ultimately have q: "transactions (node_app c q) (u64 (unat (0 :: u64) * 1073741824 + 1)) \<noteq> None"
    using Q(2) by blast
  show ?thesis by (intro exI [of _ c] exI [of _ q] conjI c q)
qed

text \<open>
  C2: whatever a node has put in its log is stored by at least as many nodes as the parameters
  ask for.
\<close>

theorem logged_ids_are_held_by_quorum:
  assumes "reachable to_vec from_slice sha256 prms c"
    and "\<forall>m b. to_vec m = Some b \<longrightarrow> from_slice b = Some m" and "0 < consensus_nodes prms"
    and "k \<in> set (sequence (linearizer (node_app c p)))"
  shows "\<exists>Q. finite Q \<and> consensus_nodes prms \<le> card Q \<and>
    (\<forall>q \<in> Q. transactions (node_app c q) k \<noteq> None)"
proof -
  have "codec to_vec from_slice" using assms(2) by (simp add: codec_def)
  from reachable_log_ok [OF assms(1) this assms(3)] assms(4) show ?thesis
    by (auto simp: log_ok_def held_by_def log_of_cluster_def dom_def)
qed

theorem logged_ids_are_held_by_quorum_witness:
  "\<exists>c q. ex_reachable c \<and> node_app c 5 = ex4 \<and> transactions (node_app c q) 1 \<noteq> None"
proof -
  obtain c where c: "ex_reachable c" "node_app c 5 = ex4" using ex_cluster by blast
  have "1 \<in> set (sequence (linearizer (node_app c 5)))" by (simp add: c(2) ex4_def)
  from logged_ids_are_held_by_quorum [OF c(1) ex_codec ex_params_pos this] obtain Q where
    Q: "consensus_nodes ex_params \<le> card Q" "\<forall>q \<in> Q. transactions (node_app c q) 1 \<noteq> None" by blast
  then obtain q where "q \<in> Q" using ex_params_pos by fastforce
  then have q: "transactions (node_app c q) 1 \<noteq> None" using Q(2) by blast
  show ?thesis by (intro exI [of _ c] exI [of _ q] conjI c q)
qed

text \<open>
  C5: the nodes agree on the order inside every range: of the logs of any two nodes, restricted to
  one range, one is a prefix of the other.
\<close>

theorem logs_agree_on_every_range:
  assumes "reachable to_vec from_slice sha256 prms c"
    and "\<forall>m b. to_vec m = Some b \<longrightarrow> from_slice b = Some m" and "0 < consensus_nodes prms"
  shows "prefix (filter (in_block r) (sequence (linearizer (node_app c p))))
      (filter (in_block r) (sequence (linearizer (node_app c q)))) \<or>
    prefix (filter (in_block r) (sequence (linearizer (node_app c q))))
      (filter (in_block r) (sequence (linearizer (node_app c p))))"
proof -
  have "codec to_vec from_slice" using assms(2) by (simp add: codec_def)
  from reachable_log_ok [OF assms(1) this assms(3)] show ?thesis
    by (intro in_order_prefix) (simp_all add: log_ok_def log_of_cluster_def)
qed

theorem logs_agree_on_every_range_witness:
  "\<exists>c. ex_reachable c \<and> node_app c 5 = ex4 \<and>
    (prefix (filter (in_block 0) (sequence (linearizer (node_app c 5))))
      (filter (in_block 0) (sequence (linearizer (node_app c 6)))) \<or>
    prefix (filter (in_block 0) (sequence (linearizer (node_app c 6))))
      (filter (in_block 0) (sequence (linearizer (node_app c 5)))))"
proof -
  obtain c where c: "ex_reachable c" "node_app c 5 = ex4" "Inbox_NewTransaction tx0 \<in> to_app c 5"
    using ex_cluster by blast
  note q = logs_agree_on_every_range [OF c(1) ex_codec ex_params_pos, of 0 5 6]
  show ?thesis by (rule exI [of _ c]) (intro conjI c q)
qed

section \<open>What can always happen\<close>

text \<open>
  C13: in every reachable cluster, as long as no block of its store is full, the
  offset a node has in a range, which it gossips and answers state requests with, is the one before the
  first gap of what it stores, and there is one exactly if it stores the first id of the range.
\<close>

theorem own_offsets_are_exact:
  assumes "reachable to_vec from_slice sha256 prms c"
    and "\<forall>m b. to_vec m = Some b \<longrightarrow> from_slice b = Some m" and "0 < consensus_nodes prms"
    and "\<forall>(r :: KeyRange). \<exists>j < 1073741824. transactions (node_app c p) (u64 (unat r * 1073741824 + j)) = None"
  shows "self_offsets (node_app c p) r = Some v \<longleftrightarrow>
    valid_pos r v \<and>
    (\<forall>j \<le> unat v. transactions (node_app c p) (u64 (unat r * 1073741824 + j)) \<noteq> None) \<and>
    transactions (node_app c p) (u64 (unat r * 1073741824 + Suc (unat v))) = None"
proof -
  have "codec to_vec from_slice" using assms(2) by (simp add: codec_def)
  note inv = cluster_invD(1) [OF reachable_inv [OF assms(1) this assms(3)], of p]
  have "\<forall>r. \<not> block_full (transactions (node_app c p)) r"
    using assms(4) by (simp add: not_block_full)
  then have "offsets_exact (self_offsets (node_app c p)) (transactions (node_app c p))"
    using inv by (simp add: node_inv_def exact_inv_def)
  then show ?thesis by (simp add: offsets_exact_def contiguous_def holds_upto_def has_tx_def)
qed

theorem own_offsets_are_exact_witness:
  "\<exists>c. ex_reachable c \<and> node_app c 5 = ex4 \<and>
    transactions (node_app c 5) (u64 (unat (0 :: u64) * 1073741824 + Suc (unat (1 :: u64)))) = None"
proof -
  obtain c where c: "ex_reachable c" "node_app c 5 = ex4" using ex_cluster by blast
  have "\<forall>(r :: KeyRange). \<exists>j < 1073741824. transactions (node_app c 5) (u64 (unat r * 1073741824 + j)) = None"
    using ex4_free by (simp add: c(2) not_block_full)
  moreover have "self_offsets (node_app c 5) 0 = Some 1" by (simp add: c(2) ex_defs)
  ultimately have q: "transactions (node_app c 5) (u64 (unat (0 :: u64) * 1073741824 + Suc (unat (1 :: u64)))) = None"
    using own_offsets_are_exact [OF c(1) ex_codec ex_params_pos] by blast
  show ?thesis by (rule exI [of _ c]) (intro conjI c q)
qed

text \<open>
  C11: whatever has been lost or delayed, a node of a reachable cluster can still come to
  store everything it knows other nodes to have: some continuation of the run leads there in which no
  gateway is heard, so that it gets what it lacks only by advertising and asking, from the answers of
  the nodes it asks, and no handler panics or hangs. In particular every request it makes is one that
  can be answered.
\<close>

theorem nodes_can_catch_up:
  assumes "reachable to_vec from_slice sha256 prms c"
    and "\<forall>m b. to_vec m = Some b \<longrightarrow> from_slice b = Some m" and "0 < consensus_nodes prms"
  shows "\<exists>c'. (inner_step to_vec from_slice sha256)\<^sup>*\<^sup>* c c' \<and>
    (\<forall>r q v. offset_of (offsets (node_app c p)) r q = Some v \<longrightarrow>
      (\<forall>j \<le> unat v. transactions (node_app c' p) (u64 (unat r * 1073741824 + j)) \<noteq> None))"
proof -
  have codec: "codec to_vec from_slice" using assms(2) by (simp add: codec_def)
  from catch_up [OF reachable_inv [OF assms(1) codec assms(3)] codec, of sha256 p] obtain c' where
    c': "(inner_step to_vec from_slice sha256)\<^sup>*\<^sup>* c c'"
    "\<forall>r q v. offset_of (offsets (node_app c p)) r q = Some v \<longrightarrow> holds_upto (stores c' p) r v" by blast
  from c' show ?thesis
    by (intro exI [of _ c']) (simp add: holds_upto_def has_tx_def stores_def)
qed

theorem nodes_can_catch_up_witness:
  "\<exists>c c'. ex_reachable c \<and> transactions (node_app c 6) 1 = None \<and>
     (inner_step Some Some toy_hash)\<^sup>*\<^sup>* c c' \<and>
     transactions (node_app c' 6) (u64 (unat (0 :: u64) * 1073741824 + 1)) \<noteq> None"
proof -
  obtain c where c: "ex_reachable c" "offset_of (offsets (node_app c 6)) 0 5 = Some 1"
    "transactions (node_app c 6) 1 = None" using ex_cluster_behind by blast
  from nodes_can_catch_up [OF c(1) ex_codec ex_params_pos, of 6] obtain c' where
    c': "(inner_step Some Some toy_hash)\<^sup>*\<^sup>* c c'"
    "\<forall>r q v. offset_of (offsets (node_app c 6)) r q = Some v \<longrightarrow>
      (\<forall>j \<le> unat v. transactions (node_app c' 6) (u64 (unat r * 1073741824 + j)) \<noteq> None)" by blast
  have "1 \<le> unat (1 :: u64)" by simp
  then have q: "transactions (node_app c' 6) (u64 (unat (0 :: u64) * 1073741824 + 1)) \<noteq> None"
    using c'(2) c(2) by blast
  show ?thesis by (intro exI [of _ c] exI [of _ c'] conjI c c'(1) q)
qed

text \<open>
  C12: what enough nodes store gets into every log: if as many nodes as a
  consensus needs store the ids of a range up to an offset, then from there some continuation of the run
  leads to a state in which a given node, any one, has logged them, all but possibly the last (which waits
  for its successor). For this no block of those nodes may be full, and states must be encodable.
\<close>

theorem stored_ids_can_be_logged:
  assumes "reachable to_vec from_slice sha256 prms c"
    and "\<forall>m. \<exists>b. to_vec m = Some b \<and> from_slice b = Some m" and "0 < consensus_nodes prms"
    and "finite Q" and "consensus_nodes prms \<le> card Q" and "valid_pos r v"
    and "\<forall>q \<in> Q. \<forall>j \<le> unat v. transactions (node_app c q) (u64 (unat r * 1073741824 + j)) \<noteq> None"
    and "\<forall>q \<in> Q. \<forall>(r :: KeyRange). \<exists>j < 1073741824. transactions (node_app c q) (u64 (unat r * 1073741824 + j)) = None"
  shows "\<exists>c'. (cluster_step to_vec from_slice sha256)\<^sup>*\<^sup>* c c' \<and>
    (\<forall>j < unat v. u64 (unat r * 1073741824 + j) \<in> set (sequence (linearizer (node_app c' p))))"
proof -
  have codec: "codec to_vec from_slice" using assms(2) by (simp add: codec_def) (metis option.inject)
  have "\<And>m. to_vec m \<noteq> None" using assms(2) by (metis option.distinct(1))
  moreover have "\<forall>q \<in> Q. holds_upto (stores c q) r v" "\<forall>q \<in> Q. \<forall>r. \<not> block_full (stores c q) r"
    using assms(7,8) by (simp_all add: holds_upto_def not_block_full has_tx_def stores_def)
  ultimately show ?thesis
    using stored_gets_logged [OF reachable_inv [OF assms(1) codec assms(3)] codec _ assms(4-6), of sha256 p]
      inner_steps_cluster by metis
qed

theorem stored_ids_can_be_logged_witness:
  "\<exists>c c'. ex_reachable c \<and> node_app c 5 = ex4 \<and> (cluster_step Some Some toy_hash)\<^sup>*\<^sup>* c c' \<and>
     u64 (unat (0 :: u64) * 1073741824 + 0) \<in> set (sequence (linearizer (node_app c' 6)))"
proof -
  obtain c where c: "ex_reachable c" "node_app c 5 = ex4" using ex_cluster by blast
  have codec: "\<forall>(m :: nat GossipMessage). \<exists>b. Some m = Some b \<and> Some b = Some m" by simp
  have few: "consensus_nodes ex_params \<le> card {5 :: nat}"
    by (simp add: ex_params_def set_consensus_nodes_def)
  have stored: "\<forall>q \<in> {5}. \<forall>j \<le> unat (1 :: u64). transactions (node_app c q) (u64 (unat (0 :: u64) * 1073741824 + j)) \<noteq> None"
    using c(2) by (auto simp: ex_defs le_Suc_eq)
  have free: "\<forall>q \<in> {5}. \<forall>(r :: KeyRange). \<exists>j < 1073741824. transactions (node_app c q) (u64 (unat r * 1073741824 + j)) = None"
    using ex4_free by (simp add: c(2) not_block_full)
  have pos: "valid_pos 0 1" by (simp add: valid_pos_def)
  from stored_ids_can_be_logged [OF c(1) codec ex_params_pos _ few pos stored free, of 6] obtain c' where
    c': "(cluster_step Some Some toy_hash)\<^sup>*\<^sup>* c c'"
    "\<forall>j < unat (1 :: u64). u64 (unat (0 :: u64) * 1073741824 + j) \<in> set (sequence (linearizer (node_app c' 6)))"
    by auto
  have "0 < unat (1 :: u64)" by simp
  then have q: "u64 (unat (0 :: u64) * 1073741824 + 0) \<in> set (sequence (linearizer (node_app c' 6)))"
    using c'(2) by blast
  show ?thesis by (intro exI [of _ c] exI [of _ c'] conjI c c'(1) q)
qed

end
